(* ===== verification/Prelude.thy ===== *)
theory Prelude
  imports Main "HOL-Library.Word" "HOL-Library.Monad_Syntax" "HOL-Library.Signed_Division"
begin

text \<open>
  The vocabulary every component shares: the i386 flat memory (a total function from 32-bit
  addresses to bytes), little-endian loads and stores, regions of memory and their
  separation, NUL-terminated strings in memory, C's signed integers, and the event trace.

  A function of the kernel that may not give control back (an endless loop, the macro hang,
  a failed assertion, which prints and then spins) has a result of type option; None is
  "never returns". Everything else is total.
\<close>

unbundle bit_operations_syntax

section \<open>Types\<close>

type_synonym byte = "8 word"
type_synonym addr = "32 word"
type_synonym u16 = "16 word"
type_synonym u32 = "32 word"
type_synonym mem = "addr \<Rightarrow> byte"

named_theorems mem_defs \<open>definitions of loads and stores\<close>
named_theorems frame \<open>what an operation leaves unchanged\<close>

section \<open>Definitions\<close>

subsection \<open>Loads and stores\<close>

definition ld16 :: "mem \<Rightarrow> addr \<Rightarrow> u16" where
  [mem_defs]: "ld16 m a = ucast (m a) OR push_bit 8 (ucast (m (a + 1)))"

definition st16 :: "mem \<Rightarrow> addr \<Rightarrow> u16 \<Rightarrow> mem" where
  [mem_defs]: "st16 m a v = m(a := ucast v, a + 1 := ucast (drop_bit 8 v))"

definition ld32 :: "mem \<Rightarrow> addr \<Rightarrow> u32" where
  [mem_defs]: "ld32 m a = ucast (m a) OR push_bit 8 (ucast (m (a + 1)))
     OR push_bit 16 (ucast (m (a + 2))) OR push_bit 24 (ucast (m (a + 3)))"

definition st32 :: "mem \<Rightarrow> addr \<Rightarrow> u32 \<Rightarrow> mem" where
  [mem_defs]: "st32 m a v = m(a := ucast v, a + 1 := ucast (drop_bit 8 v),
     a + 2 := ucast (drop_bit 16 v), a + 3 := ucast (drop_bit 24 v))"

text \<open>The \<open>n\<close> bytes from \<open>p\<close> on, and writing a list of bytes at \<open>p\<close>.\<close>

primrec rd :: "mem \<Rightarrow> addr \<Rightarrow> nat \<Rightarrow> byte list" where
  "rd m p 0 = []"
| "rd m p (Suc n) = m p # rd m (p + 1) n"

primrec wr :: "mem \<Rightarrow> addr \<Rightarrow> byte list \<Rightarrow> mem" where
  "wr m p [] = m"
| "wr m p (x # xs) = wr (m(p := x)) (p + 1) xs"

subsection \<open>Regions\<close>

text \<open>
  The \<open>n\<close> addresses from \<open>p\<close> on (wrapping at \<open>2 ^ 32\<close>), and an executable
  test that two regions have no address in common.
\<close>

definition region :: "addr \<Rightarrow> nat \<Rightarrow> addr set" where
  "region p n = {a. unat (a - p) < n}"

definition sep :: "addr \<Rightarrow> nat \<Rightarrow> addr \<Rightarrow> nat \<Rightarrow> bool" where
  "sep p n q k \<longleftrightarrow> n = 0 \<or> k = 0 \<or> n \<le> unat (q - p) \<and> k \<le> unat (p - q)"

subsection \<open>Strings\<close>

text \<open>
  \<open>cstr m p s\<close>: at \<open>p\<close> lies the NUL-terminated string whose bytes are \<open>s\<close>.
  \<open>bytes\<close> turns an ASCII literal of the source into bytes.
\<close>

primrec cstr :: "mem \<Rightarrow> addr \<Rightarrow> byte list \<Rightarrow> bool" where
  "cstr m p [] \<longleftrightarrow> m p = 0"
| "cstr m p (c # s) \<longleftrightarrow> m p = c \<and> c \<noteq> 0 \<and> cstr m (p + 1) s"

definition bytes :: "string \<Rightarrow> byte list" where
  "bytes s = map of_char s"

abbreviation chr :: "char \<Rightarrow> byte" where
  "chr c \<equiv> of_char c"

subsection \<open>C integers\<close>

text \<open>
  A C \<open>int\<close> is a 32-bit word read by \<open>sint\<close>. Division truncates towards zero;
  a \<open>char\<close> is signed and is sign-extended when it is promoted.
\<close>

definition c_div :: "u32 \<Rightarrow> u32 \<Rightarrow> u32" where
  "c_div a b = word_of_int (sint a sdiv sint b)"

definition c_mod :: "u32 \<Rightarrow> u32 \<Rightarrow> u32" where
  "c_mod a b = word_of_int (sint a smod sint b)"

definition promote :: "byte \<Rightarrow> u32" where
  "promote c = scast c"

section \<open>Word arithmetic\<close>

lemma unat_lt32: "unat (p :: u32) < 2 ^ 32"
  using unsigned_less [of p, where ?'a = nat] by simp

lemma unat_diff_flip: "p \<noteq> q \<Longrightarrow> unat (q - p) + unat (p - q) = 2 ^ 32" for p q :: u32
  using unat_sub_if' [of p q] unat_sub_if' [of q p] unat_lt32 [of p] unat_lt32 [of q]
  by (auto simp add: word_le_nat_alt word_unat_eq_iff split: if_splits)

lemma unat_plus32: "unat p + unat q < 2 ^ 32 \<Longrightarrow> unat (p + q) = unat p + unat q" for p q :: u32
  by (simp add: unat_word_ariths)

lemma unat_minus32: "unat q \<le> unat p \<Longrightarrow> unat (p - q) = unat p - unat q" for p q :: u32
  by (simp add: unat_sub_if' word_le_nat_alt)

lemma unat_of_nat32: "n < 2 ^ 32 \<Longrightarrow> unat (of_nat n :: u32) = n"
  by (simp add: unat_of_nat)

lemma unat_Suc32: "Suc (unat p) < 2 ^ 32 \<Longrightarrow> unat (p + 1) = Suc (unat p)" for p :: u32
  using unat_plus32 [of p 1] by simp

lemma unat_add_of_nat32: "unat p + n < 2 ^ 32 \<Longrightarrow> unat (p + of_nat n) = unat p + n" for p :: u32
  using unat_plus32 [of p "of_nat n"] by (simp add: unat_of_nat32)

lemma unat_pred32: "p \<noteq> 0 \<Longrightarrow> unat (p - 1) = unat p - 1" for p :: u32
  by (rule unat_minus_one)

lemma of_nat_Suc_shift: "p + of_nat (Suc i) = (p + 1) + of_nat i" for p :: u32
  by simp

lemma of_nat_inj32: "i < 2 ^ 32 \<Longrightarrow> j < 2 ^ 32 \<Longrightarrow> (of_nat i :: u32) = of_nat j \<longleftrightarrow> i = j"
  by (metis unat_of_nat32)

lemma of_nat_eq_0_32: "n < 2 ^ 32 \<Longrightarrow> (of_nat n :: u32) = 0 \<longleftrightarrow> n = 0"
  using of_nat_inj32 [of n 0] by simp

lemma uint_byte: "uint (a :: byte) < 256"
  using uint_lt2p [of a] by simp

lemma ucast_byte_inj [simp]: "(ucast a :: u32) = ucast b \<longleftrightarrow> a = b" for a b :: byte
proof
  assume "(ucast a :: u32) = ucast b"
  then have "(ucast (ucast a :: u32) :: byte) = ucast (ucast b :: u32)" by simp
  moreover have "(ucast (ucast x :: u32) :: byte) = x" for x :: byte
    by (rule bit_word_eqI) (simp add: bit_simps)
  ultimately show "a = b" by simp
qed simp

lemma ucast_byte_0 [simp]: "(ucast a :: u32) = 0 \<longleftrightarrow> a = 0" for a :: byte
  using ucast_byte_inj [of a 0] by simp

lemma sint32_of_int: "- (2 ^ 31) \<le> k \<Longrightarrow> k < 2 ^ 31 \<Longrightarrow> sint (word_of_int k :: u32) = k"
  by (simp add: signed_of_int signed_take_bit_int_eq_self)

lemma ucast_byte_int: "(ucast a :: u32) = word_of_int (uint a)" for a :: byte
  by simp

lemma sint_byte_diff: "sint (ucast a - ucast b :: u32) = uint a - uint b" for a b :: byte
proof -
  have "(ucast a - ucast b :: u32) = word_of_int (uint a - uint b)"
    by (simp only: ucast_byte_int of_int_diff)
  moreover have "- 256 \<le> uint a - uint b" "uint a - uint b \<le> 256"
    using uint_byte [of a] uint_byte [of b] uint_ge_0 [of a] uint_ge_0 [of b] by linarith+
  ultimately show ?thesis using sint32_of_int [of "uint a - uint b"] by (simp only:) simp
qed

section \<open>Regions and separation\<close>

lemma region_0 [simp]: "region p 0 = {}"
  by (simp add: region_def)

lemma region_mono: "n \<le> k \<Longrightarrow> region p n \<subseteq> region p k"
  by (auto simp: region_def)

lemma region_offset [simp]: "i < 2 ^ 32 \<Longrightarrow> p + of_nat i \<in> region p n \<longleftrightarrow> i < n"
  by (simp add: region_def unat_of_nat32)

lemma region_base [simp]: "p \<in> region p n \<longleftrightarrow> 0 < n"
  by (simp add: region_def)

lemma regionE:
  assumes "a \<in> region p n"
  obtains i where "i < n" "i < 2 ^ 32" "a = p + of_nat i"
proof
  show "unat (a - p) < n" using assms by (simp add: region_def)
  show "unat (a - p) < 2 ^ 32" by (rule unat_lt32)
  show "a = p + of_nat (unat (a - p))" by simp
qed

lemma region_sub:
  assumes "j + l \<le> n" and "n \<le> 2 ^ 32"
  shows "region (p + of_nat j) l \<subseteq> region p n"
proof
  fix a
  assume "a \<in> region (p + of_nat j) l"
  then obtain i where "i < l" "a = p + of_nat (j + i)"
    by (elim regionE) (simp add: algebra_simps)
  with assms show "a \<in> region p n" by (simp only: region_offset)
qed

lemma region_Suc: "n < 2 ^ 32 \<Longrightarrow> region p (Suc n) = insert p (region (p + 1) n)"
proof -
  assume n: "n < 2 ^ 32"
  have "unat (a - p) < Suc n \<longleftrightarrow> a = p \<or> unat (a - (p + 1)) < n" for a
  proof (cases "a = p")
    case False
    then have "unat (a - (p + 1)) = unat (a - p) - 1" and "unat (a - p) \<noteq> 0"
      using unat_pred32 [of "a - p"] by (auto simp: algebra_simps unat_eq_0)
    with False show ?thesis by auto
  qed simp
  then show ?thesis by (auto simp: region_def)
qed

lemma region_unat:
  assumes "unat p + n \<le> 2 ^ 32"
  shows "a \<in> region p n \<longleftrightarrow> unat p \<le> unat a \<and> unat a < unat p + n"
  using assms unat_lt32 [of a] by (auto simp: region_def unat_sub_if')

lemma sepD: "sep p n q k \<Longrightarrow> unat (a - p) < n \<Longrightarrow> k \<le> unat (a - q)"
proof -
  assume s: "sep p n q k" and a: "unat (a - p) < n"
  show ?thesis
  proof (cases "k = 0")
    case False
    with s a have n: "n \<le> unat (q - p)" and k: "k \<le> unat (p - q)" by (auto simp: sep_def)
    with False have "p \<noteq> q" by auto
    then have "unat (a - p) + unat (p - q) < 2 ^ 32" using unat_diff_flip [of p q] n a by linarith
    from unat_plus32 [OF this] have "unat (a - q) = unat (a - p) + unat (p - q)" by simp
    with k show ?thesis by simp
  qed simp
qed

lemma sep_region: "sep p n q k \<Longrightarrow> region p n \<inter> region q k = {}"
  using sepD by (fastforce simp: region_def)

lemma sep_sym: "sep p n q k \<Longrightarrow> sep q k p n"
  by (auto simp: sep_def)

lemma sep_mono: "sep p n q k \<Longrightarrow> n' \<le> n \<Longrightarrow> k' \<le> k \<Longrightarrow> sep p n' q k'"
  by (auto simp: sep_def)

lemma sep_forward: "sep d n s k \<Longrightarrow> n \<noteq> 0 \<Longrightarrow> k \<le> unat (d - s)"
  by (auto simp: sep_def)

text \<open>Two intervals that do not wrap are separated when one ends before the other starts.\<close>

lemma sep_below:
  assumes "unat p + n \<le> unat q" and "unat q + k \<le> 2 ^ 32"
  shows "sep p n q k"
proof (cases "n = 0 \<or> k = 0")
  case False
  with assms have "unat p \<le> unat q" and "p \<noteq> q" by auto
  then have "unat (q - p) = unat q - unat p" by (simp add: unat_minus32)
  with unat_diff_flip [OF \<open>p \<noteq> q\<close>] assms show ?thesis by (auto simp: sep_def)
qed (auto simp: sep_def)

lemma sep_cases:
  assumes "unat p + n \<le> 2 ^ 32" and "unat q + k \<le> 2 ^ 32"
    and "unat p + n \<le> unat q \<or> unat q + k \<le> unat p"
  shows "sep p n q k"
  using assms sep_below sep_sym by blast

lemma sep_Suc:
  assumes "sep p (Suc n) q k" "n < 2 ^ 32"
  shows "sep (p + 1) n q k" "k \<noteq> 0 \<Longrightarrow> p \<notin> region q k"
proof -
  show "k \<noteq> 0 \<Longrightarrow> p \<notin> region q k"
    using assms by (auto simp: sep_def region_def)
  show "sep (p + 1) n q k"
  proof (cases "n = 0 \<or> k = 0")
    case False
    with assms have nk: "Suc n \<le> unat (q - p)" "k \<le> unat (p - q)" by (auto simp: sep_def)
    then have "q - p \<noteq> 0" by auto
    then have "unat (q - (p + 1)) = unat (q - p) - 1"
      using unat_pred32 [of "q - p"] by (simp add: algebra_simps)
    moreover have "unat (p + 1 - q) = Suc (unat (p - q))"
      using unat_diff_flip [of p q] nk \<open>q - p \<noteq> 0\<close> False unat_Suc32 [of "p - q"]
      by (auto simp: algebra_simps)
    ultimately show ?thesis using nk by (auto simp: sep_def)
  qed (auto simp: sep_def)
qed

lemma sep_adjacent:
  assumes "n + k \<le> 2 ^ 32"
  shows "sep p n (p + of_nat n) k"
proof (cases "n = 0 \<or> k = 0")
  case False
  with assms have n: "unat (of_nat n :: u32) = n" by (intro unat_of_nat32) auto
  have "p \<noteq> p + of_nat n"
  proof
    assume "p = p + of_nat n"
    then have "(of_nat n :: u32) = 0" by simp
    with n False show False by simp
  qed
  from unat_diff_flip [OF this] n False assms show ?thesis by (auto simp: sep_def)
qed (auto simp: sep_def)

lemma sep_offset:
  assumes "sep p n q k" and "j + l \<le> n" and "n \<le> 2 ^ 32"
  shows "sep (p + of_nat j) l q k"
  using assms
proof (induction j arbitrary: p n)
  case 0
  then show ?case using sep_mono [of p n q k l k] by simp
next
  case (Suc j)
  then obtain n' where n': "n = Suc n'" by (cases n) auto
  with Suc.prems have "sep (p + 1) n' q k" by (intro sep_Suc(1)) auto
  with Suc.prems n' have "sep (p + 1 + of_nat j) l q k" by (intro Suc.IH) auto
  then show ?case by (simp add: algebra_simps)
qed

section \<open>Loads after stores\<close>

lemma word32_of_bytes:
  "ucast (ucast v :: byte) OR push_bit 8 (ucast (ucast (drop_bit 8 v) :: byte))
    OR push_bit 16 (ucast (ucast (drop_bit 16 v) :: byte))
    OR push_bit 24 (ucast (ucast (drop_bit 24 v) :: byte)) = (v :: u32)"
proof (rule bit_word_eqI)
  fix n :: nat
  assume "n < LENGTH(32)"
  then consider "n < 8" | k where "n = 8 + k" "k < 8" | k where "n = 16 + k" "k < 8"
    | k where "n = 24 + k" "k < 8"
    using le_Suc_ex [of 8 n] le_Suc_ex [of 16 n] le_Suc_ex [of 24 n] by force
  then show "bit (ucast (ucast v :: byte) OR push_bit 8 (ucast (ucast (drop_bit 8 v) :: byte))
    OR push_bit 16 (ucast (ucast (drop_bit 16 v) :: byte))
    OR push_bit 24 (ucast (ucast (drop_bit 24 v) :: byte)) :: u32) n = bit v n"
    by cases (auto simp add: bit_simps)
qed

lemma word16_of_bytes:
  "ucast (ucast v :: byte) OR push_bit 8 (ucast (ucast (drop_bit 8 v) :: byte)) = (v :: u16)"
  by (rule bit_word_eqI) (auto simp add: bit_simps)

lemma ld32_st32 [simp]: "ld32 (st32 m a v) a = v"
  by (simp add: ld32_def st32_def word32_of_bytes)

lemma ld16_st16 [simp]: "ld16 (st16 m a v) a = v"
  by (simp add: ld16_def st16_def word16_of_bytes)

lemma st32_frame [frame]: "a \<notin> region p 4 \<Longrightarrow> st32 m p v a = m a"
  using region_offset [of 0 p 4] region_offset [of 1 p 4] region_offset [of 2 p 4]
    region_offset [of 3 p 4]
  by (auto simp: st32_def)

lemma st16_frame [frame]: "a \<notin> region p 2 \<Longrightarrow> st16 m p v a = m a"
  using region_offset [of 0 p 2] region_offset [of 1 p 2]
  by (auto simp: st16_def)

lemma ld32_cong: "(\<And>a. a \<in> region p 4 \<Longrightarrow> m a = m' a) \<Longrightarrow> ld32 m p = ld32 m' p"
  using region_offset [of 0 p 4] region_offset [of 1 p 4] region_offset [of 2 p 4]
    region_offset [of 3 p 4]
  by (simp add: ld32_def)

lemma ld32_st32_other: "sep p 4 q 4 \<Longrightarrow> ld32 (st32 m q v) p = ld32 m p"
  by (rule ld32_cong, rule st32_frame) (use sep_region in blast)

lemma ld32_byte_other: "a \<notin> region p 4 \<Longrightarrow> ld32 (m(a := v)) p = ld32 m p"
  by (rule ld32_cong) auto

lemma ld32_zero: "(\<And>a. a \<in> region p 4 \<Longrightarrow> m a = 0) \<Longrightarrow> ld32 m p = 0"
  using region_offset [of 0 p 4] region_offset [of 1 p 4] region_offset [of 2 p 4]
    region_offset [of 3 p 4]
  by (simp add: ld32_def)

lemma ld16_cong: "(\<And>a. a \<in> region p 2 \<Longrightarrow> m a = m' a) \<Longrightarrow> ld16 m p = ld16 m' p"
  using region_offset [of 0 p 2] region_offset [of 1 p 2] by (simp add: ld16_def)

lemma ld16_st16_other: "sep p 2 q 2 \<Longrightarrow> ld16 (st16 m q v) p = ld16 m p"
  using sep_region [of p 2 q 2] by (intro ld16_cong st16_frame) auto

text \<open>Arrays of words.\<close>

lemma array_slots:
  assumes "i * k + k < 2 ^ 32" "j * k + k < 2 ^ 32" "i \<noteq> j" "n \<le> k"
  shows "sep (p + of_nat (i * k)) n (p + of_nat (j * k)) n"
proof -
  have *: "sep (p + of_nat (i * k)) n (p + of_nat (j * k)) n" if "i < j" "j * k + k < 2 ^ 32" for i j
  proof -
    obtain d where j: "j = i + Suc d" using less_imp_Suc_add [OF \<open>i < j\<close>] by auto
    have eq: "p + of_nat (j * k) = p + of_nat (i * k) + of_nat (Suc d * k)" by (simp add: j algebra_simps)
    have "Suc d * k + k < 2 ^ 32" using that(2) by (simp add: j algebra_simps)
    then have "sep (p + of_nat (i * k)) (Suc d * k) (p + of_nat (i * k) + of_nat (Suc d * k)) k"
      by (intro sep_adjacent) auto
    then show ?thesis unfolding eq by (rule sep_mono) (use \<open>n \<le> k\<close> in simp_all)
  qed
  show ?thesis using * [of i j] * [of j i] assms sep_sym by (cases "i < j") auto
qed

lemma ld32_array:
  assumes "i * 4 + 4 < 2 ^ 32" "j * 4 + 4 < 2 ^ 32"
  shows "ld32 (st32 m (p + of_nat (i * 4)) v) (p + of_nat (j * 4)) = (if i = j then v else ld32 m (p + of_nat (j * 4)))"
  using array_slots [of j 4 i 4 p] assms by (simp add: ld32_st32_other)

lemma ld16_array:
  assumes "i * 2 + 2 < 2 ^ 32" "j * 2 + 2 < 2 ^ 32"
  shows "ld16 (st16 m (p + of_nat (i * 2)) v) (p + of_nat (j * 2)) = (if i = j then v else ld16 m (p + of_nat (j * 2)))"
  using array_slots [of j 2 i 2 p] assms by (simp add: ld16_st16_other)

section \<open>Reading and writing runs of bytes\<close>

lemma length_rd [simp]: "length (rd m p n) = n"
  by (induction n arbitrary: p) auto

lemma nth_rd [simp]: "i < n \<Longrightarrow> rd m p n ! i = m (p + of_nat i)"
proof (induction n arbitrary: p i)
  case (Suc n)
  then show ?case by (cases i) (auto simp: algebra_simps)
qed simp

lemma rd_append: "rd m p (j + k) = rd m p j @ rd m (p + of_nat j) k"
  by (induction j arbitrary: p) (auto simp: algebra_simps)

lemma rd_cong: "(\<And>a. a \<in> region p n \<Longrightarrow> m a = m' a) \<Longrightarrow> n \<le> 2 ^ 32 \<Longrightarrow> rd m p n = rd m' p n"
  by (auto intro!: nth_equalityI)

lemma rd_upd_other: "a \<notin> region p n \<Longrightarrow> n \<le> 2 ^ 32 \<Longrightarrow> rd (m(a := v)) p n = rd m p n"
  by (rule rd_cong) auto

lemma rd_drop: "i \<le> n \<Longrightarrow> drop i (rd m p n) = rd m (p + of_nat i) (n - i)"
  using rd_append [of m p i "n - i"] by simp

lemma rd_take: "i \<le> n \<Longrightarrow> take i (rd m p n) = rd m p i"
  using rd_append [of m p i "n - i"] by simp

lemma wr_frame [frame]: "a \<notin> region p (length xs) \<Longrightarrow> length xs \<le> 2 ^ 32 \<Longrightarrow> wr m p xs a = m a"
  by (induction xs arbitrary: m p) (auto simp: region_Suc)

lemma wr_nth: "i < length xs \<Longrightarrow> length xs \<le> 2 ^ 32 \<Longrightarrow> wr m p xs (p + of_nat i) = xs ! i"
proof (induction xs arbitrary: m p i)
  case (Cons x xs)
  show ?case
  proof (cases i)
    case 0
    have "p \<notin> region (p + 1) (length xs)"
      using Cons.prems(2) by (simp add: region_def unsigned_minus_1_eq_mask mask_eq_exp_minus_1)
    with 0 Cons.prems show ?thesis by (simp add: wr_frame)
  next
    case (Suc j)
    have "wr (m(p := x)) (p + 1) xs (p + 1 + of_nat j) = xs ! j"
      using Suc Cons.prems by (intro Cons.IH) auto
    with Suc show ?thesis by (simp only: wr.simps of_nat_Suc_shift nth_Cons_Suc)
  qed
qed simp

lemma rd_numeral [simp]: "rd m p (numeral k) = m p # rd m (p + 1) (pred_numeral k)"
  by (simp add: numeral_eq_Suc)

lemma rd_wr: "length xs \<le> 2 ^ 32 \<Longrightarrow> rd (wr m p xs) p (length xs) = xs"
  by (auto intro!: nth_equalityI simp: wr_nth)

section \<open>Strings in memory\<close>

lemma cstr_iff: "cstr m p s \<longleftrightarrow> rd m p (length s) = s \<and> 0 \<notin> set s \<and> m (p + of_nat (length s)) = 0"
  by (induction s arbitrary: p) (auto simp: algebra_simps)

lemma cstr_wr: "0 \<notin> set s \<Longrightarrow> length s < 2 ^ 32 \<Longrightarrow> cstr (wr m p (s @ [0])) p s"
  using wr_nth [of "length s" "s @ [0]" m p]
  by (auto simp: cstr_iff wr_nth nth_append intro!: nth_equalityI)

lemma cstr_nth: "cstr m p s \<Longrightarrow> i < length s \<Longrightarrow> m (p + of_nat i) = s ! i"
  by (metis cstr_iff nth_rd)

lemma cstr_nz: "cstr m p s \<Longrightarrow> c \<in> set s \<Longrightarrow> c \<noteq> 0"
  by (auto simp: cstr_iff)

text \<open>A string cannot be longer than the address space: its NUL would be one of its bytes.\<close>

lemma cstr_length: "cstr m p s \<Longrightarrow> length s < 2 ^ 32"
proof (rule ccontr)
  assume s: "cstr m p s" and "\<not> length s < 2 ^ 32"
  then obtain k where k: "length s = 2 ^ 32 + k" by (metis le_Suc_ex not_less)
  have "(of_nat (2 ^ 32) :: u32) = 0" by simp
  then have "(of_nat (2 ^ 32 + k) :: u32) = of_nat k" by (simp only: of_nat_add add_0)
  moreover have "k < length s" using k by simp
  ultimately have "m (p + of_nat (length s)) = s ! k" using cstr_nth [OF s, of k] k by (simp only:)
  moreover have "m (p + of_nat (length s)) = 0" using s by (simp add: cstr_iff)
  moreover have "s ! k \<noteq> 0" using cstr_nz [OF s, of "s ! k"] k by simp
  ultimately show False by simp
qed

lemma cstr_cong:
  "cstr m p s \<Longrightarrow> (\<And>a. a \<in> region p (Suc (length s)) \<Longrightarrow> m' a = m a) \<Longrightarrow> cstr m' p s"
proof -
  assume s: "cstr m p s" and eq: "\<And>a. a \<in> region p (Suc (length s)) \<Longrightarrow> m' a = m a"
  have len: "length s < 2 ^ 32" by (rule cstr_length [OF s])
  have "rd m' p (length s) = rd m p (length s)"
    using eq region_mono [of "length s" "Suc (length s)" p] len by (intro rd_cong) auto
  with s eq [of "p + of_nat (length s)"] len show ?thesis by (simp add: cstr_iff)
qed

lemma cstr_upd_other: "cstr m q s \<Longrightarrow> a \<notin> region q (Suc (length s)) \<Longrightarrow> cstr (m(a := v)) q s"
  by (rule cstr_cong [of m]) auto

lemma cstr_append: "cstr m p (s @ t) \<longleftrightarrow> rd m p (length s) = s \<and> 0 \<notin> set s \<and> cstr m (p + of_nat (length s)) t"
  by (induction s arbitrary: p) (auto simp: algebra_simps)

lemma cstr_after_wr:
  assumes "cstr m q t" and "sep q (Suc (length t)) p (length xs)" and "length xs \<le> 2 ^ 32"
  shows "cstr (wr m p xs) q t"
  using assms sep_region by (intro cstr_cong [OF assms(1)] wr_frame) blast+

lemma cstr_unique: "cstr m p s \<Longrightarrow> cstr m p t \<Longrightarrow> s = t"
proof (induction s arbitrary: p t)
  case Nil
  then show ?case by (cases t) auto
next
  case (Cons c s)
  then show ?case by (cases t) auto
qed

lemma length_bytes [simp]: "length (bytes s) = length s"
  by (simp add: bytes_def)

end
