(* ===== verification/Machine.thy ===== *)
theory Machine
  imports Prelude
begin

text \<open>
  The state every kernel component works on: the flat memory, the C variable errno, the
  trace of port accesses and the trace of messages. The static variables of a component
  extend this record in the component's theory.

  A message printed on the console or on the serial line is kept in the trace as the call
  that was made (format and arguments). Ports are read from the hardware, a parameter: a
  function of the port accesses so far and the port that is read.
\<close>

section \<open>Messages\<close>

abbreviation nl :: string where
  "nl \<equiv> [CHR 0x0A]"

datatype arg = ArgW u32 | ArgS string | ArgB "byte list"

datatype event =
    Serial_printf string "arg list"
  | Serial_print string
  | Serial_send byte
  | Serial_write "byte list"
  | Printf string "arg list"
  | Puts string
  | Put string
  | Puts_bytes "byte list"
  | Put_bytes "byte list"
  | Putchar byte

section \<open>Ports (include/asm/ioports.h)\<close>

datatype io_event =
    Outb u16 byte | Outw u16 u16 | Outl u16 u32
  | Inb u16 byte | Inw u16 u16 | Inl u16 u32

type_synonym hw = "io_event list \<Rightarrow> u16 \<Rightarrow> u32"

section \<open>Symbols of the kernel image\<close>

text \<open>
  The source stores the addresses of these functions in tables (gates, interrupt handlers,
  devices, inodes) and reads these static objects. The linker places them; its choice is the
  parameter \<open>image\<close>.
\<close>

datatype symbol =
    Int_stub nat | Irq_stub nat
  | Zero_division | General_protection | Page_fault | Pit_irq | Kbd_irq | Floppy_irq
  | Ttydev_write | Ttydev_read | Ttydev_open | Ttydev_close | Ttydev_ioctl
  | Ramdisk_read | Ramdisk_open | Ramdisk_close | Ramdisk_ioctl
  | Ramfs_readdir | Ramfs_finddir | Ramfs_read | Devfs_read | Devfs_write
  | Shell_help | List_devs | Check_floppy | Check_time | Check_memory
  | Test_fsdev | Test_strtok | Test_malloc | Trigger_pf
  | Scancode_set | Shift_set | Devs | Dirent | File_separator | Str_FACP | Str_S5
  | Floppy_type | File_type | Handlers | Hello_world | Default_color | White_on_black
  | Literal string

type_synonym image = "symbol \<Rightarrow> addr"

section \<open>The state\<close>

record machine =
  mem :: mem
  errno :: u32
  log :: "event list"
  io :: "io_event list"

definition say :: "event \<Rightarrow> 'a machine_scheme \<Rightarrow> 'a machine_scheme" where
  "say e s = s\<lparr>log := log s @ [e]\<rparr>"

text \<open>
  An interrupt handler gives control back, or it spins for ever in a last state (the macro
  hang, with the interrupts off).
\<close>

datatype 's fate = Returns 's | Hangs 's

end
