(* ===== verification/Ports.thy ===== *)
theory Ports
  imports Machine
begin

text \<open>
  Port I/O (include/asm/ioports.h). A write is an event of the trace; a read asks the hardware,
  a parameter \<open>hw\<close> that answers from the port accesses made so far, and is an event too.
\<close>

section \<open>ioports.h\<close>

definition outb :: "u16 \<Rightarrow> byte \<Rightarrow> 'a machine_scheme \<Rightarrow> 'a machine_scheme" where
  "outb port val s = s\<lparr>io := io s @ [Outb port val]\<rparr>"

definition inb :: "hw \<Rightarrow> u16 \<Rightarrow> 'a machine_scheme \<Rightarrow> byte \<times> 'a machine_scheme" where
  "inb hw port s = (let ret = ucast (hw (io s) port) in (ret, s\<lparr>io := io s @ [Inb port ret]\<rparr>))"

definition outw :: "u16 \<Rightarrow> u16 \<Rightarrow> 'a machine_scheme \<Rightarrow> 'a machine_scheme" where
  "outw port val s = s\<lparr>io := io s @ [Outw port val]\<rparr>"

definition inw :: "hw \<Rightarrow> u16 \<Rightarrow> 'a machine_scheme \<Rightarrow> u16 \<times> 'a machine_scheme" where
  "inw hw port s = (let ret = ucast (hw (io s) port) in (ret, s\<lparr>io := io s @ [Inw port ret]\<rparr>))"

definition outl :: "u16 \<Rightarrow> u32 \<Rightarrow> 'a machine_scheme \<Rightarrow> 'a machine_scheme" where
  "outl port val s = s\<lparr>io := io s @ [Outl port val]\<rparr>"

definition inl :: "hw \<Rightarrow> u16 \<Rightarrow> 'a machine_scheme \<Rightarrow> u32 \<times> 'a machine_scheme" where
  "inl hw port s = (let ret = hw (io s) port in (ret, s\<lparr>io := io s @ [Inl port ret]\<rparr>))"

section \<open>Reading a trace\<close>

text \<open>The bytes written to a port, in order, and the last of them.\<close>

fun written :: "u16 \<Rightarrow> io_event list \<Rightarrow> byte list" where
  "written p [] = []"
| "written p (Outb q v # tr) = (if q = p then v # written p tr else written p tr)"
| "written p (_ # tr) = written p tr"

definition last_written :: "u16 \<Rightarrow> byte \<Rightarrow> io_event list \<Rightarrow> byte" where
  "last_written p v tr = last (v # written p tr)"

text \<open>A register that reads back what was written to it; it holds \<open>v\<close> at the start.\<close>

definition latches :: "hw \<Rightarrow> u16 \<Rightarrow> byte \<Rightarrow> bool" where
  "latches hw p v \<longleftrightarrow> (\<forall>tr. ucast (hw tr p) = last_written p v tr)"

section \<open>Lemmas\<close>

lemma written_append [simp]: "written p (xs @ ys) = written p xs @ written p ys"
  by (induction p xs rule: written.induct) auto

lemma last_written_Nil [simp]: "last_written p v [] = v"
  by (simp add: last_written_def)

lemma last_written_append [simp]: "last_written p v (xs @ ys) = last_written p (last_written p v xs) ys"
  by (simp add: last_written_def last_append)

lemma last_written_Cons [simp]:
  "last_written p v (Outb q x # tr) = last_written p (if q = p then x else v) tr"
  "last_written p v (Inb q x # tr) = last_written p v tr"
  "last_written p v (Outw q y # tr) = last_written p v tr"
  "last_written p v (Inw q y # tr) = last_written p v tr"
  "last_written p v (Outl q z # tr) = last_written p v tr"
  "last_written p v (Inl q z # tr) = last_written p v tr"
  by (simp_all add: last_written_def)

lemma io_outb [simp]: "io (outb p v s) = io s @ [Outb p v]" "mem (outb p v s) = mem s"
  "errno (outb p v s) = errno s" "log (outb p v s) = log s"
  by (simp_all add: outb_def)

lemma inb_eq: "inb hw p s = (ucast (hw (io s) p), s\<lparr>io := io s @ [Inb p (ucast (hw (io s) p))]\<rparr>)"
  by (simp add: inb_def Let_def)

lemma inb_latch: "latches hw p v \<Longrightarrow> fst (inb hw p s) = last_written p v (io s)"
  by (simp add: inb_eq latches_def)

end
