(* ===== verification/Pci.thy ===== *)
theory Pci
  imports Ports
begin

text \<open>
  PCI configuration space (kernel/dev/pci.c, include/dev/pci.h) and the CMOS registers
  (include/asm/cmos.h): an index is written to one port, the datum is read at another.
\<close>

section \<open>Operations\<close>

definition PCI_ADDR :: u16 where "PCI_ADDR = 0xCF8"
definition PCI_DATA :: u16 where "PCI_DATA = 0xCFC"

definition pci_addr :: "byte \<Rightarrow> byte \<Rightarrow> byte \<Rightarrow> u32" where
  "pci_addr bus dev func =
     push_bit 16 (ucast bus) OR push_bit 11 (ucast dev) OR push_bit 8 (ucast func) OR 0x80000000"

definition pci_read :: "hw \<Rightarrow> u32 \<Rightarrow> byte \<Rightarrow> 'a machine_scheme \<Rightarrow> u32 \<times> 'a machine_scheme" where
  "pci_read hw addr off s = inl hw PCI_DATA (outl PCI_ADDR (addr OR ucast (off AND 0xFC)) s)"

definition pci_headertype :: "hw \<Rightarrow> u32 \<Rightarrow> 'a machine_scheme \<Rightarrow> byte \<times> 'a machine_scheme" where
  "pci_headertype hw addr s = (let (v, s) = pci_read hw addr 0xC s in (ucast (drop_bit 16 v AND 0xFF), s))"

definition pci_device_id :: "hw \<Rightarrow> u32 \<Rightarrow> 'a machine_scheme \<Rightarrow> u16 \<times> 'a machine_scheme" where
  "pci_device_id hw addr s = (let (v, s) = pci_read hw addr 0 s in (ucast (drop_bit 16 v), s))"

definition pci_vendor_id :: "hw \<Rightarrow> u32 \<Rightarrow> 'a machine_scheme \<Rightarrow> u16 \<times> 'a machine_scheme" where
  "pci_vendor_id hw addr s = (let (v, s) = pci_read hw addr 0 s in (ucast (v AND 0xFFFF), s))"

definition cmos_read :: "hw \<Rightarrow> byte \<Rightarrow> 'a machine_scheme \<Rightarrow> byte \<times> 'a machine_scheme" where
  "cmos_read hw reg s = inb hw 0x71 (outb 0x70 reg s)"

section \<open>Specification\<close>

text \<open>
  The fields of a configuration address as pci.h lists them, and a host bridge whose data port
  shows the register that the address port selects.
\<close>

definition cfg_bus :: "u32 \<Rightarrow> byte" where "cfg_bus a = ucast (drop_bit 16 a)"
definition cfg_dev :: "u32 \<Rightarrow> byte" where "cfg_dev a = ucast (take_bit 5 (drop_bit 11 a))"
definition cfg_func :: "u32 \<Rightarrow> byte" where "cfg_func a = ucast (take_bit 3 (drop_bit 8 a))"
definition cfg_reg :: "u32 \<Rightarrow> byte" where "cfg_reg a = ucast a"

definition host_bridge :: "hw \<Rightarrow> (byte \<Rightarrow> byte \<Rightarrow> byte \<Rightarrow> byte \<Rightarrow> u32) \<Rightarrow> bool" where
  "host_bridge hw cfg \<longleftrightarrow> (\<forall>tr a. bit a 31 \<longrightarrow>
     hw (tr @ [Outl PCI_ADDR a]) PCI_DATA = cfg (cfg_bus a) (cfg_dev a) (cfg_func a) (cfg_reg a))"

section \<open>Lemmas\<close>

lemma top_bit: "bit (0x80000000 :: u32) i \<longleftrightarrow> i = 31"
proof -
  have "(0x80000000 :: u32) = 2 ^ 31" by simp
  then have "bit (0x80000000 :: u32) i = bit (2 ^ 31 :: u32) i" by (rule arg_cong)
  then show ?thesis by (simp only: bit_exp_iff possible_bit_word) auto
qed

lemma byte_bits:
  fixes dev func off :: byte
  shows "dev < 32 \<Longrightarrow> bit dev i \<Longrightarrow> i < 5" "func < 8 \<Longrightarrow> bit func i \<Longrightarrow> i < 3" "bit (off AND 0xFC) i \<Longrightarrow> 2 \<le> i \<and> i < 8"
proof -
  show "i < 5" if "dev < 32" "bit dev i"
  proof -
    have "unat dev < 2 ^ 5" using that(1) by (simp add: word_less_nat_alt)
    then have "take_bit 5 (unat dev) = unat dev" by (rule take_bit_nat_eq_self)
    moreover have "bit (unat dev) i" using that(2) by (simp add: bit_unsigned_iff)
    ultimately show ?thesis by (metis bit_take_bit_iff)
  qed
  show "i < 3" if "func < 8" "bit func i"
  proof -
    have "unat func < 2 ^ 3" using that(1) by (simp add: word_less_nat_alt)
    then have "take_bit 3 (unat func) = unat func" by (rule take_bit_nat_eq_self)
    moreover have "bit (unat func) i" using that(2) by (simp add: bit_unsigned_iff)
    ultimately show ?thesis by (metis bit_take_bit_iff)
  qed
  show "2 \<le> i \<and> i < 8" if "bit (off AND 0xFC) i"
  proof -
    have "(0xFC :: byte) = push_bit 2 (mask 6)" by (simp add: mask_eq_exp_minus_1)
    then have "bit (push_bit 2 (mask 6) :: byte) i" using that by (metis bit_and_iff)
    then show ?thesis by (simp add: bit_push_bit_iff bit_mask_iff)
  qed
qed

lemma addr_bits: "bit (pci_addr bus dev func OR ucast (off AND 0xFC)) i \<longleftrightarrow>
  i < 32 \<and> (16 \<le> i \<and> bit bus (i - 16) \<or> 11 \<le> i \<and> bit dev (i - 11) \<or> 8 \<le> i \<and> bit func (i - 8) \<or> i = 31 \<or> bit (off AND 0xFC) i)"
  unfolding pci_addr_def
  by (simp only: bit_or_iff bit_push_bit_iff bit_unsigned_iff possible_bit_word top_bit) auto

lemma addr_fields:
  assumes "dev < 32" "func < 8"
  shows "cfg_bus (pci_addr bus dev func OR ucast (off AND 0xFC)) = bus"
    "cfg_dev (pci_addr bus dev func OR ucast (off AND 0xFC)) = dev"
    "cfg_func (pci_addr bus dev func OR ucast (off AND 0xFC)) = func"
    "cfg_reg (pci_addr bus dev func OR ucast (off AND 0xFC)) = off AND 0xFC"
proof -
  note b = byte_bits(1) [OF assms(1)] byte_bits(2) [OF assms(2)] byte_bits(3) [of off]
  note e = cfg_bus_def cfg_dev_def cfg_func_def cfg_reg_def bit_unsigned_iff bit_drop_bit_eq bit_take_bit_iff addr_bits possible_bit_word
  show "cfg_bus (pci_addr bus dev func OR ucast (off AND 0xFC)) = bus"
    by (rule bit_word_eqI) (use b(1) [of "_ + 5"] b(2) [of "_ + 8"] b(3) [of "_ + 16"] in \<open>auto simp only: e o_def\<close>, auto dest: b)
  show "cfg_dev (pci_addr bus dev func OR ucast (off AND 0xFC)) = dev"
    by (rule bit_word_eqI) (auto simp only: e o_def, auto dest: b)
  show "cfg_func (pci_addr bus dev func OR ucast (off AND 0xFC)) = func"
    by (rule bit_word_eqI) (auto simp only: e o_def, auto dest: b)
  show "cfg_reg (pci_addr bus dev func OR ucast (off AND 0xFC)) = off AND 0xFC"
    by (rule bit_word_eqI) (auto simp only: e o_def, auto dest: b)
qed

section \<open>Properties\<close>

text \<open>
  C39: With a host bridge that decodes the address as pci.h describes it, pci_read of an address
  built by pci_addr reads the aligned register of the named bus, device and function; the device
  and the vendor identifier are the two halves of register 0.
\<close>

theorem pci_read_config:
  assumes "host_bridge hw cfg" and "dev < 32" and "func < 8"
  shows "fst (pci_read hw (pci_addr bus dev func) off s) = cfg bus dev func (off AND 0xFC)
    \<and> ucast (fst (pci_device_id hw (pci_addr bus dev func) s)) = drop_bit 16 (cfg bus dev func 0)
    \<and> ucast (fst (pci_vendor_id hw (pci_addr bus dev func) s)) = cfg bus dev func 0 AND 0xFFFF"
proof -
  have r: "fst (pci_read hw (pci_addr bus dev func) off s) = cfg bus dev func (off AND 0xFC)" for off
  proof -
    let ?a = "pci_addr bus dev func OR ucast (off AND 0xFC)"
    have "bit ?a 31" by (simp only: addr_bits) simp
    then have "hw (io s @ [Outl PCI_ADDR ?a]) PCI_DATA = cfg (cfg_bus ?a) (cfg_dev ?a) (cfg_func ?a) (cfg_reg ?a)"
      using assms(1) by (simp add: host_bridge_def)
    then show ?thesis unfolding addr_fields [OF assms(2,3)] by (simp add: pci_read_def inl_def outl_def Let_def)
  qed
  have m: "(0xFFFF :: u32) = mask 16" by (simp add: mask_eq_exp_minus_1)
  have "ucast (ucast (drop_bit 16 v) :: u16) = drop_bit 16 v" for v :: u32
    by (rule bit_word_eqI) (auto simp: bit_simps dest: bit_imp_le_length)
  moreover have "ucast (ucast (v AND 0xFFFF) :: u16) = v AND 0xFFFF" for v :: u32
    unfolding m by (rule bit_word_eqI) (auto simp: bit_simps)
  ultimately show ?thesis using r [of off] r [of 0]
    by (auto simp: pci_device_id_def pci_vendor_id_def Let_def split_beta)
qed

text \<open>A bridge with one device on every slot.\<close>

definition sample_bridge :: hw where
  "sample_bridge tr port = (case rev tr of Outl _ a # _ \<Rightarrow> if cfg_reg a = 0 then 0x100E8086 else 0 | _ \<Rightarrow> 0)"

theorem pci_read_config_witness:
  "ucast (fst (pci_vendor_id sample_bridge (pci_addr 0 3 0) \<lparr>mem = \<lambda>_. 0, errno = 0, log = [], io = []\<rparr>)) = (0x8086 :: u32)"
proof -
  have "host_bridge sample_bridge (\<lambda>b d f r. if r = 0 then 0x100E8086 else 0)"
    by (simp add: host_bridge_def sample_bridge_def)
  from pci_read_config [OF this, of 3 0 0 0 "\<lparr>mem = \<lambda>_. 0, errno = 0, log = [], io = []\<rparr>"] show ?thesis by simp
qed

end
