(* ===== verification/Libc_String.thy ===== *)
theory Libc_String
  imports Prelude "HOL-Library.Sublist" "HOL-Library.List_Lexorder"
begin

text \<open>
  The string library: the inline i386 string instructions of include/string.h and the
  functions of libc/string.c, over the flat memory.

  A loop that runs until a NUL byte is a \<^theory_text>\<open>partial_function (option)\<close>: on a
  memory without a NUL it never ends, and the result is None. A loop bounded by a count or
  by two approaching pointers is a \<^theory_text>\<open>function\<close> with a measure.
  Functions that return their destination pointer return the new memory here, the pointer
  being the argument.
\<close>

section \<open>string.h: string instructions\<close>

text \<open>
  \<open>repne scasb\<close> with \<open>al = 0\<close>: \<open>ecx\<close> counts down until the byte at \<open>edi\<close>
  is NUL or \<open>ecx\<close> is 0; the result is \<open>ecx\<close>.
\<close>

function scasb :: "mem \<Rightarrow> addr \<Rightarrow> u32 \<Rightarrow> u32" where
  "scasb m edi ecx =
     (if ecx = 0 then 0
      else if m edi = 0 then ecx - 1
      else scasb m (edi + 1) (ecx - 1))"
  by pat_completeness auto
termination
  by (relation "measure (\<lambda>(m, edi, ecx). unat ecx)") (auto simp: unat_pred32 unat_gt_0)

definition strlen :: "mem \<Rightarrow> addr \<Rightarrow> u32" where
  "strlen m s = NOT (scasb m s 0xFFFFFFFF) - 1"

text \<open>\<open>rep movsb\<close> copies upwards one byte at a time; \<open>rep stosb\<close> fills upwards.\<close>

primrec movsb :: "nat \<Rightarrow> mem \<Rightarrow> addr \<Rightarrow> addr \<Rightarrow> mem" where
  "movsb 0 m edi esi = m"
| "movsb (Suc n) m edi esi = movsb n (m(edi := m esi)) (edi + 1) (esi + 1)"

definition memcpy :: "mem \<Rightarrow> addr \<Rightarrow> addr \<Rightarrow> u32 \<Rightarrow> mem" where
  "memcpy m dest src n = movsb (unat n) m dest src"

primrec stosb :: "nat \<Rightarrow> mem \<Rightarrow> addr \<Rightarrow> byte \<Rightarrow> mem" where
  "stosb 0 m edi c = m"
| "stosb (Suc n) m edi c = stosb n (m(edi := c)) (edi + 1) c"

definition memset :: "mem \<Rightarrow> addr \<Rightarrow> u32 \<Rightarrow> u32 \<Rightarrow> mem" where
  "memset m s c n = stosb (unat n) m s (ucast c)"

text \<open>
  \<open>repe cmpsb\<close> compares the byte at \<open>esi\<close> (of \<open>b\<close>) with the byte at \<open>edi\<close>
  (of \<open>a\<close>) until they differ. The pair is the flags: ZF, and the signed "less" that
  \<open>jl\<close> tests. With a count of 0 the flags stay what the code before left.
\<close>

type_synonym eflags = "bool \<times> bool"

primrec cmpsb :: "nat \<Rightarrow> eflags \<Rightarrow> mem \<Rightarrow> addr \<Rightarrow> addr \<Rightarrow> eflags" where
  "cmpsb 0 fl m edi esi = fl"
| "cmpsb (Suc n) fl m edi esi =
     (let fl' = (m esi = m edi, sint (m esi) < sint (m edi))
      in if fst fl' then cmpsb n fl' m (edi + 1) (esi + 1) else fl')"

definition memcmp :: "eflags \<Rightarrow> mem \<Rightarrow> addr \<Rightarrow> addr \<Rightarrow> u32 \<Rightarrow> u32" where
  "memcmp fl m a b n =
     (case cmpsb (unat n) fl m a b of (zf, lt) \<Rightarrow> if zf then 0 else if lt then 1 else - 1)"

section \<open>string.c\<close>

partial_function (option) str_end :: "mem \<Rightarrow> addr \<Rightarrow> addr option" where
  "str_end m e = (if m e = 0 then Some (e + 1) else str_end m (e + 1))"

function swap_ends :: "mem \<Rightarrow> addr \<Rightarrow> addr \<Rightarrow> mem" where
  "swap_ends m st en =
     (if st < en then swap_ends (m(st := m en, en := m st)) (st + 1) (en - 1) else m)"
  by pat_completeness auto
termination
proof (relation "measure (\<lambda>(m, st, en). unat en - unat st)", goal_cases)
  case (2 m st en)
  then have "unat st < unat en" by (simp add: word_less_nat_alt)
  moreover from this have "unat (en - 1) = unat en - 1" by (intro unat_pred32) auto
  moreover have "unat st \<le> unat (st + 1)"
    using \<open>unat st < unat en\<close> unat_lt32 [of en] by (subst unat_Suc32) auto
  ultimately show ?case by auto
qed simp

definition strrev :: "mem \<Rightarrow> addr \<Rightarrow> mem option" where
  "strrev m str = do { en \<leftarrow> str_end m str; Some (swap_ends m str (en - 2)) }"

partial_function (option) strcpy :: "mem \<Rightarrow> addr \<Rightarrow> addr \<Rightarrow> mem option" where
  "strcpy m s from =
     (let c = m from; m' = m(s := c)
      in if c = 0 then Some m' else strcpy m' (s + 1) (from + 1))"

partial_function (option) strcmp :: "mem \<Rightarrow> addr \<Rightarrow> addr \<Rightarrow> u32 option" where
  "strcmp m s1 s2 =
     (let ret = (ucast (m s1) - ucast (m s2) :: u32)
      in if ret = 0 \<and> m s1 \<noteq> 0 then strcmp m (s1 + 1) (s2 + 1) else Some ret)"

function strncmp :: "mem \<Rightarrow> addr \<Rightarrow> addr \<Rightarrow> u32 \<Rightarrow> u32" where
  "strncmp m s1 s2 num =
     (if num = 0 then 0
      else let ret = (ucast (m s1) - ucast (m s2) :: u32)
           in if ret = 0 \<and> m s1 \<noteq> 0 then strncmp m (s1 + 1) (s2 + 1) (num - 1) else ret)"
  by pat_completeness auto
termination
  by (relation "measure (\<lambda>(m, s1, s2, num). unat num)") (auto simp: unat_pred32 unat_gt_0)

partial_function (option) strstr_loop :: "mem \<Rightarrow> addr \<Rightarrow> addr \<Rightarrow> u32 \<Rightarrow> addr option" where
  "strstr_loop m haystack needle needle_len =
     (if m haystack = 0 then Some 0
      else if m haystack = m needle \<and> strncmp m haystack needle needle_len = 0
      then Some haystack
      else strstr_loop m (haystack + 1) needle needle_len)"

definition strstr :: "mem \<Rightarrow> addr \<Rightarrow> addr \<Rightarrow> addr option" where
  "strstr m haystack needle =
     (let needle_len = strlen m needle
      in if needle_len = 0 then Some haystack
         else strstr_loop m haystack needle needle_len)"

partial_function (option) strnstr_loop ::
  "mem \<Rightarrow> addr \<Rightarrow> addr \<Rightarrow> u32 \<Rightarrow> u32 \<Rightarrow> addr option" where
  "strnstr_loop m haystack needle len needle_len =
     (if m haystack \<noteq> 0 \<and> needle_len \<le> len
      then if m haystack = m needle \<and> strncmp m haystack needle needle_len = 0
           then Some haystack
           else strnstr_loop m (haystack + 1) needle (len - 1) needle_len
      else Some 0)"

definition strnstr :: "mem \<Rightarrow> addr \<Rightarrow> addr \<Rightarrow> u32 \<Rightarrow> addr option" where
  "strnstr m haystack needle len =
     (let needle_len = strlen m needle
      in if needle_len = 0 then Some haystack
         else strnstr_loop m haystack needle len needle_len)"

text \<open>The inner loop of \<open>strspn\<close> gives the pointer \<open>b\<close> it stops at.\<close>

partial_function (option) strspn_inner :: "mem \<Rightarrow> addr \<Rightarrow> addr \<Rightarrow> addr option" where
  "strspn_inner m a b =
     (if m b = 0 then Some b else if m a = m b then Some b else strspn_inner m a (b + 1))"

partial_function (option) strspn_loop :: "mem \<Rightarrow> addr \<Rightarrow> addr \<Rightarrow> u32 \<Rightarrow> u32 option" where
  "strspn_loop m a accept count =
     (if m a = 0 then Some count
      else do {
        b \<leftarrow> strspn_inner m a accept;
        if m b = 0 then Some count else strspn_loop m (a + 1) accept (count + 1)
      })"

definition strspn :: "mem \<Rightarrow> addr \<Rightarrow> addr \<Rightarrow> u32 option" where
  "strspn m str accept = strspn_loop m str accept 0"

partial_function (option) memmem_loop ::
  "eflags \<Rightarrow> mem \<Rightarrow> addr \<Rightarrow> u32 \<Rightarrow> addr \<Rightarrow> u32 \<Rightarrow> u32 \<Rightarrow> addr option" where
  "memmem_loop fl m h haystack_len n needle_len i =
     (if i \<le> haystack_len - needle_len
      then if m (h + i) = m n \<and> memcmp fl m (h + i) n needle_len = 0
           then Some (h + i)
           else memmem_loop fl m h haystack_len n needle_len (i + 1)
      else Some 0)"

definition memmem :: "eflags \<Rightarrow> mem \<Rightarrow> addr \<Rightarrow> u32 \<Rightarrow> addr \<Rightarrow> u32 \<Rightarrow> addr option" where
  "memmem fl m haystack haystack_len needle needle_len =
     (if needle_len = 0 then Some haystack
      else if haystack_len < needle_len then Some 0
      else memmem_loop fl m haystack haystack_len needle needle_len 0)"

section \<open>Specifications\<close>

text \<open>The difference of the first pair of bytes that differ, a string being followed by NUL.\<close>

fun byte_diff :: "byte list \<Rightarrow> byte list \<Rightarrow> int" where
  "byte_diff [] [] = 0"
| "byte_diff [] (b # t) = - uint b"
| "byte_diff (a # s) [] = uint a"
| "byte_diff (a # s) (b # t) = (if a = b then byte_diff s t else uint a - uint b)"

text \<open>The least index at which \<open>t\<close> occurs in \<open>s\<close>.\<close>

fun first_occ :: "byte list \<Rightarrow> byte list \<Rightarrow> nat option" where
  "first_occ t [] = (if t = [] then Some 0 else None)"
| "first_occ t (c # s) = (if prefix t (c # s) then Some 0 else map_option Suc (first_occ t s))"

declare scasb.simps [simp del] swap_ends.simps [simp del] strncmp.simps [simp del]

section \<open>strlen, memcpy, memset, memcmp\<close>

lemma scasb_cstr:
  "cstr m p s \<Longrightarrow> length s < unat ecx \<Longrightarrow> scasb m p ecx = ecx - of_nat (length s) - 1"
proof (induction s arbitrary: p ecx)
  case Nil
  then have "ecx \<noteq> 0" by auto
  with Nil show ?case by (simp add: scasb.simps [of m p ecx])
next
  case (Cons c s)
  then have nz: "ecx \<noteq> 0" by auto
  with Cons.prems have lt: "length s < unat (ecx - 1)" by (simp add: unat_pred32)
  from Cons.prems have "scasb m p ecx = scasb m (p + 1) (ecx - 1)"
    using nz by (simp add: scasb.simps [of m p ecx])
  also have "\<dots> = ecx - 1 - of_nat (length s) - 1"
    using Cons lt by simp
  finally show ?case by (simp add: algebra_simps)
qed

lemma strlen_cstr [simp]:
  assumes "cstr m p s" and "length s < 2 ^ 32 - 1"
  shows "strlen m p = of_nat (length s)"
proof -
  have "scasb m p 0xFFFFFFFF = 0xFFFFFFFF - of_nat (length s) - 1"
    using assms by (intro scasb_cstr) auto
  then show ?thesis by (simp add: strlen_def not_eq_complement)
qed

lemma movsb_wr:
  "edi = esi \<or> n \<le> unat (edi - esi) \<Longrightarrow> n < 2 ^ 32 \<Longrightarrow> movsb n m edi esi = wr m edi (rd m esi n)"
proof (induction n arbitrary: m edi esi)
  case (Suc n)
  have "edi \<notin> region (esi + 1) n"
  proof (cases "edi = esi")
    case True
    with Suc.prems show ?thesis
      by (simp add: region_def unsigned_minus_1_eq_mask mask_eq_exp_minus_1)
  next
    case False
    then have "unat (edi - esi - 1) = unat (edi - esi) - 1" by (intro unat_pred32) simp
    with False Suc.prems show ?thesis by (simp add: region_def algebra_simps)
  qed
  then have "rd (m(edi := m esi)) (esi + 1) n = rd m (esi + 1) n"
    using Suc.prems by (intro rd_upd_other) auto
  moreover have "movsb n (m(edi := m esi)) (edi + 1) (esi + 1)
      = wr (m(edi := m esi)) (edi + 1) (rd (m(edi := m esi)) (esi + 1) n)"
    using Suc.prems by (intro Suc.IH) auto
  ultimately show ?case by simp
qed simp

lemma memcpy_wr:
  "dest = src \<or> unat n \<le> unat (dest - src) \<Longrightarrow> memcpy m dest src n = wr m dest (rd m src (unat n))"
  using movsb_wr [of dest src "unat n" m] unat_lt32 [of n] by (simp add: memcpy_def)

text \<open>The same at a single address.\<close>

lemma memcpy_at:
  assumes "unat n \<le> unat (d - s)"
  shows "memcpy m d s n x = (if x \<in> region d (unat n) then m (x + (s - d)) else m x)"
proof -
  have eq: "memcpy m d s n = wr m d (rd m s (unat n))" using memcpy_wr [OF disjI2, OF assms] .
  have b: "unat n \<le> 2 ^ 32" using unat_lt32 [of n] by simp
  show ?thesis
  proof (cases "x \<in> region d (unat n)")
    case True
    then obtain j where j: "j < unat n" "x = d + of_nat j" by (auto elim: regionE)
    then show ?thesis using True eq b wr_nth [of j "rd m s (unat n)" m d] by (simp add: add.commute)
  qed (use eq b wr_frame [of x d "rd m s (unat n)" m] in simp)
qed

lemma stosb_wr: "stosb n m edi c = wr m edi (replicate n c)"
  by (induction n arbitrary: m edi) auto

lemma memset_wr: "memset m s c n = wr m s (replicate (unat n) (ucast c))"
  by (simp add: memset_def stosb_wr)

lemma cmpsb_zf: "0 < n \<Longrightarrow> fst (cmpsb n fl m a b) \<longleftrightarrow> rd m a n = rd m b n"
proof (induction n arbitrary: fl a b)
  case (Suc n)
  then show ?case by (cases n) (auto simp: Let_def)
qed simp

lemma memcmp_eq_0: "n \<noteq> 0 \<Longrightarrow> memcmp fl m a b n = 0 \<longleftrightarrow> rd m a (unat n) = rd m b (unat n)"
  using cmpsb_zf [of "unat n" fl m a b]
  by (auto simp: memcmp_def unat_gt_0 split: prod.splits)

lemma swap_ends_apply:
  "swap_ends m st en a = (if st \<le> a \<and> a \<le> en then m (st + en - a) else m a)"
proof (induction m st en rule: swap_ends.induct)
  case (1 m st en)
  show ?case
  proof (cases "st < en")
    case True
    then have "en \<noteq> 0" by auto
    then have le: "st + 1 \<le> a \<longleftrightarrow> st < a" "a \<le> en - 1 \<longleftrightarrow> a < en"
      using True unat_Suc32 [of st] unat_pred32 [of en] unat_lt32 [of en]
      by (auto simp: word_le_nat_alt word_less_nat_alt)
    have step: "swap_ends m st en a = swap_ends (m(st := m en, en := m st)) (st + 1) (en - 1) a"
      using True by (simp add: swap_ends.simps [of m st en])
    have ne: "st < a \<Longrightarrow> st + en - a \<noteq> en" "a < en \<Longrightarrow> st + en - a \<noteq> st"
      by (auto simp: algebra_simps)
    show ?thesis
      unfolding step 1 [OF True] le using True ne by (auto simp: le_less)
  next
    case False
    then have "st \<le> a \<Longrightarrow> a \<le> en \<Longrightarrow> a = st \<and> en = st" by auto
    with False show ?thesis by (auto simp: swap_ends.simps [of m st en])
  qed
qed

lemma str_end_cstr: "cstr m p s \<Longrightarrow> str_end m p = Some (p + of_nat (length s) + 1)"
proof (induction s arbitrary: p)
  case Nil
  then show ?case by (subst str_end.simps) simp
next
  case (Cons c s)
  then show ?case by (subst str_end.simps) (simp add: algebra_simps)
qed

lemma strrev_cstr:
  assumes s: "cstr m p s" and p: "0 < unat p" "unat p + length s < 2 ^ 32"
  obtains m' where "strrev m p = Some m'" "cstr m' p (rev s)"
    "\<And>a. a \<notin> region p (length s) \<Longrightarrow> m' a = m a"
proof
  let ?n = "length s"
  define en where "en = p + of_nat ?n - 1"
  let ?m' = "swap_ends m p en"
  show "strrev m p = Some ?m'"
    by (simp add: strrev_def str_end_cstr [OF s] en_def)
  have en: "unat en = unat p + ?n - 1"
  proof -
    have "unat (p + of_nat ?n) = unat p + ?n" using p by (intro unat_add_of_nat32) auto
    moreover have "p + of_nat ?n \<noteq> 0" using calculation p by (metis add_gr_0 unat_0 less_irrefl)
    ultimately show ?thesis using unat_pred32 [of "p + of_nat ?n"] by (simp add: en_def)
  qed
  have range: "p \<le> a \<and> a \<le> en \<longleftrightarrow> a \<in> region p ?n" for a
  proof -
    have "unat p \<le> unat a \<Longrightarrow> unat (a - p) = unat a - unat p" by (rule unat_minus32)
    moreover have "\<not> unat p \<le> unat a \<Longrightarrow> unat (a - p) = unat a + 2 ^ 32 - unat p"
      by (simp add: unat_sub_if' word_le_nat_alt)
    ultimately show ?thesis using p en by (cases "unat p \<le> unat a") (auto simp: word_le_nat_alt region_def)
  qed
  show fr: "\<And>a. a \<notin> region p ?n \<Longrightarrow> ?m' a = m a"
    by (simp add: swap_ends_apply range)
  have "rd ?m' p ?n ! i = rev s ! i" if i: "i < ?n" for i
  proof -
    have "p + en - (p + of_nat i) = p + of_nat (?n - Suc i)"
      using i by (simp add: en_def of_nat_diff)
    moreover have "p + of_nat i \<in> region p ?n" using i p by simp
    ultimately have "?m' (p + of_nat i) = m (p + of_nat (?n - Suc i))"
      by (simp add: swap_ends_apply range)
    then show ?thesis using i cstr_nth [OF s, of "?n - Suc i"] by (simp add: rev_nth)
  qed
  then have "rd ?m' p ?n = rev s" by (auto intro!: nth_equalityI)
  moreover have "?m' (p + of_nat ?n) = 0"
    using s fr [of "p + of_nat ?n"] p by (simp add: cstr_iff)
  ultimately show "cstr ?m' p (rev s)"
    using s by (simp add: cstr_iff)
qed
section \<open>strcpy, strcmp, strncmp\<close>

lemma strcpy_cstr:
  "cstr m src s \<Longrightarrow> dest = src \<or> length s < unat (dest - src) \<Longrightarrow>
   strcpy m dest src = Some (wr m dest (s @ [0]))"
proof (induction s arbitrary: m dest src)
  case Nil
  then show ?case by (subst strcpy.simps) (simp add: Let_def)
next
  case (Cons c s)
  have len: "length (c # s) < 2 ^ 32" by (rule cstr_length [OF Cons.prems(1)])
  have out: "dest \<notin> region (src + 1) (Suc (length s))"
  proof (cases "dest = src")
    case True
    with len show ?thesis
      by (simp add: region_def unsigned_minus_1_eq_mask mask_eq_exp_minus_1)
  next
    case False
    then have "unat (dest - src - 1) = unat (dest - src) - 1" by (intro unat_pred32) simp
    with False Cons.prems show ?thesis by (simp add: region_def algebra_simps)
  qed
  have "cstr (m(dest := c)) (src + 1) s"
    by (rule cstr_cong [of m]) (use Cons.prems out in auto)
  then have "strcpy (m(dest := c)) (dest + 1) (src + 1) = Some (wr (m(dest := c)) (dest + 1) (s @ [0]))"
    by (rule Cons.IH) (use Cons.prems in auto)
  with Cons.prems show ?case by (subst strcpy.simps) (simp add: Let_def)
qed

lemma strcmp_cstr:
  "cstr m p s \<Longrightarrow> cstr m q t \<Longrightarrow> \<exists>r. strcmp m p q = Some r \<and> sint r = byte_diff s t"
proof (induction s t arbitrary: p q rule: byte_diff.induct)
  case 1
  then show ?case by (subst strcmp.simps) (simp add: Let_def)
next
  case (2 b t)
  then show ?case using sint_byte_diff [of 0 b] by (subst strcmp.simps) (simp add: Let_def)
next
  case (3 a s)
  then show ?case using sint_byte_diff [of a 0] by (subst strcmp.simps) (auto simp: Let_def)
next
  case (4 a s b t)
  then show ?case by (subst strcmp.simps) (auto simp add: Let_def sint_byte_diff)
qed

lemma byte_diff_eq_0: "0 \<notin> set s \<Longrightarrow> 0 \<notin> set t \<Longrightarrow> byte_diff s t = 0 \<longleftrightarrow> s = t"
  by (induction s t rule: byte_diff.induct) (auto simp: uint_0_iff simp flip: word_uint_eq_iff)

lemma byte_diff_less: "0 \<notin> set s \<Longrightarrow> 0 \<notin> set t \<Longrightarrow> byte_diff s t < 0 \<longleftrightarrow> s < t"
  by (induction s t rule: byte_diff.induct)
    (auto simp: word_less_def uint_0_iff less_le not_less)

lemma strncmp_cstr_0:
  "cstr m p s \<Longrightarrow> cstr m q t \<Longrightarrow> strncmp m p q n = 0 \<longleftrightarrow> take (unat n) s = take (unat n) t"
proof (induction s t arbitrary: p q n rule: byte_diff.induct)
  case (4 a s b t)
  show ?case
  proof (cases "n = 0")
    case False
    then have "unat n = Suc (unat (n - 1))" using unat_pred32 [of n] by (simp add: unat_gt_0)
    with 4 False show ?thesis by (subst strncmp.simps) (auto simp: Let_def)
  qed (simp add: strncmp.simps [of m p q 0])
next
  case 1
  then show ?case by (subst strncmp.simps) (simp add: Let_def)
next
  case (2 b t)
  then show ?case by (subst strncmp.simps) (auto simp: Let_def unat_eq_0)
next
  case (3 a s)
  then show ?case by (subst strncmp.simps) (auto simp: Let_def unat_eq_0)
qed
section \<open>Searching\<close>

lemma first_occ_Some: "first_occ t s = Some k \<Longrightarrow> k \<le> length s \<and> prefix t (drop k s) \<and> (\<forall>j<k. \<not> prefix t (drop j s))"
proof (induction s arbitrary: k)
  case (Cons c s)
  show ?case
  proof (cases "prefix t (c # s)")
    case False
    with Cons.prems obtain j where j: "first_occ t s = Some j" "k = Suc j" by auto
    from Cons.IH [OF j(1)] False j(2) show ?thesis
      by (auto simp: less_Suc_eq_0_disj)
  qed (use Cons.prems in auto)
qed (auto split: if_splits)

lemma first_occ_None: "first_occ t s = None \<longleftrightarrow> \<not> sublist t s"
  by (induction s) (auto simp: sublist_Cons_right)

lemma prefix_iff_take: "prefix t s \<longleftrightarrow> take (length t) s = t"
  by (metis append_eq_conv_conj prefix_def prefixE take_is_prefix)

lemma strstr_loop_cstr:
  "cstr m p s \<Longrightarrow> cstr m q t \<Longrightarrow> t \<noteq> [] \<Longrightarrow> length t < 2 ^ 32 \<Longrightarrow>
   strstr_loop m p q (of_nat (length t)) =
     Some (case first_occ t s of None \<Rightarrow> 0 | Some k \<Rightarrow> p + of_nat k)"
proof (induction s arbitrary: p)
  case Nil
  then show ?case by (subst strstr_loop.simps) simp
next
  case (Cons c s)
  from Cons.prems obtain d u where t: "t = d # u" "m q = d" by (cases t) auto
  have cmp: "strncmp m p q (of_nat (length t)) = 0 \<longleftrightarrow> prefix t (c # s)"
    using strncmp_cstr_0 [OF Cons.prems(1,2), of "of_nat (length t)"] Cons.prems(4)
    by (simp add: unat_of_nat32 prefix_iff_take)
  have hd: "m p = c" "c \<noteq> 0" "cstr m (p + 1) s" using Cons.prems(1) by auto
  show ?case
  proof (cases "prefix t (c # s)")
    case True
    with hd t cmp show ?thesis by (subst strstr_loop.simps) auto
  next
    case False
    have "strstr_loop m p q (of_nat (length t)) = strstr_loop m (p + 1) q (of_nat (length t))"
      using hd cmp False by (subst strstr_loop.simps) simp
    with Cons.IH [OF hd(3)] Cons.prems False show ?thesis
      by (auto split: option.splits simp: algebra_simps)
  qed
qed

lemma first_occ_Nil [simp]: "first_occ [] s = Some 0"
  by (cases s) auto

lemma strstr_cstr:
  assumes "cstr m p s" and t: "cstr m q t" and len: "length t < 2 ^ 32 - 1"
  shows "strstr m p q = Some (case first_occ t s of None \<Rightarrow> 0 | Some k \<Rightarrow> p + of_nat k)"
  using assms strlen_cstr [OF t len] of_nat_eq_0_32 [of "length t"] strstr_loop_cstr [of m p s q t]
  by (cases "t = []") (auto simp: strstr_def Let_def)

lemma first_occ_short: "length s < length t \<Longrightarrow> first_occ t s = None"
  by (simp add: first_occ_None) (meson leD sublist_length_le)

lemma strnstr_loop_cstr:
  "cstr m p s \<Longrightarrow> cstr m q t \<Longrightarrow> t \<noteq> [] \<Longrightarrow> length t < 2 ^ 32 \<Longrightarrow>
   strnstr_loop m p q len (of_nat (length t)) =
     Some (case first_occ t (take (unat len) s) of None \<Rightarrow> 0 | Some k \<Rightarrow> p + of_nat k)"
proof (induction s arbitrary: p len)
  case Nil
  then show ?case by (subst strnstr_loop.simps) simp
next
  case (Cons c s)
  let ?n = "of_nat (length t) :: u32"
  have hd: "m p = c" "c \<noteq> 0" "cstr m (p + 1) s" using Cons.prems(1) by auto
  show ?case
  proof (cases "?n \<le> len")
    case True
    then have lt: "length t \<le> unat len" using Cons.prems(4) by (simp add: word_le_nat_alt unat_of_nat32)
    with Cons.prems(3) have "len \<noteq> 0" by auto
    then have u: "unat len = Suc (unat (len - 1))" by (simp add: unat_pred32 unat_gt_0)
    from Cons.prems obtain d u where t: "t = d # u" "m q = d" by (cases t) auto
    have cmp: "strncmp m p q ?n = 0 \<longleftrightarrow> prefix t (take (unat len) (c # s))"
      using strncmp_cstr_0 [OF Cons.prems(1,2), of ?n] Cons.prems(4) lt
      by (simp add: unat_of_nat32 prefix_iff_take min_def)
    show ?thesis
    proof (cases "prefix t (take (unat len) (c # s))")
      case P: True
      with hd t cmp True u show ?thesis by (subst strnstr_loop.simps) auto
    next
      case False
      have "strnstr_loop m p q len ?n = strnstr_loop m (p + 1) q (len - 1) ?n"
        using hd cmp False True by (subst strnstr_loop.simps) simp
      with Cons.IH [OF hd(3), of "len - 1"] Cons.prems False u show ?thesis
        by (auto split: option.splits simp: algebra_simps)
    qed
  next
    case False
    then have "unat len < length t" using Cons.prems(4) by (simp add: word_le_nat_alt unat_of_nat32)
    then have "first_occ t (take (unat len) (c # s)) = None" by (intro first_occ_short) simp
    with False show ?thesis by (subst strnstr_loop.simps) simp
  qed
qed

lemma strnstr_cstr:
  assumes "cstr m p s" and t: "cstr m q t" and len: "length t < 2 ^ 32 - 1"
  shows "strnstr m p q n = Some (case first_occ t (take (unat n) s) of None \<Rightarrow> 0 | Some k \<Rightarrow> p + of_nat k)"
  using assms strlen_cstr [OF t len] of_nat_eq_0_32 [of "length t"] strnstr_loop_cstr [of m p s q t]
  by (cases "t = []") (auto simp: strnstr_def Let_def)

lemma strspn_inner_cstr:
  "cstr m b acc \<Longrightarrow> \<exists>b'. strspn_inner m a b = Some b' \<and> (m b' = 0 \<longleftrightarrow> m a \<notin> set acc)"
proof (induction acc arbitrary: b)
  case Nil
  then show ?case by (subst strspn_inner.simps) simp
next
  case (Cons c acc)
  then show ?case by (subst strspn_inner.simps) auto
qed

lemma strspn_loop_cstr:
  "cstr m a s \<Longrightarrow> cstr m acc ds \<Longrightarrow>
   strspn_loop m a acc k = Some (k + of_nat (length (takeWhile (\<lambda>c. c \<in> set ds) s)))"
proof (induction s arbitrary: a k)
  case Nil
  then show ?case by (subst strspn_loop.simps) simp
next
  case (Cons c s)
  obtain b where b: "strspn_inner m a acc = Some b" "m b = 0 \<longleftrightarrow> m a \<notin> set ds"
    using strspn_inner_cstr [OF Cons.prems(2)] by blast
  with Cons show ?case by (subst strspn_loop.simps) (auto simp: algebra_simps)
qed

lemma strspn_cstr:
  "cstr m p s \<Longrightarrow> cstr m q ds \<Longrightarrow>
   strspn m p q = Some (of_nat (length (takeWhile (\<lambda>c. c \<in> set ds) s)))"
  by (simp add: strspn_def strspn_loop_cstr)

lemma memmem_loop_rd:
  assumes n: "nl \<noteq> 0" "nl \<le> hl"
  shows "unat i \<le> Suc (unat (hl - nl)) \<Longrightarrow>
    memmem_loop fl m h hl q nl i =
      Some (case first_occ (rd m q (unat nl)) (drop (unat i) (rd m h (unat hl))) of
        None \<Rightarrow> 0 | Some k \<Rightarrow> h + of_nat (unat i + k))"
proof (induction "Suc (unat (hl - nl)) - unat i" arbitrary: i rule: less_induct)
  case less
  let ?t = "rd m q (unat nl)" and ?s = "rd m h (unat hl)"
  have d: "unat (hl - nl) = unat hl - unat nl" and le: "unat nl \<le> unat hl" and pos: "0 < unat nl"
    using n by (auto simp: unat_minus32 word_le_nat_alt unat_gt_0)
  show ?case
  proof (cases "i \<le> hl - nl")
    case True
    then have i: "unat i \<le> unat hl - unat nl" by (simp add: word_le_nat_alt d)
    then have dr: "drop (unat i) ?s = rd m (h + i) (unat hl - unat i)" by (simp add: rd_drop)
    have pre: "prefix ?t (drop (unat i) ?s) \<longleftrightarrow> rd m (h + i) (unat nl) = ?t"
      using i le by (simp add: dr prefix_iff_take rd_take)
    have cmp: "memcmp fl m (h + i) q nl = 0 \<longleftrightarrow> rd m (h + i) (unat nl) = ?t"
      by (rule memcmp_eq_0) (rule n)
    have hd: "rd m (h + i) (unat nl) = ?t \<Longrightarrow> m (h + i) = m q"
      using pos by (cases "unat nl") auto
    have ne: "drop (unat i) ?s = m (h + i) # drop (Suc (unat i)) ?s"
      using i pos le by (subst Cons_nth_drop_Suc [symmetric]) auto
    show ?thesis
    proof (cases "rd m (h + i) (unat nl) = ?t")
      case P: True
      then have "first_occ ?t (drop (unat i) ?s) = Some 0" using pre ne by auto
      with P True cmp hd show ?thesis by (subst memmem_loop.simps) simp
    next
      case False
      have suc: "unat (i + 1) = Suc (unat i)"
        using i pos le unat_lt32 [of hl] by (intro unat_Suc32) linarith
      have "memmem_loop fl m h hl q nl i = memmem_loop fl m h hl q nl (i + 1)"
        using True False cmp by (subst memmem_loop.simps) simp
      also have "\<dots> = Some (case first_occ ?t (drop (Suc (unat i)) ?s) of
          None \<Rightarrow> 0 | Some k \<Rightarrow> h + of_nat (Suc (unat i) + k))"
        using i d suc by (subst less) (auto split: option.splits)
      also have "\<dots> = Some (case first_occ ?t (drop (unat i) ?s) of
          None \<Rightarrow> 0 | Some k \<Rightarrow> h + of_nat (unat i + k))"
        using False pre by (subst ne, subst first_occ.simps) (auto simp flip: ne split: option.splits)
      finally show ?thesis .
    qed
  next
    case False
    then have "unat hl - unat nl < unat i" by (simp add: word_le_nat_alt d)
    then have "first_occ ?t (drop (unat i) ?s) = None" using le pos by (intro first_occ_short) simp
    with False show ?thesis by (subst memmem_loop.simps) simp
  qed
qed

lemma memmem_rd:
  "memmem fl m h hl q nl = Some (case first_occ (rd m q (unat nl)) (rd m h (unat hl)) of
     None \<Rightarrow> 0 | Some k \<Rightarrow> h + of_nat k)"
proof -
  consider "nl = 0" | "nl \<noteq> 0" "hl < nl" | "nl \<noteq> 0" "nl \<le> hl" by force
  then show ?thesis
  proof cases
    case 2
    then have "first_occ (rd m q (unat nl)) (rd m h (unat hl)) = None"
      by (intro first_occ_short) (simp add: word_less_nat_alt)
    with 2 show ?thesis by (simp add: memmem_def)
  next
    case 3
    with memmem_loop_rd [OF 3, of 0 fl m h q] show ?thesis
      by (auto simp: memmem_def unsigned_0 split: option.splits)
  qed (simp add: memmem_def)
qed


section \<open>Properties\<close>

text \<open>
  C27: strcmp ends on strings and orders them: the result is zero on equal strings, and it is
  negative when the first is lexicographically smaller, with bytes compared unsigned.
\<close>

theorem strcmp_order:
  assumes "cstr m p s" and "cstr m q t"
  shows "\<exists>r. strcmp m p q = Some r \<and> (r = 0 \<longleftrightarrow> s = t) \<and> (sint r < 0 \<longleftrightarrow> s < t)"
proof -
  obtain r where r: "strcmp m p q = Some r" "sint r = byte_diff s t"
    using strcmp_cstr [OF assms] by blast
  have "r = 0 \<longleftrightarrow> sint r = 0" by (simp add: signed_eq_0_iff)
  moreover have "0 \<notin> set s" "0 \<notin> set t" using cstr_nz assms by blast+
  ultimately show ?thesis using r byte_diff_eq_0 [of s t] byte_diff_less [of s t] by simp
qed

theorem strcmp_order_witness:
  "\<exists>r. strcmp (wr (wr (\<lambda>_. 0) 100 [97, 0xC3]) 200 [97, 98, 99]) 100 200 = Some r \<and> r \<noteq> 0 \<and> \<not> sint r < 0"
  using strcmp_order [of "wr (wr (\<lambda>_. 0) 100 [97, 0xC3]) 200 [97, 98, 99]" 100 "[97, 0xC3]" 200 "[97, 98, 99]"]
  by simp

text \<open>
  C28: strstr ends, gives the first place at which the needle occurs, and NULL when it does not.
\<close>

theorem strstr_first:
  assumes "cstr m p s" and "cstr m q t" and "length t < 2 ^ 32 - 1"
  shows "\<exists>r. strstr m p q = Some r \<and> (if sublist t s
    then \<exists>k \<le> length s. r = p + of_nat k \<and> prefix t (drop k s) \<and> (\<forall>j < k. \<not> prefix t (drop j s))
    else r = 0)"
proof (cases "first_occ t s")
  case None
  then show ?thesis using strstr_cstr [OF assms] first_occ_None [of t s] by simp
next
  case (Some k)
  then have "sublist t s" using first_occ_None [of t s] by force
  then show ?thesis using strstr_cstr [OF assms] first_occ_Some [OF Some] Some by auto
qed

theorem strstr_first_witness:
  "\<exists>r k. strstr (wr (wr (\<lambda>_. 0) 100 [97, 97, 98]) 200 [97, 98]) 100 200 = Some r \<and>
     r = 100 + of_nat k \<and> prefix [97, 98] (drop k [97, 97, 98 :: byte])"
proof -
  have "sublist [97, 98] [97, 97, 98 :: byte]" by (simp add: sublist_Cons_right)
  moreover have "cstr (wr (wr (\<lambda>_. 0) 100 [97, 97, 98]) 200 [97, 98]) 100 [97, 97, 98]"
    "cstr (wr (wr (\<lambda>_. 0) 100 [97, 97, 98]) 200 [97, 98]) 200 [97, 98]" by simp_all
  moreover have "length [97, 98 :: byte] < 2 ^ 32 - 1" by simp
  ultimately show ?thesis using strstr_first by (metis (no_types, lifting))
qed

text \<open>
  C29: memmem always ends and gives the first place of the needle in the haystack, a needle
  longer than the haystack and an empty one included.
\<close>

theorem memmem_first:
  "memmem fl m h hl q nl = Some (case first_occ (rd m q (unat nl)) (rd m h (unat hl)) of
     None \<Rightarrow> 0 | Some k \<Rightarrow> h + of_nat k)"
  by (rule memmem_rd)

text \<open>
  strcpy copies the string with its NUL when the destination does not start inside the
  source, and it writes nothing else.
\<close>

lemma strcpy_copies:
  assumes "cstr m src s" and "dest = src \<or> length s < unat (dest - src)"
  shows "\<exists>m'. strcpy m dest src = Some m' \<and> cstr m' dest s
    \<and> (\<forall>a. a \<notin> region dest (length s + 1) \<longrightarrow> m' a = m a)"
  using strcpy_cstr [OF assms] cstr_nz [OF assms(1)] cstr_length [OF assms(1)] cstr_wr [of s m dest]
    wr_frame [of _ dest "s @ [0]" m] by auto

text \<open>
  memcpy copies n bytes when the destination does not start inside the source, and it
  writes nothing else.
\<close>

lemma memcpy_copies:
  assumes "dest = src \<or> unat n \<le> unat (dest - src)"
  shows "rd (memcpy m dest src n) dest (unat n) = rd m src (unat n) \<and>
    (a \<in> region dest (unat n) \<or> memcpy m dest src n a = m a)"
  using memcpy_wr [OF assms, of m] rd_wr [of "rd m src (unat n)" m dest] wr_frame [of a dest "rd m src (unat n)" m]
    unat_lt32 [of n] by auto

end
