(* ===== verification/Libc_Conv.thy ===== *)
theory Libc_Conv
  imports Libc_String
begin

text \<open>
  The conversions of libc/conv.c between numbers and strings in memory, and the case
  conversions of characters. Signed arithmetic wraps, as the compiled code does.
\<close>

section \<open>conv.c\<close>

function atoi_loop :: "mem \<Rightarrow> addr \<Rightarrow> addr \<Rightarrow> u32 \<Rightarrow> u32" where
  "atoi_loop m x s res =
     (if x < s then atoi_loop m (x + 1) s (res * 10 + promote (m x) - 0x30) else res)"
  by pat_completeness auto
termination
proof (relation "measure (\<lambda>(m, x, s, res). unat s - unat x)", goal_cases)
  case (2 m x s res)
  then have "unat x < unat s" by (simp add: word_less_nat_alt)
  moreover from this have "unat (x + 1) = unat x + 1"
    using unat_lt32 [of s] by (simp add: unat_Suc32)
  ultimately show ?case by simp
qed simp

definition atoi :: "mem \<Rightarrow> addr \<Rightarrow> u32" where
  "atoi m nptr =
     (let sign = (if m nptr = chr CHR ''-'' then - 1 else 1);
          x = (if m nptr = chr CHR ''-'' \<or> m nptr = chr CHR ''+'' then nptr + 1 else nptr);
          s = x + strlen m x
      in sign * atoi_loop m x s 0)"

text \<open>The digit loops: the memory and the pointer behind the last digit.\<close>

lemma sint_c_div_10: "sint (c_div n 10) = sgn (sint n) * (\<bar>sint n\<bar> div 10)"
proof -
  have "- (2 ^ 31) \<le> sint n" "sint n < 2 ^ 31"
    using sint_ge [of n] sint_lt [of n] by simp_all
  then have "- (2 ^ 31) \<le> sgn (sint n) * (\<bar>sint n\<bar> div 10)" "sgn (sint n) * (\<bar>sint n\<bar> div 10) < 2 ^ 31"
    by (auto simp: sgn_if)
  moreover have "c_div n 10 = word_of_int (sgn (sint n) * (\<bar>sint n\<bar> div 10))"
    by (simp add: c_div_def signed_divide_int_def)
  ultimately show ?thesis by (simp only: sint32_of_int)
qed

lemma c_div_10_decr: "c_div n 10 \<noteq> 0 \<Longrightarrow> nat \<bar>sint (c_div n 10)\<bar> < nat \<bar>sint n\<bar>"
  using sint_c_div_10 [of n] signed_eq_0_iff [of "c_div n 10"] by (auto simp: sgn_if split: if_splits)

lemma unat_div_10: "unat (n div 10 :: u32) = unat n div 10"
  by (simp add: unat_div)

lemma unat_drop_4: "unat (drop_bit 4 n :: u32) = unat n div 16"
  by (subst unat_drop_bit_eq) (simp add: drop_bit_eq_div)

lemma sint_pred: "0 \<le> sint len \<Longrightarrow> sint (len - 1 :: u32) = sint len - 1"
proof -
  assume "0 \<le> sint len"
  moreover have "sint len < 2 ^ 31" using sint_lt [of len] by simp
  moreover have "len - 1 = word_of_int (sint len - 1)" by simp
  ultimately show ?thesis by (simp only: sint32_of_int) 
qed

function itoa_loop :: "mem \<Rightarrow> u32 \<Rightarrow> addr \<Rightarrow> mem \<times> addr" where
  "itoa_loop m n x =
     (let m = m(x := ucast (c_mod n 10 + 0x30)); x = x + 1; n = c_div n 10
      in if n \<noteq> 0 then itoa_loop m n x else (m, x))"
  by pat_completeness auto
termination
  by (relation "measure (\<lambda>(m, n, x). nat \<bar>sint n\<bar>)") (auto dest: c_div_10_decr)

definition itoa :: "mem \<Rightarrow> u32 \<Rightarrow> addr \<Rightarrow> mem option" where
  "itoa m n s =
     (let neg = sint n < 0;
          n = (if neg then - n else n);
          (m, x) = itoa_loop m n s;
          (m, x) = (if neg then (m(x := chr CHR ''-''), x + 1) else (m, x));
          m = m(x := 0)
      in strrev m s)"

function utoa_loop :: "mem \<Rightarrow> u32 \<Rightarrow> addr \<Rightarrow> mem \<times> addr" where
  "utoa_loop m n x =
     (let m = m(x := ucast (n mod 10 + 0x30)); x = x + 1; n = n div 10
      in if n \<noteq> 0 then utoa_loop m n x else (m, x))"
  by pat_completeness auto
termination
  by (relation "measure (\<lambda>(m, n, x). unat n)") (auto simp: unat_div_10 simp flip: unat_eq_0)

definition utoa :: "mem \<Rightarrow> u32 \<Rightarrow> addr \<Rightarrow> mem option" where
  "utoa m n s = (let (m, x) = utoa_loop m n s; m = m(x := 0) in strrev m s)"

function num_hex_loop :: "u32 \<Rightarrow> u32 \<Rightarrow> u32" where
  "num_hex_loop n ret = (if n \<noteq> 0 then num_hex_loop (drop_bit 4 n) (ret + 1) else ret)"
  by pat_completeness auto
termination
  by (relation "measure (\<lambda>(n, ret). unat n)")
    (auto simp: unat_drop_4 unat_gt_0 simp del: drop_bit_numeral_bit0 drop_bit_eq_div)

definition num_hex_digits :: "u32 \<Rightarrow> u32" where
  "num_hex_digits n = (if n = 0 then 1 else num_hex_loop n 0)"

definition hex_lookup :: "byte list" where
  "hex_lookup = bytes ''0123456789ABCDEF''"

function itoh_loop :: "mem \<Rightarrow> u32 \<Rightarrow> addr \<Rightarrow> u32 \<Rightarrow> mem" where
  "itoh_loop m n s len =
     (if 0 \<le> sint len
      then itoh_loop (m(s + len := hex_lookup ! unat (n AND 0xF))) (drop_bit 4 n) s (len - 1)
      else m)"
  by pat_completeness auto
termination
  by (relation "measure (\<lambda>(m, n, s, len). nat (sint len + 1))") (auto simp: sint_pred)

definition itoh :: "mem \<Rightarrow> u32 \<Rightarrow> addr \<Rightarrow> mem" where
  "itoh m n s =
     (let len = num_hex_digits n;
          (m, s) = (if len AND 1 \<noteq> 0 then (m(s := chr CHR ''0''), s + 1) else (m, s));
          m = m(s + len := 0)
      in itoh_loop m n s (len - 1))"

definition toupper :: "u32 \<Rightarrow> u32" where
  "toupper c = (if 0x61 \<le> sint c \<and> sint c \<le> 0x7A then c + 0x41 - 0x61 else c)"

definition tolower :: "u32 \<Rightarrow> u32" where
  "tolower c = (if 0x41 \<le> sint c \<and> sint c \<le> 0x5A then c + 0x61 - 0x41 else c)"

section \<open>Specifications\<close>

text \<open>
  Decimal digits, the least significant first, and the usual notation of a number.
\<close>

function dec_rev :: "nat \<Rightarrow> byte list" where
  "dec_rev n = (of_nat (n mod 10) + 48) # (if n div 10 = 0 then [] else dec_rev (n div 10))"
  by pat_completeness auto
termination by (relation "measure id") auto

definition dec :: "nat \<Rightarrow> byte list" where
  "dec n = rev (dec_rev n)"

definition dec_int :: "int \<Rightarrow> byte list" where
  "dec_int k = (if k < 0 then chr CHR ''-'' # dec (nat (- k)) else dec (nat k))"

text \<open>
  Hexadecimal: the last \<open>k\<close> digits, the number of digits, the notation with an even number
  of digits that itoh writes, and the value of a digit.
\<close>

fun hexds :: "nat \<Rightarrow> nat \<Rightarrow> byte list" where
  "hexds 0 n = []"
| "hexds (Suc k) n = hexds k (n div 16) @ [hex_lookup ! (n mod 16)]"

fun hex_len :: "nat \<Rightarrow> nat" where
  "hex_len n = (if n < 16 then 1 else Suc (hex_len (n div 16)))"

definition hex_str :: "nat \<Rightarrow> byte list" where
  "hex_str n = (if odd (hex_len n) then [chr CHR ''0''] else []) @ hexds (hex_len n) n"

definition unhex :: "byte \<Rightarrow> nat" where
  "unhex c = (if unat c < 65 then unat c - 48 else unat c - 55)"

section \<open>Lemmas\<close>

declare atoi_loop.simps [simp del] itoa_loop.simps [simp del] utoa_loop.simps [simp del]
  num_hex_loop.simps [simp del] itoh_loop.simps [simp del] dec_rev.simps [simp del]
  hex_len.simps [simp del]

lemma dec_rev_ne [simp]: "dec_rev n \<noteq> []"
  by (subst dec_rev.simps) simp

lemma digit_byte: "d < 10 \<Longrightarrow> unat (of_nat d + 48 :: byte) = d + 48"
  by (simp add: unat_word_ariths unat_of_nat take_bit_eq_mod)

lemma dec_rev_digits: "c \<in> set (dec_rev n) \<Longrightarrow> 48 \<le> unat c \<and> unat c \<le> 57"
proof (induction n rule: dec_rev.induct)
  case (1 n)
  then consider "c = of_nat (n mod 10) + 48" | "n div 10 \<noteq> 0" "c \<in> set (dec_rev (n div 10))"
    by (subst (asm) dec_rev.simps) (auto split: if_splits)
  then show ?case using 1 digit_byte [of "n mod 10"] by cases auto
qed

lemma length_dec_rev: "n < 10 ^ k \<Longrightarrow> 0 < k \<Longrightarrow> length (dec_rev n) \<le> k"
proof (induction n arbitrary: k rule: dec_rev.induct)
  case (1 n)
  show ?case
  proof (cases "n div 10 = 0")
    case False
    with 1(2) obtain j where k: "k = Suc j" "0 < j"
      by (cases k; cases "k - 1") auto
    with 1 False have "length (dec_rev (n div 10)) \<le> j" by (simp add: less_mult_imp_div_less)
    with k False show ?thesis by (subst dec_rev.simps) simp
  qed (use 1 in \<open>subst dec_rev.simps, simp\<close>)
qed

lemma length_dec_rev_32: "length (dec_rev n) \<le> 10" if "n < 2 ^ 32"
  using that by (intro length_dec_rev) auto

lemma ucast_byte_of_nat: "ucast (of_nat k :: u32) = (of_nat k :: byte)"
proof -
  have "(256 :: nat) dvd 4294967296" by simp
  then show ?thesis
    by (simp add: word_unat_eq_iff unsigned_ucast_eq unat_of_nat take_bit_eq_mod mod_mod_cancel)
qed

lemma digit_store: "ucast (n mod 10 + 0x30 :: u32) = (of_nat (unat n mod 10) + 48 :: byte)"
proof -
  have "n mod 10 + 0x30 = of_nat (unat (n mod 10) + 48)" by simp
  then have "ucast (n mod 10 + 0x30) = (of_nat (unat (n mod 10) + 48) :: byte)"
    by (simp only: ucast_byte_of_nat)
  then show ?thesis by (simp add: unat_mod)
qed

lemma utoa_loop_wr:
  "utoa_loop m n x = (wr m x (dec_rev (unat n)), x + of_nat (length (dec_rev (unat n))))"
proof (induction m n x rule: utoa_loop.induct)
  case (1 m n x)
  show ?case
  proof (cases "n div 10 = 0")
    case True
    then have "unat n div 10 = 0" by (metis unat_0 unat_div_10)
    with True show ?thesis by (subst utoa_loop.simps, subst (1 2) dec_rev.simps) (simp add: Let_def digit_store)
  next
    case False
    then have "unat n div 10 \<noteq> 0" by (metis unat_eq_0 unat_div_10)
    with False 1 [OF refl refl refl False] show ?thesis
      by (subst utoa_loop.simps, subst (1 2) dec_rev.simps)
        (simp add: Let_def digit_store unat_div_10 add.assoc del: fun_upd_apply)
  qed
qed

lemma wr_append: "wr m p (xs @ ys) = wr (wr m p xs) (p + of_nat (length xs)) ys"
  by (induction xs arbitrary: m p) (auto simp: add.assoc)

lemma strrev_wr:
  assumes "0 \<notin> set xs" and "0 < unat s" and "unat s + length xs < 2 ^ 32"
  shows "\<exists>m'. strrev (wr m s (xs @ [0])) s = Some m' \<and> cstr m' s (rev xs)
    \<and> (\<forall>a. a \<notin> region s (length xs + 1) \<longrightarrow> m' a = m a)"
proof -
  have "cstr (wr m s (xs @ [0])) s xs" using assms by (intro cstr_wr) auto
  then obtain m' where m': "strrev (wr m s (xs @ [0])) s = Some m'" "cstr m' s (rev xs)"
    "\<And>a. a \<notin> region s (length xs) \<Longrightarrow> m' a = wr m s (xs @ [0]) a"
    using strrev_cstr [OF _ assms(2,3)] by metis
  have "m' a = m a" if "a \<notin> region s (length xs + 1)" for a
  proof -
    have "a \<notin> region s (length xs)" using that region_mono [of "length xs" "length xs + 1" s] by auto
    with that m'(3) wr_frame [of a s "xs @ [0]" m] assms(3) show ?thesis by simp
  qed
  with m' show ?thesis by blast
qed

lemma utoa_dec:
  assumes "0 < unat s" and "unat s + 10 < 2 ^ 32"
  shows "\<exists>m'. utoa m n s = Some m' \<and> cstr m' s (dec (unat n))
    \<and> (\<forall>a. a \<notin> region s (length (dec (unat n)) + 1) \<longrightarrow> m' a = m a)"
proof -
  let ?ds = "dec_rev (unat n)"
  have "0 \<notin> set ?ds" using dec_rev_digits [of 0 "unat n"] by auto
  moreover have "unat s + length ?ds < 2 ^ 32" using length_dec_rev_32 [OF unat_lt32] assms by (meson add_le_mono le_refl le_less_trans)
  moreover have "utoa m n s = strrev (wr m s (?ds @ [0])) s"
    by (simp add: utoa_def utoa_loop_wr wr_append)
  ultimately show ?thesis using strrev_wr [of ?ds s m] assms by (simp add: dec_def)
qed

lemma uint_nonneg: "0 \<le> sint n \<Longrightarrow> uint n = sint n" for n :: u32
proof -
  assume "0 \<le> sint n"
  moreover have "sint n < 2 ^ 31" using sint_lt [of n] by simp
  moreover have "uint (word_of_int (sint n) :: u32) = sint n mod 2 ^ 32" by (simp only: uint_word_of_int) simp
  ultimately show ?thesis by simp
qed

lemma c_div_nonneg: "0 \<le> sint n \<Longrightarrow> c_div n 10 = n div 10"
  by (simp add: c_div_def word_div_def uint_nonneg signed_divide_int_def sgn_if)

lemma c_mod_nonneg: "0 \<le> sint n \<Longrightarrow> c_mod n 10 = n mod 10"
  by (simp add: c_mod_def word_mod_def uint_nonneg signed_modulo_int_def sgn_if minus_div_mult_eq_mod
      del: of_int_diff)

lemma itoa_loop_nonneg: "0 \<le> sint n \<Longrightarrow> itoa_loop m n x = utoa_loop m n x"
proof (induction m n x rule: itoa_loop.induct)
  case (1 m n x)
  have "0 \<le> sint (n div 10)" using sint_c_div_10 [of n] 1(2) by (simp add: c_div_nonneg sgn_if)
  with 1 show ?case
    by (subst itoa_loop.simps, subst utoa_loop.simps)
      (auto simp: Let_def c_mod_nonneg c_div_nonneg simp del: fun_upd_apply)
qed

lemma itoa_dec:
  assumes "0 < unat s" and "unat s + 11 < 2 ^ 32" and n: "sint n \<noteq> - (2 ^ 31)"
  shows "\<exists>m'. itoa m n s = Some m' \<and> cstr m' s (dec_int (sint n))
    \<and> (\<forall>a. a \<notin> region s (length (dec_int (sint n)) + 1) \<longrightarrow> m' a = m a)"
proof -
  define k where "k = (if sint n < 0 then - n else n)"
  let ?ds = "dec_rev (unat k)"
  define xs where "xs = ?ds @ (if sint n < 0 then [chr CHR ''-''] else [])"
  have rng: "- (2 ^ 31) \<le> sint n" "sint n < 2 ^ 31" using sint_ge [of n] sint_lt [of n] by simp_all
  have "k = word_of_int \<bar>sint n\<bar>" by (simp add: k_def)
  moreover have "\<bar>sint n\<bar> < 2 ^ 31" using rng n by linarith
  ultimately have k: "sint k = \<bar>sint n\<bar>" by (simp only: sint32_of_int)
  then have "uint k = \<bar>sint n\<bar>" using uint_nonneg [of k] by simp
  then have uk: "unat k = nat \<bar>sint n\<bar>" by (metis nat_uint_eq)
  have z: "0 \<notin> set xs" using dec_rev_digits [of 0 "unat k"] by (auto simp: xs_def)
  have "length xs \<le> 11" using length_dec_rev_32 [OF unat_lt32, of k] by (simp add: xs_def)
  then have len: "unat s + length xs < 2 ^ 32" using assms by linarith
  have run: "itoa m n s = strrev (wr m s (xs @ [0])) s"
    using itoa_loop_nonneg [of k m s] k
    by (simp add: itoa_def k_def [symmetric] xs_def utoa_loop_wr wr_append Let_def add.assoc split: prod.splits)
  have "rev xs = dec_int (sint n)" by (auto simp: dec_int_def dec_def uk xs_def)
  moreover from this have "length (dec_int (sint n)) = length xs" by (metis length_rev)
  ultimately show ?thesis using strrev_wr [OF z assms(1) len, of m] run by simp
qed

text \<open>Reading numbers.\<close>

lemma atoi_loop_fold:
  "rd m x (length ds) = ds \<Longrightarrow> unat x + length ds < 2 ^ 32 \<Longrightarrow>
   atoi_loop m x (x + of_nat (length ds)) r = foldl (\<lambda>r c. r * 10 + promote c - 0x30) r ds"
proof (induction ds arbitrary: x r)
  case Nil
  then show ?case by (subst atoi_loop.simps) simp
next
  case (Cons d ds)
  have "unat (x + of_nat (length (d # ds))) = unat x + length (d # ds)"
    using Cons.prems by (intro unat_add_of_nat32) simp
  then have "x < x + of_nat (length (d # ds))" by (simp add: word_less_nat_alt)
  moreover have "unat (x + 1) = unat x + 1" using Cons.prems by (simp add: unat_Suc32)
  moreover have "x + of_nat (length (d # ds)) = x + 1 + of_nat (length ds)" by simp
  ultimately show ?case using Cons.IH [of "x + 1"] Cons.prems
    by (subst atoi_loop.simps) (simp add: add.assoc)
qed

lemma promote_digit: "d < 10 \<Longrightarrow> promote (of_nat d + 48) - 0x30 = of_nat d"
  by (auto simp: promote_def less_Suc_eq eval_nat_numeral)

lemma dec_value: "foldl (\<lambda>r c. r * 10 + promote c - 0x30) 0 (dec n) = of_nat n"
proof (induction n rule: dec_rev.induct)
  case (1 n)
  have split: "of_nat (n div 10) * 10 + of_nat (n mod 10) = (of_nat n :: u32)"
  proof -
    have "(of_nat n :: u32) = of_nat (n div 10 * 10 + n mod 10)" by (simp only: div_mult_mod_eq)
    also have "\<dots> = of_nat (n div 10) * 10 + of_nat (n mod 10)" by (simp only: of_nat_add of_nat_mult of_nat_numeral)
    finally show ?thesis by (rule sym)
  qed
  have step: "r * 10 + promote (of_nat (n mod 10) + 48) - 0x30 = r * 10 + of_nat (n mod 10)" for r :: u32
    using promote_digit [of "n mod 10"] by (simp add: add_diff_eq [symmetric])
  show ?case
  proof (cases "n div 10 = 0")
    case True
    then have "dec n = [of_nat (n mod 10) + 48]" by (simp add: dec_def dec_rev.simps [of n])
    then show ?thesis using step [of 0] split True by simp
  next
    case False
    then have "dec n = dec (n div 10) @ [of_nat (n mod 10) + 48]" by (simp add: dec_def dec_rev.simps [of n])
    then show ?thesis using 1 False by (simp only: foldl_append foldl.simps step split not_False_eq_True)
  qed
qed

lemma dec_head: "dec n = c # cs \<Longrightarrow> c \<noteq> chr CHR ''-'' \<and> c \<noteq> chr CHR ''+''"
proof -
  assume "dec n = c # cs"
  then have "c \<in> set (dec_rev n)" by (metis dec_def list.set_intros(1) set_rev)
  from dec_rev_digits [OF this] show ?thesis by auto
qed

lemma atoi_dec:
  assumes "cstr m p (dec n)" and "unat p + length (dec n) + 1 < 2 ^ 32"
  shows "atoi_loop m p (p + strlen m p) 0 = of_nat n"
proof -
  have "strlen m p = of_nat (length (dec n))" using assms by (intro strlen_cstr) auto
  then show ?thesis
    using atoi_loop_fold [of m p "dec n" 0] assms dec_value [of n] by (simp add: cstr_iff)
qed

lemma atoi_dec_int:
  assumes s: "cstr m p (dec_int k)" and len: "unat p + length (dec_int k) + 1 < 2 ^ 32"
  shows "atoi m p = word_of_int k"
proof (cases "k < 0")
  case True
  then have "m p = chr CHR ''-''" "cstr m (p + 1) (dec (nat (- k)))" using s by (auto simp: dec_int_def)
  moreover have "unat (p + 1) = unat p + 1" using len by (simp add: unat_Suc32)
  ultimately have "atoi m p = - of_nat (nat (- k))"
    using atoi_dec [of m "p + 1" "nat (- k)"] len True by (simp add: atoi_def Let_def dec_int_def)
  then show ?thesis using True by (simp add: of_nat_nat)
next
  case False
  then have d: "cstr m p (dec (nat k))" using s by (simp add: dec_int_def)
  obtain c cs where c: "dec (nat k) = c # cs" by (cases "dec (nat k)") (auto simp: dec_def)
  with d dec_head [OF c] have "m p \<noteq> chr CHR ''-''" "m p \<noteq> chr CHR ''+''" by auto
  then have "atoi m p = of_nat (nat k)"
    using atoi_dec [OF d] len False by (simp add: atoi_def Let_def dec_int_def)
  then show ?thesis using False by (simp add: of_nat_nat)
qed

text \<open>Hexadecimal.\<close>

lemma hex_len_le: "n < 16 ^ k \<Longrightarrow> 0 < k \<Longrightarrow> hex_len n \<le> k"
proof (induction n arbitrary: k rule: hex_len.induct)
  case (1 n)
  show ?case
  proof (cases "n < 16")
    case False
    with 1(2) obtain j where k: "k = Suc j" "0 < j" by (cases k; cases "k - 1") auto
    with 1 False have "hex_len (n div 16) \<le> j" by (simp add: less_mult_imp_div_less)
    with k False show ?thesis by (subst hex_len.simps) simp
  qed (use 1 in \<open>subst hex_len.simps, simp\<close>)
qed

lemma hex_len_bounds: "0 < hex_len n \<and> n < 16 ^ hex_len n"
proof (induction n rule: hex_len.induct)
  case (1 n)
  show ?case
  proof (cases "n < 16")
    case True
    then show ?thesis by (subst (1 2) hex_len.simps) simp
  next
    case False
    with 1 have "n div 16 < 16 ^ hex_len (n div 16)" by simp
    then have "n < 16 * 16 ^ hex_len (n div 16)" by (simp add: div_less_iff_less_mult mult.commute)
    then show ?thesis using False by (subst (1 2) hex_len.simps) simp
  qed
qed

lemma hex_len_32: "hex_len (unat n) \<le> 8" for n :: u32
  using unat_lt32 [of n] by (intro hex_len_le) simp_all

lemma num_hex_loop_len: "n \<noteq> 0 \<Longrightarrow> num_hex_loop n r = r + of_nat (hex_len (unat n))"
proof (induction n r rule: num_hex_loop.induct)
  case (1 n r)
  show ?case
  proof (cases "unat n < 16")
    case True
    then have "unat (drop_bit 4 n) = 0" unfolding unat_drop_4 by simp
    then have "drop_bit 4 n = 0" by (simp only: unat_eq_0)
    then have "num_hex_loop (drop_bit 4 n) (r + 1) = r + 1" by (subst num_hex_loop.simps) simp
    then show ?thesis using 1(2) True by (subst num_hex_loop.simps, subst hex_len.simps) simp
  next
    case False
    then have "unat (drop_bit 4 n) \<noteq> 0" unfolding unat_drop_4 by simp
    then have "drop_bit 4 n \<noteq> 0" by (simp only: unat_eq_0 not_False_eq_True)
    with 1 have "num_hex_loop (drop_bit 4 n) (r + 1) = r + 1 + of_nat (hex_len (unat n div 16))"
      by (simp only: unat_drop_4 not_False_eq_True)
    then show ?thesis using 1(2) False by (subst num_hex_loop.simps, subst hex_len.simps) (simp add: add.assoc)
  qed
qed

lemma num_hex_digits_len: "num_hex_digits n = of_nat (hex_len (unat n))"
  by (cases "n = 0") (simp_all add: num_hex_digits_def num_hex_loop_len hex_len.simps [of 0])

lemma wr_upd_other: "q \<notin> region p (length xs) \<Longrightarrow> length xs \<le> 2 ^ 32 \<Longrightarrow> wr (m(q := v)) p xs = (wr m p xs)(q := v)"
proof (induction xs arbitrary: m p)
  case (Cons x xs)
  then have "q \<noteq> p" "q \<notin> region (p + 1) (length xs)" by (auto simp: region_Suc)
  with Cons show ?case by (simp add: fun_upd_twist del: fun_upd_apply)
qed simp

lemma length_hexds [simp]: "length (hexds k n) = k"
  by (induction k n rule: hexds.induct) auto

lemma not_region_end: "n < 2 ^ 32 \<Longrightarrow> p + of_nat n \<notin> region p n"
  by (simp add: region_def unat_of_nat32)

lemma unat_and_15: "unat (n AND 0xF :: u32) = unat n mod 16"
proof -
  have "n AND 15 = take_bit 4 n" by (simp add: take_bit_eq_mask mask_eq_exp_minus_1)
  then show ?thesis by (simp add: take_bit_eq_mod unat_mod)
qed

lemma itoh_loop_wr: "k \<le> 8 \<Longrightarrow> itoh_loop m n s (of_nat k - 1) = wr m s (hexds k (unat n))"
proof (induction k arbitrary: m n)
  case 0
  then show ?case by (subst itoh_loop.simps) simp
next
  case (Suc k)
  have "sint (word_of_int (int k) :: u32) = int k" using Suc.prems by (intro sint32_of_int) auto
  then have "0 \<le> sint (of_nat k :: u32)" by simp
  then have "itoh_loop m n s (of_nat (Suc k) - 1) =
    itoh_loop (m(s + of_nat k := hex_lookup ! unat (n AND 0xF))) (drop_bit 4 n) s (of_nat k - 1)"
    by (subst itoh_loop.simps) simp
  also have "\<dots> = wr (m(s + of_nat k := hex_lookup ! (unat n mod 16))) s (hexds k (unat n div 16))"
    using Suc by (simp only: unat_and_15 unat_drop_4 Suc_leD)
  also have "\<dots> = (wr m s (hexds k (unat n div 16)))(s + of_nat k := hex_lookup ! (unat n mod 16))"
    using Suc.prems by (intro wr_upd_other) (auto simp: not_region_end)
  finally show ?case by (simp add: wr_append)
qed

lemma itoh_wr: "itoh m n s = wr m s (hex_str (unat n) @ [0])"
proof -
  let ?k = "hex_len (unat n)" and ?n = "num_hex_digits n"
  have k: "?k \<le> 8" "0 < ?k" using hex_len_32 hex_len_bounds by auto
  then have "?k \<in> set [1, 2, 3, 4, 5, 6, 7, 8]" by (simp, arith)
  then have odd: "(of_nat ?k :: u32) AND 1 \<noteq> 0 \<longleftrightarrow> odd ?k" by auto
  have loop: "itoh_loop (m'(q + of_nat ?k := 0)) n q (of_nat ?k - 1) = wr m' q (hexds ?k (unat n) @ [0])" for m' q
  proof -
    have "itoh_loop (m'(q + of_nat ?k := 0)) n q (of_nat ?k - 1) = wr (m'(q + of_nat ?k := 0)) q (hexds ?k (unat n))"
      by (rule itoh_loop_wr [OF k(1)])
    also have "\<dots> = (wr m' q (hexds ?k (unat n)))(q + of_nat ?k := 0)"
      using k by (intro wr_upd_other) (auto simp: not_region_end)
    finally show ?thesis by (simp add: wr_append)
  qed
  show ?thesis using odd loop by (simp add: itoh_def num_hex_digits_len hex_str_def Let_def)
qed

lemma hex_digit: "d < 16 \<Longrightarrow> unhex (hex_lookup ! d) = d \<and> hex_lookup ! d \<in> set hex_lookup"
proof -
  assume "d < 16"
  then have "d \<in> set [0, 1, 2, 3, 4, 5, 6, 7, 8, 9, 10, 11, 12, 13, 14, 15]" by (simp, arith)
  then show ?thesis by (auto simp: hex_lookup_def bytes_def unhex_def)
qed

lemma hexds_value: "n < 16 ^ k \<Longrightarrow> foldl (\<lambda>r c. 16 * r + unhex c) 0 (hexds k n) = n"
  by (induction k n rule: hexds.induct) (auto simp: hex_digit less_mult_imp_div_less)

lemma hexds_set: "set (hexds k n) \<subseteq> set hex_lookup"
  by (induction k n rule: hexds.induct) (auto simp: hex_digit)

lemma hex_str_value: "foldl (\<lambda>r c. 16 * r + unhex c) 0 (hex_str n) = n"
  using hexds_value hex_len_bounds by (simp add: hex_str_def unhex_def)

lemma hex_str_set: "set (hex_str n) \<subseteq> set hex_lookup"
  using hexds_set by (auto simp: hex_str_def) (simp_all add: hex_lookup_def bytes_def)

lemma hex_str_length: "even (length (hex_str n))"
  by (simp add: hex_str_def)

lemma hex_str_nz: "0 \<notin> set (hex_str n)"
  using hex_str_set [of n] by (auto simp: hex_lookup_def bytes_def)

section \<open>Properties\<close>

text \<open>
  C31: itoa writes the decimal notation of every int but the least one, with a NUL, and nothing
  else: the loop and the reversal end.
\<close>

theorem itoa_ok:
  assumes "0 < unat s" and "unat s + 11 < 2 ^ 32" and "sint n \<noteq> - (2 ^ 31)"
  shows "\<exists>m'. itoa m n s = Some m' \<and> cstr m' s (dec_int (sint n))
    \<and> (\<forall>a. a \<notin> region s (length (dec_int (sint n)) + 1) \<longrightarrow> m' a = m a)"
  by (rule itoa_dec [OF assms])

theorem itoa_ok_witness:
  "\<exists>m'. itoa (\<lambda>_. 0) (- 305) 64 = Some m' \<and> cstr m' 64 (bytes ''-305'')"
proof -
  have "dec_int (- 305) = bytes ''-305''" by (simp add: dec_int_def dec_def dec_rev.simps bytes_def)
  then show ?thesis using itoa_ok [of 64 "- 305" "\<lambda>_. 0"] by auto
qed

text \<open>
  C30: atoi reads back the number that itoa wrote.
\<close>

theorem atoi_itoa:
  assumes "0 < unat s" and "unat s + 13 < 2 ^ 32" and n: "sint n \<noteq> - (2 ^ 31)"
  shows "\<exists>m'. itoa m n s = Some m' \<and> atoi m' s = n"
proof -
  obtain m' where m': "itoa m n s = Some m'" "cstr m' s (dec_int (sint n))"
    using itoa_dec [OF assms(1) _ n, of m] assms(2) by auto
  have "nat \<bar>sint n\<bar> < 2 ^ 32" using sint_ge [of n] sint_lt [of n] by simp
  from length_dec_rev_32 [OF this] have "length (dec_int (sint n)) \<le> 11"
    by (auto simp: dec_int_def dec_def)
  then have "atoi m' s = word_of_int (sint n)" using m'(2) assms(2) by (intro atoi_dec_int) auto
  with m' show ?thesis by simp
qed

theorem atoi_itoa_witness: "\<exists>m'. itoa (\<lambda>_. 0) (- 305) 64 = Some m' \<and> atoi m' 64 = - 305"
  using atoi_itoa [of 64 "- 305" "\<lambda>_. 0"] by simp

text \<open>
  itoh writes an even number of upper-case hexadecimal digits whose value is the number,
  then a NUL, and nothing else.
\<close>

lemma itoh_ok:
  "\<exists>ds. itoh m n s = wr m s (ds @ [0]) \<and> even (length ds) \<and> set ds \<subseteq> set hex_lookup
     \<and> foldl (\<lambda>r c. 16 * r + unhex c) 0 ds = unat n"
  using itoh_wr hex_str_length hex_str_set hex_str_value by metis

text \<open>
  C32: A defect of itoa (lines 29 to 32). The negation of the least int is the least int, and the
  digits of its negative remainders are written: -2147483648 becomes a minus sign followed by
  characters that are no digits.
\<close>

theorem itoa_least_int:
  "\<exists>m'. itoa m 0x80000000 64 = Some m' \<and> cstr m' 64 (bytes ''-./,),(-*,('')"
proof -
  have "itoa_loop m 0x80000000 64 = (wr m 64 [40, 44, 42, 45, 40, 44, 41, 44, 47, 46], 74)"
    by (simp add: itoa_loop.simps c_mod_def c_div_def signed_divide_int_def signed_modulo_int_def)
  moreover have least: "(- 0x80000000 :: u32) = 0x80000000" by simp
  ultimately have "itoa m 0x80000000 64 = strrev (wr m 64 ([40, 44, 42, 45, 40, 44, 41, 44, 47, 46, 45] @ [0])) 64"
    by (simp add: itoa_def least)
  then show ?thesis
    using strrev_wr [of "[40, 44, 42, 45, 40, 44, 41, 44, 47, 46, 45]" 64 m] by (auto simp: bytes_def)
qed

end
