(* ===== verification/Libc_Printf.thy ===== *)
theory Libc_Printf
  imports Libc_Conv
begin

text \<open>
  The formatter of libc/printf.c. The variable arguments are the words on the stack behind the
  last named parameter: on i386 a \<open>va_list\<close> is a pointer to them, and \<open>va_arg\<close> reads the
  word and moves on by four. The local array \<open>buf_temp\<close> lies at an address of the stack,
  the parameter \<open>tmp\<close>.
\<close>

section \<open>printf.c\<close>

definition va_arg :: "mem \<Rightarrow> addr \<Rightarrow> u32 \<times> addr" where
  "va_arg m vl = (ld32 m vl, vl + 4)"

text \<open>The cases d, u and x: what is in \<open>buf_temp\<close> goes to the buffer.\<close>

definition put_temp :: "mem \<Rightarrow> addr \<Rightarrow> addr \<Rightarrow> mem \<times> u32" where
  "put_temp m tmp dest = (let len = strlen m tmp in (memcpy m dest tmp len, len))"

text \<open>The switch: the memory, the bytes the offset advances by and the rest of the arguments.\<close>

definition put_conv ::
  "mem \<Rightarrow> addr \<Rightarrow> addr \<Rightarrow> byte \<Rightarrow> addr \<Rightarrow> (mem \<times> u32 \<times> addr) option" where
  "put_conv m tmp dest ch vl =
     (if ch = chr CHR ''%'' then Some (m(dest := chr CHR ''%''), 1, vl)
      else if ch = chr CHR ''c'' then
        let (v, vl) = va_arg m vl in Some (m(dest := ucast v), 1, vl)
      else if ch = chr CHR ''s'' then
        let (p, vl) = va_arg m vl
        in if p \<noteq> 0
           then do { m \<leftarrow> strcpy m dest p; Some (m, strlen m p, vl) }
           else Some (wr m dest (bytes ''(null)'' @ [0]), 6, vl)
      else if ch = chr CHR ''d'' then
        let (v, vl) = va_arg m vl
        in do { m \<leftarrow> itoa m v tmp; let (m, len) = put_temp m tmp dest; Some (m, len, vl) }
      else if ch = chr CHR ''u'' then
        let (v, vl) = va_arg m vl
        in do { m \<leftarrow> utoa m v tmp; let (m, len) = put_temp m tmp dest; Some (m, len, vl) }
      else if ch = chr CHR ''x'' then
        let (v, vl) = va_arg m vl; (m, len) = put_temp (itoh m v tmp) tmp dest
        in Some (m, len, vl)
      else Some (m, 0, vl))"

partial_function (option) vsprintf_loop ::
  "mem \<Rightarrow> addr \<Rightarrow> addr \<Rightarrow> addr \<Rightarrow> addr \<Rightarrow> u32 \<Rightarrow> (mem \<times> u32) option" where
  "vsprintf_loop m tmp buffer format vlist offset =
     (let ch = m format
      in if ch = 0 then Some (m(buffer + offset := 0), offset)
         else if ch = chr CHR ''%''
         then do {
           r \<leftarrow> put_conv m tmp (buffer + offset) (m (format + 1)) vlist;
           vsprintf_loop (fst r) tmp buffer (format + 2) (snd (snd r)) (offset + fst (snd r))
         }
         else vsprintf_loop (m(buffer + offset := ch)) tmp buffer (format + 1) vlist (offset + 1))"

definition vsprintf :: "mem \<Rightarrow> addr \<Rightarrow> addr \<Rightarrow> addr \<Rightarrow> addr \<Rightarrow> (mem \<times> u32) option" where
  "vsprintf m tmp buffer format vlist = vsprintf_loop m tmp buffer format vlist 0"

text \<open>\<open>sprintf\<close> takes its arguments from the stack words behind \<open>fmt\<close>, at \<open>args\<close>.\<close>

definition sprintf :: "mem \<Rightarrow> addr \<Rightarrow> addr \<Rightarrow> addr \<Rightarrow> addr \<Rightarrow> (mem \<times> u32) option" where
  "sprintf m tmp buf fmt args = vsprintf m tmp buf fmt args"

section \<open>Specification\<close>

text \<open>An argument: a word, a string, a NULL string.\<close>

datatype parg = PW u32 | PS "byte list" | PNull

fun conv_out :: "byte \<Rightarrow> parg list \<Rightarrow> (byte list \<times> parg list) option" where
  "conv_out ch as =
     (if ch = chr CHR ''%'' then Some (bytes ''%'', as)
      else if ch = chr CHR ''c'' then (case as of PW v # as \<Rightarrow> Some ([ucast v], as) | _ \<Rightarrow> None)
      else if ch = chr CHR ''s'' then
        (case as of PS s # as \<Rightarrow> Some (s, as) | PNull # as \<Rightarrow> Some (bytes ''(null)'', as) | _ \<Rightarrow> None)
      else if ch = chr CHR ''d'' then
        (case as of PW v # as \<Rightarrow> if v = 0x80000000 then None else Some (dec_int (sint v), as) | _ \<Rightarrow> None)
      else if ch = chr CHR ''u'' then (case as of PW v # as \<Rightarrow> Some (dec (unat v), as) | _ \<Rightarrow> None)
      else if ch = chr CHR ''x'' then (case as of PW v # as \<Rightarrow> Some (hex_str (unat v), as) | _ \<Rightarrow> None)
      else Some ([], as))"

fun render :: "byte list \<Rightarrow> parg list \<Rightarrow> byte list option" where
  "render [] as = Some []"
| "render (ch # f) as =
     (if ch \<noteq> chr CHR ''%'' then map_option (Cons ch) (render f as)
      else case f of [] \<Rightarrow> None
        | c # f' \<Rightarrow> (case conv_out c as of None \<Rightarrow> None
            | Some (out, as') \<Rightarrow> map_option (append out) (render f' as')))"

fun args_at :: "mem \<Rightarrow> addr \<Rightarrow> parg list \<Rightarrow> bool" where
  "args_at m vl [] \<longleftrightarrow> True"
| "args_at m vl (PW v # as) \<longleftrightarrow> ld32 m vl = v \<and> args_at m (vl + 4) as"
| "args_at m vl (PNull # as) \<longleftrightarrow> ld32 m vl = 0 \<and> args_at m (vl + 4) as"
| "args_at m vl (PS s # as) \<longleftrightarrow> ld32 m vl \<noteq> 0 \<and> cstr m (ld32 m vl) s \<and> args_at m (vl + 4) as"

text \<open>The bytes the arguments occupy, the strings included.\<close>

fun foot :: "mem \<Rightarrow> addr \<Rightarrow> parg list \<Rightarrow> addr set" where
  "foot m vl [] = {}"
| "foot m vl (PS s # as) = region vl 4 \<union> region (ld32 m vl) (length s + 1) \<union> foot m (vl + 4) as"
| "foot m vl (PW v # as) = region vl 4 \<union> foot m (vl + 4) as"
| "foot m vl (PNull # as) = region vl 4 \<union> foot m (vl + 4) as"

text \<open>The memory holds the output at \<open>b\<close>; but for that and the bytes of \<open>T\<close> it is as before.\<close>

definition emits :: "mem \<Rightarrow> mem \<Rightarrow> addr \<Rightarrow> byte list \<Rightarrow> addr set \<Rightarrow> bool" where
  "emits m m' b out T \<longleftrightarrow> rd m' b (length out) = out \<and>
     (\<forall>a. a \<notin> region b (length out + 1) \<and> a \<notin> T \<longrightarrow> m' a = m a)"

text \<open>An example: the format n=%d%% at 100 with the argument -7 at 500.\<close>

definition sample_mem :: mem where
  "sample_mem = wr (st32 (\<lambda>_. 0) 500 (- 7)) 100 (bytes ''n=%d%%'')"

declare conv_out.simps [simp del]

section \<open>Lemmas\<close>

lemma ld32_agree: "\<forall>a \<in> F. m' a = m a \<Longrightarrow> region p 4 \<subseteq> F \<Longrightarrow> ld32 m' p = ld32 m p"
  by (rule ld32_cong) blast

lemma args_cong:
  "args_at m vl as \<Longrightarrow> \<forall>a \<in> foot m vl as. m' a = m a \<Longrightarrow> args_at m' vl as \<and> foot m' vl as = foot m vl as"
proof (induction m vl as rule: args_at.induct)
  case (2 m vl v as)
  moreover have "ld32 m' vl = ld32 m vl" by (rule ld32_agree [OF 2(3)]) simp
  ultimately show ?case by simp
next
  case (3 m vl as)
  moreover have "ld32 m' vl = ld32 m vl" by (rule ld32_agree [OF 3(3)]) simp
  ultimately show ?case by simp
next
  case (4 m vl s as)
  moreover have "ld32 m' vl = ld32 m vl" by (rule ld32_agree [OF 4(3)]) auto
  moreover have "cstr m' (ld32 m vl) s"
    by (rule cstr_cong) (use 4(2,3) in \<open>auto simp del: fun_upd_apply\<close>)
  ultimately show ?case by simp
qed simp

lemma emits_append:
  assumes x: "emits m m1 b x T" and y: "emits m1 m' (b + of_nat (length x)) y T"
    and T: "region b (length x + length y + 1) \<inter> T = {}" and len: "length x + length y + 1 \<le> 2 ^ 32"
  shows "emits m m' b (x @ y) T"
proof -
  let ?q = "b + of_nat (length x)"
  have sp: "sep b (length x) ?q (length y + 1)"
    using len by (intro sep_adjacent) auto
  have "m' a = m1 a" if "a \<in> region b (length x)" for a
  proof -
    have "a \<notin> region ?q (length y + 1)" using sep_region [OF sp] that by auto
    moreover have "a \<notin> T" using that T region_mono [of "length x" "length x + length y + 1" b] by auto
    ultimately show ?thesis using y by (auto simp: emits_def)
  qed
  then have "rd m' b (length x) = x" using x len by (subst rd_cong [of b _ m' m1]) (auto simp: emits_def)
  moreover have "m' a = m a" if a: "a \<notin> region b (length (x @ y) + 1)" "a \<notin> T" for a
  proof -
    have "a \<notin> region ?q (length y + 1)" 
      using a region_sub [of "length x" "length y + 1" "length (x @ y) + 1" b] len by auto
    then have "m' a = m1 a" using y a by (simp add: emits_def)
    moreover have "a \<notin> region b (length x + 1)"
      using a region_mono [of "length x + 1" "length (x @ y) + 1" b] by auto
    ultimately show ?thesis using x a by (simp add: emits_def)
  qed
  ultimately show ?thesis using y by (auto simp: emits_def rd_append)
qed

lemma emits_wr: "length xs \<le> 2 ^ 32 \<Longrightarrow> emits m (wr m b xs) b xs T"
  using rd_wr [of xs m b] wr_frame [of _ b xs m] region_mono [of "length xs" "length xs + 1" b]
  by (auto simp: emits_def)

lemma emits_wr_nul: "length xs + 1 \<le> 2 ^ 32 \<Longrightarrow> emits m (wr m b (xs @ [0])) b xs T"
proof -
  assume len: "length xs + 1 \<le> 2 ^ 32"
  have "rd (wr m b (xs @ [0])) b (length (xs @ [0])) = xs @ [0]" using len by (intro rd_wr) simp
  then have "rd (wr m b (xs @ [0])) b (length xs) = xs" using rd_append [of _ b "length xs" 1] by simp
  then show ?thesis using wr_frame [of _ b "xs @ [0]" m] len by (auto simp: emits_def)
qed

lemma put_temp_emits:
  assumes ds: "cstr m1 tmp ds" "length ds \<le> 11" and fr: "\<And>a. a \<notin> region tmp 12 \<Longrightarrow> m1 a = m a"
    and dj: "region dest (length ds + 1) \<inter> region tmp 12 = {}"
  shows "\<exists>m'. put_temp m1 tmp dest = (m', of_nat (length ds)) \<and> emits m m' dest ds (region tmp 12)"
proof -
  have sl: "strlen m1 tmp = of_nat (length ds)" using ds by (intro strlen_cstr) auto
  have u: "unat (of_nat (length ds) :: u32) = length ds" using ds by (intro unat_of_nat32) simp
  have "dest \<in> region dest (length ds + 1)" by (simp add: region_def)
  then have "dest \<notin> region tmp 12" using dj by blast
  then have "length ds \<le> unat (dest - tmp)" using ds by (simp add: region_def)
  then have "memcpy m1 dest tmp (of_nat (length ds)) = wr m1 dest ds"
    using memcpy_wr [of dest tmp "of_nat (length ds)" m1] ds(1) u by (simp add: cstr_iff)
  moreover have "emits m1 (wr m1 dest ds) dest ds (region tmp 12)" using ds by (intro emits_wr) simp
  then have "emits m (wr m1 dest ds) dest ds (region tmp 12)" using fr by (auto simp: emits_def)
  ultimately show ?thesis by (simp add: put_temp_def sl)
qed

lemma length_dec_int: "length (dec_int (sint v)) \<le> 11" for v :: u32
proof -
  have "nat \<bar>sint v\<bar> < 2 ^ 32" using sint_ge [of v] sint_lt [of v] by simp
  from length_dec_rev_32 [OF this] show ?thesis by (auto simp: dec_int_def dec_def)
qed

lemma length_dec: "length (dec (unat v)) \<le> 10" for v :: u32
  using length_dec_rev_32 [OF unat_lt32, of v] by (simp add: dec_def)

lemma length_hex_str: "length (hex_str (unat v)) \<le> 8" for v :: u32
proof -
  have "odd k \<Longrightarrow> k \<le> 8 \<Longrightarrow> Suc k \<le> 8" for k :: nat by presburger
  then show ?thesis using hex_len_32 [of v] by (auto simp: hex_str_def)
qed

lemma within_tmp:
  assumes "\<forall>a. a \<notin> region tmp n \<longrightarrow> m1 a = m a" and "n \<le> 12"
  shows "\<And>a. a \<notin> region tmp 12 \<Longrightarrow> m1 a = m a"
  using assms region_mono [of n 12 tmp] by blast

text \<open>Each conversion emits its output.\<close>

lemma put_d:
  assumes "0 < unat tmp" "unat tmp + 12 < 2 ^ 32" "v \<noteq> 0x80000000"
    and dj: "region dest (length (dec_int (sint v)) + 1) \<inter> region tmp 12 = {}"
  shows "\<exists>m1 m'. itoa m v tmp = Some m1 \<and> put_temp m1 tmp dest = (m', of_nat (length (dec_int (sint v))))
    \<and> emits m m' dest (dec_int (sint v)) (region tmp 12)"
proof -
  have "sint v \<noteq> - (2 ^ 31)"
  proof
    assume "sint v = - (2 ^ 31)"
    then have "word_of_int (sint v) = (word_of_int (- (2 ^ 31)) :: u32)" by (simp only:)
    with assms(3) show False by simp
  qed
  then obtain m1 where m1: "itoa m v tmp = Some m1" "cstr m1 tmp (dec_int (sint v))"
    "\<forall>a. a \<notin> region tmp (length (dec_int (sint v)) + 1) \<longrightarrow> m1 a = m a"
    using itoa_dec [of tmp v m] assms(1,2) by auto
  have len: "length (dec_int (sint v)) \<le> 11" by (rule length_dec_int)
  then have "length (dec_int (sint v)) + 1 \<le> 12" by simp
  from put_temp_emits [OF m1(2) len within_tmp [OF m1(3) this] dj] m1(1) show ?thesis by blast
qed

lemma put_u:
  assumes "0 < unat tmp" "unat tmp + 12 < 2 ^ 32"
    and dj: "region dest (length (dec (unat v)) + 1) \<inter> region tmp 12 = {}"
  shows "\<exists>m1 m'. utoa m v tmp = Some m1 \<and> put_temp m1 tmp dest = (m', of_nat (length (dec (unat v))))
    \<and> emits m m' dest (dec (unat v)) (region tmp 12)"
proof -
  obtain m1 where m1: "utoa m v tmp = Some m1" "cstr m1 tmp (dec (unat v))"
    "\<forall>a. a \<notin> region tmp (length (dec (unat v)) + 1) \<longrightarrow> m1 a = m a"
    using utoa_dec [of tmp m v] assms by auto
  have len: "length (dec (unat v)) + 1 \<le> 12" "length (dec (unat v)) \<le> 11" using length_dec [of v] by auto
  from put_temp_emits [OF m1(2) len(2) within_tmp [OF m1(3) len(1)] dj] m1(1) show ?thesis by blast
qed

lemma put_x:
  assumes dj: "region dest (length (hex_str (unat v)) + 1) \<inter> region tmp 12 = {}"
  shows "\<exists>m'. put_temp (itoh m v tmp) tmp dest = (m', of_nat (length (hex_str (unat v))))
    \<and> emits m m' dest (hex_str (unat v)) (region tmp 12)"
proof -
  let ?h = "hex_str (unat v)"
  have len: "length ?h \<le> 11" "length ?h + 1 \<le> 12" using length_hex_str [of v] by auto
  have c: "cstr (itoh m v tmp) tmp ?h" unfolding itoh_wr using hex_str_nz len by (intro cstr_wr) auto
  have fr: "\<forall>a. a \<notin> region tmp (length ?h + 1) \<longrightarrow> itoh m v tmp a = m a"
    unfolding itoh_wr using wr_frame [of _ tmp "?h @ [0]" m] len by auto
  show ?thesis by (rule put_temp_emits [OF c len(1) within_tmp [OF fr len(2)] dj])
qed

lemma put_s:
  assumes s: "cstr m p s" and dj: "region dest (length s + 1) \<inter> region p (length s + 1) = {}"
  shows "\<exists>m'. strcpy m dest p = Some m' \<and> strlen m' p = of_nat (length s) \<and> emits m m' dest s T"
proof -
  have "dest \<in> region dest (length s + 1)" by (simp add: region_def)
  then have "dest \<notin> region p (length s + 1)" using dj by blast
  then have "length s < unat (dest - p)" by (simp add: region_def)
  then have cp: "strcpy m dest p = Some (wr m dest (s @ [0]))" by (intro strcpy_cstr [OF s]) simp
  have len: "length s + 1 \<le> 2 ^ 32" using cstr_length [OF s] by simp
  have "cstr (wr m dest (s @ [0])) p s"
    using dj wr_frame [of _ dest "s @ [0]" m] len by (intro cstr_cong [OF s]) auto
  moreover have "length s < 2 ^ 32 - 1" using \<open>length s < unat (dest - p)\<close> unat_lt32 [of "dest - p"] by simp
  ultimately have "strlen (wr m dest (s @ [0])) p = of_nat (length s)" by (rule strlen_cstr)
  with cp emits_wr_nul [OF len] show ?thesis by blast
qed

lemma emits_byte: "emits m (m(b := c)) b [c] T"
  using emits_wr [of "[c]" m b T] by simp

lemma put_conv_emits:
  assumes out: "conv_out c as = Some (out, as')" and args: "args_at m vl as"
    and dj: "foot m vl as \<inter> region dest (length out + 1) = {}"
      "region dest (length out + 1) \<inter> region tmp 12 = {}"
    and tmp: "0 < unat tmp" "unat tmp + 12 < 2 ^ 32"
  shows "\<exists>m' vl'. put_conv m tmp dest c vl = Some (m', of_nat (length out), vl')
    \<and> emits m m' dest out (region tmp 12) \<and> args_at m vl' as' \<and> foot m vl' as' \<subseteq> foot m vl as"
proof -
  note [simp] = put_conv_def va_arg_def
  consider "c = chr CHR ''%''" | "c = chr CHR ''c''" | "c = chr CHR ''s''" | "c = chr CHR ''d''"
    | "c = chr CHR ''u''" | "c = chr CHR ''x''"
    | "c \<notin> {chr CHR ''%'', chr CHR ''c'', chr CHR ''s'', chr CHR ''d'', chr CHR ''u'', chr CHR ''x''}" by blast
  then show ?thesis
  proof cases
    case 1
    then show ?thesis using out args emits_byte by (auto simp: conv_out.simps bytes_def)
  next
    case 2
    then obtain v where "as = PW v # as'" "out = [ucast v]"
      using out by (auto simp: conv_out.simps split: list.splits parg.splits)
    then show ?thesis using 2 args emits_byte by auto
  next
    case 3
    then consider s where "as = PS s # as'" "out = s" | "as = PNull # as'" "out = bytes ''(null)''"
      using out by (auto simp: conv_out.simps split: list.splits parg.splits)
    then show ?thesis
    proof cases
      case (1 s)
      then have "cstr m (ld32 m vl) s" "region dest (length s + 1) \<inter> region (ld32 m vl) (length s + 1) = {}"
        using args dj by auto
      from put_s [OF this, of "region tmp 12"] obtain m' where
        "strcpy m dest (ld32 m vl) = Some m'" "strlen m' (ld32 m vl) = of_nat (length s)"
        "emits m m' dest s (region tmp 12)" by blast
      then show ?thesis using 1 3 args by auto
    next
      case 2
      then show ?thesis using 3 args emits_wr_nul [of "bytes ''(null)''" m dest "region tmp 12"]
        by (auto simp: bytes_def)
    qed
  next
    case 4
    then obtain v where "as = PW v # as'" "out = dec_int (sint v)" "v \<noteq> 0x80000000"
      using out by (auto simp: conv_out.simps split: list.splits parg.splits if_splits)
    then show ?thesis using 4 args put_d [OF tmp, of v dest m] dj by fastforce
  next
    case 5
    then obtain v where "as = PW v # as'" "out = dec (unat v)"
      using out by (auto simp: conv_out.simps split: list.splits parg.splits if_splits)
    then show ?thesis using 5 args put_u [OF tmp, of dest v m] dj by fastforce
  next
    case 6
    then obtain v where "as = PW v # as'" "out = hex_str (unat v)"
      using out by (auto simp: conv_out.simps split: list.splits parg.splits if_splits)
    then show ?thesis using 6 args put_x [of dest v tmp m] dj by fastforce
  next
    case 7
    then show ?thesis using out args by (auto simp: conv_out.simps emits_def)
  qed
qed

text \<open>One step that emits \<open>x\<close>, and the rest of the format, which emits \<open>y\<close>.\<close>

lemma vsprintf_step:
  assumes run: "vsprintf_loop m tmp buf fmt vl off = vsprintf_loop m1 tmp buf q vl1 (off + of_nat (length x))"
    and em: "emits m m1 (buf + off) x T"
    and IH: "\<exists>m'. vsprintf_loop m1 tmp buf q vl1 (off + of_nat (length x)) = Some (m', off + of_nat (length x) + of_nat (length y))
      \<and> emits m1 m' (buf + (off + of_nat (length x))) y T
      \<and> m' (buf + (off + of_nat (length x)) + of_nat (length y)) = 0"
    and out: "out = x @ y" and dj: "region (buf + off) (length out + 1) \<inter> T = {}" and len: "length out + 1 \<le> 2 ^ 32"
  shows "\<exists>m'. vsprintf_loop m tmp buf fmt vl off = Some (m', off + of_nat (length out))
    \<and> emits m m' (buf + off) out T \<and> m' (buf + off + of_nat (length out)) = 0"
proof -
  let ?b = "buf + off"
  obtain m' where m': "vsprintf_loop m1 tmp buf q vl1 (off + of_nat (length x)) = Some (m', off + of_nat (length x) + of_nat (length y))"
    "emits m1 m' (?b + of_nat (length x)) y T" "m' (?b + of_nat (length x) + of_nat (length y)) = 0"
    using IH by (auto simp: add.assoc)
  have "emits m m' ?b (x @ y) T" using dj len out by (intro emits_append [OF em m'(2)]) auto
  with m' run show ?thesis by (simp add: add.assoc out)
qed

lemma emits_outside: "emits m m1 b x T \<Longrightarrow> region b (length x + 1) \<subseteq> W \<Longrightarrow> T \<subseteq> W \<Longrightarrow> \<forall>a. a \<notin> W \<longrightarrow> m1 a = m a"
  by (auto simp: emits_def)

text \<open>What the arguments and the format need after a step.\<close>

lemma vsprintf_keep:
  assumes out: "\<forall>a. a \<notin> W \<longrightarrow> m1 a = m a" and args: "args_at m vl as" "foot m vl as \<inter> W = {}"
    and f: "cstr m q f" "region q (length f + 1) \<inter> W = {}"
  shows "args_at m1 vl as" "foot m1 vl as \<inter> W = {}" "cstr m1 q f"
proof -
  have "\<forall>a \<in> foot m vl as. m1 a = m a" using out args(2) by blast
  from args_cong [OF args(1) this] args(2) show "args_at m1 vl as" "foot m1 vl as \<inter> W = {}" by auto
  show "cstr m1 q f" using out f(2) by (intro cstr_cong [OF f(1)]) auto
qed

lemma region_tail: "k \<le> n \<Longrightarrow> n \<le> 2 ^ 32 \<Longrightarrow> region (p + of_nat k) (n - k) \<subseteq> region p n"
  by (rule region_sub) auto

lemma vsprintf_loop_render:
  assumes "render f as = Some out" "cstr m fmt f" "args_at m vl as"
    and "region fmt (length f + 1) \<inter> W = {}" "foot m vl as \<inter> W = {}"
    and "region (buf + off) (length out + 1) \<subseteq> W" 
    and "region (buf + off) (length out + 1) \<inter> region tmp 12 = {}"
    and "length out + 1 \<le> 2 ^ 32"
    and tmp: "0 < unat tmp" "unat tmp + 12 < 2 ^ 32" "region tmp 12 \<subseteq> W"
  shows "\<exists>m'. vsprintf_loop m tmp buf fmt vl off = Some (m', off + of_nat (length out))
    \<and> emits m m' (buf + off) out (region tmp 12) \<and> m' (buf + off + of_nat (length out)) = 0"
  using assms(1-8)
proof (induction f as arbitrary: m fmt vl off out rule: render.induct)
  case (1 as)
  then show ?case
    by (subst vsprintf_loop.simps) (auto simp: Let_def emits_def region_def)
next
  case (2 ch f as)
  have lf: "length (ch # f) + 1 \<le> 2 ^ 32" using cstr_length [OF "2.prems"(2)] by simp
  have rest: "region (buf + (off + of_nat (length x))) (length y + 1) \<subseteq> region (buf + off) (length out + 1)"
    if "out = x @ y" for x y
    using region_tail [of "length x" "length out + 1" "buf + off"] "2.prems"(8) that
    by (simp add: add.assoc Suc_diff_le)
  show ?case
  proof (cases "ch = chr CHR ''%''")
    case False
    then obtain y where y: "render f as = Some y" "out = [ch] @ y" using "2.prems"(1) by auto
    let ?m = "m(buf + off := ch)"
    have em: "emits m ?m (buf + off) [ch] (region tmp 12)" by (rule emits_byte)
    have "region (buf + off) (length [ch] + 1) \<subseteq> W"
      using region_mono [of "length [ch] + 1" "length out + 1" "buf + off"] "2.prems"(6) y(2) by auto
    note keep = vsprintf_keep [OF emits_outside [OF em this tmp(3)] "2.prems"(3,5)]
    have c: "cstr m (fmt + 1) f" "region (fmt + 1) (length f + 1) \<inter> W = {}"
      using "2.prems"(2,4) region_tail [of 1 "length (ch # f) + 1" fmt] lf by auto
    show ?thesis
    proof (rule vsprintf_step [OF _ em _ y(2) "2.prems"(7,8)])
      show "vsprintf_loop m tmp buf fmt vl off = vsprintf_loop ?m tmp buf (fmt + 1) vl (off + of_nat (length [ch]))"
        using False "2.prems"(2) by (subst vsprintf_loop.simps) (simp add: Let_def)
      show "\<exists>m'. vsprintf_loop ?m tmp buf (fmt + 1) vl (off + of_nat (length [ch])) =
          Some (m', off + of_nat (length [ch]) + of_nat (length y))
        \<and> emits ?m m' (buf + (off + of_nat (length [ch]))) y (region tmp 12)
        \<and> m' (buf + (off + of_nat (length [ch])) + of_nat (length y)) = 0"
        using rest [OF y(2)] "2.prems"(6,7,8) y(2)
        by (intro "2.IH"(1) [OF False y(1) keep(3) [OF c] keep(1) [OF c] c(2) keep(2) [OF c]]) auto
    qed
  next
    case True
    then obtain c f' x as' y where f: "f = c # f'" and x: "conv_out c as = Some (x, as')"
      and y: "render f' as' = Some y" "out = x @ y"
      using "2.prems"(1) by (auto split: list.splits option.splits)
    have sub: "region (buf + off) (length x + 1) \<subseteq> region (buf + off) (length out + 1)"
      using region_mono [of "length x + 1" "length out + 1" "buf + off"] y(2) by auto
    then have "foot m vl as \<inter> region (buf + off) (length x + 1) = {}"
      "region (buf + off) (length x + 1) \<inter> region tmp 12 = {}" "region (buf + off) (length x + 1) \<subseteq> W"
      using "2.prems"(5,6,7) by blast+
    note sub = this
    obtain m1 vl' where m1: "put_conv m tmp (buf + off) c vl = Some (m1, of_nat (length x), vl')"
      "emits m m1 (buf + off) x (region tmp 12)" "args_at m vl' as'" "foot m vl' as' \<subseteq> foot m vl as"
      using put_conv_emits [OF x "2.prems"(3) sub(1,2) tmp(1,2)] by blast
    have "foot m vl' as' \<inter> W = {}" using m1(4) "2.prems"(5) by blast
    note keep = vsprintf_keep [OF emits_outside [OF m1(2) sub(3) tmp(3)] m1(3) this]
    have c: "cstr m (fmt + 2) f'" "region (fmt + 2) (length f' + 1) \<inter> W = {}"
      using "2.prems"(2,4) region_tail [of 2 "length (ch # f) + 1" fmt] lf f by (auto simp: add.assoc)
    show ?thesis
    proof (rule vsprintf_step [OF _ m1(2) _ y(2) "2.prems"(7,8)])
      show "vsprintf_loop m tmp buf fmt vl off = vsprintf_loop m1 tmp buf (fmt + 2) vl' (off + of_nat (length x))"
        using True "2.prems"(2) m1(1) f by (subst vsprintf_loop.simps) (simp add: Let_def)
      show "\<exists>m'. vsprintf_loop m1 tmp buf (fmt + 2) vl' (off + of_nat (length x)) =
          Some (m', off + of_nat (length x) + of_nat (length y))
        \<and> emits m1 m' (buf + (off + of_nat (length x))) y (region tmp 12)
        \<and> m' (buf + (off + of_nat (length x)) + of_nat (length y)) = 0"
        using rest [OF y(2)] "2.prems"(6,7,8) y(2) True
        by (intro "2.IH"(2) [OF _ f x refl y(1) keep(3) [OF c] keep(1) [OF c] c(2) keep(2) [OF c]]) auto
    qed
  qed
qed

lemma sample_render: "render (bytes ''n=%d%%'') [PW (- 7)] = Some (bytes ''n=-7%'')"
proof -
  have "dec_int (- 7) = bytes ''-7''" by (simp add: dec_int_def dec_def dec_rev.simps bytes_def)
  then show ?thesis by (simp add: bytes_def conv_out.simps)
qed

lemma sample_fmt: "cstr sample_mem 100 (bytes ''n=%d%%'')"
  by (simp add: sample_mem_def bytes_def st32_def)

lemma sample_args: "args_at sample_mem 500 [PW (- 7)]"
proof -
  have "ld32 sample_mem 500 = ld32 (st32 (\<lambda>_. 0) 500 (- 7)) 500"
    by (rule ld32_cong) (auto simp: sample_mem_def bytes_def region_def)
  then show ?thesis by (simp add: ld32_st32)
qed

lemma sample_apart:
  "region 100 (length (bytes ''n=%d%%'') + 1) \<inter> (region 1000 (length (bytes ''n=-7%'') + 1) \<union> region 2000 12) = {}"
  "foot sample_mem 500 [PW (- 7)] \<inter> (region 1000 (length (bytes ''n=-7%'') + 1) \<union> region 2000 12) = {}"
  "region 1000 (length (bytes ''n=-7%'') + 1) \<inter> region 2000 12 = {}"
proof -
  have "region 100 7 \<inter> region 1000 6 = {}" "region 100 7 \<inter> region 2000 12 = {}" "region 500 4 \<inter> region 1000 6 = {}"
    "region 500 4 \<inter> region 2000 12 = {}" "region 1000 6 \<inter> region 2000 12 = {}"
    by (rule sep_region, simp add: sep_def)+
  then show "region 100 (length (bytes ''n=%d%%'') + 1) \<inter> (region 1000 (length (bytes ''n=-7%'') + 1) \<union> region 2000 12) = {}"
    "foot sample_mem 500 [PW (- 7)] \<inter> (region 1000 (length (bytes ''n=-7%'') + 1) \<union> region 2000 12) = {}"
    "region 1000 (length (bytes ''n=-7%'') + 1) \<inter> region 2000 12 = {}"
    by (simp_all add: Int_Un_distrib eval_nat_numeral)
qed

section \<open>Properties\<close>

text \<open>
  C10: vsprintf. For a format whose conversions fit the arguments it ends, the buffer holds the
  rendered text and a NUL, the result is the length of the text, and nothing is written but the
  buffer and the local array.
\<close>

theorem vsprintf_ok:
  assumes "render f as = Some out" and "cstr m fmt f" and "args_at m vl as"
    and W: "W = region buf (length out + 1) \<union> region tmp 12"
    and "region fmt (length f + 1) \<inter> W = {}" and "foot m vl as \<inter> W = {}"
    and "region buf (length out + 1) \<inter> region tmp 12 = {}" and "length out + 1 \<le> 2 ^ 32"
    and "0 < unat tmp" "unat tmp + 12 < 2 ^ 32"
  shows "\<exists>m'. vsprintf m tmp buf fmt vl = Some (m', of_nat (length out))
    \<and> rd m' buf (length out) = out \<and> m' (buf + of_nat (length out)) = 0 \<and> (\<forall>a. a \<notin> W \<longrightarrow> m' a = m a)"
  using vsprintf_loop_render [of f as out m fmt vl W buf 0 tmp] assms
  unfolding vsprintf_def by (auto simp: emits_def)

theorem vsprintf_ok_witness:
  "\<exists>m'. vsprintf sample_mem 2000 1000 100 500 = Some (m', 5) \<and> rd m' 1000 5 = bytes ''n=-7%'' \<and> m' 1005 = 0"
proof -
  have "\<exists>m'. vsprintf sample_mem 2000 1000 100 500 = Some (m', of_nat (length (bytes ''n=-7%'')))
    \<and> rd m' 1000 (length (bytes ''n=-7%'')) = bytes ''n=-7%'' \<and> m' (1000 + of_nat (length (bytes ''n=-7%''))) = 0
    \<and> (\<forall>a. a \<notin> region 1000 (length (bytes ''n=-7%'') + 1) \<union> region 2000 12 \<longrightarrow> m' a = sample_mem a)"
    by (rule vsprintf_ok [OF sample_render sample_fmt sample_args refl sample_apart]) simp_all
  then show ?thesis by (simp only: length_bytes) auto
qed

end
