(* ===== verification/Serial.thy ===== *)
theory Serial
  imports Ports Libc_Printf
begin

text \<open>
  The serial line of kernel/dev/serial.c on COM1. The transmitter is polled: a byte goes out
  when the line status says that the holding register is empty. That a poll ends is up to the
  UART; the hypothesis \<open>uart_ready\<close> says that it becomes ready at some time.
\<close>

section \<open>serial.c\<close>

definition SERIAL_DATA :: u16 where "SERIAL_DATA = 0x3F8"
definition SERIAL_INT :: u16 where "SERIAL_INT = 0x3F9"
definition SERIAL_FIFO :: u16 where "SERIAL_FIFO = 0x3FA"
definition SERIAL_LINE :: u16 where "SERIAL_LINE = 0x3FB"
definition SERIAL_LINESTAT :: u16 where "SERIAL_LINESTAT = 0x3FD"

record serial = machine +
  serial_enabled :: byte

text \<open>\<open>while((inb(SERIAL_LINESTAT) & bits)==0);\<close>\<close>

partial_function (option) serial_poll :: "hw \<Rightarrow> byte \<Rightarrow> 'a serial_scheme \<Rightarrow> 'a serial_scheme option" where
  "serial_poll hw bits s =
     (let (st, s) = inb hw SERIAL_LINESTAT s
      in if st AND bits = 0 then serial_poll hw bits s else Some s)"

partial_function (option) serial_send :: "hw \<Rightarrow> byte \<Rightarrow> 'a serial_scheme \<Rightarrow> 'a serial_scheme option" where
  "serial_send hw c s =
     (if serial_enabled s = 0 then Some s
      else do {
        s \<leftarrow> (if c = 0x0A then serial_send hw 0x0D s else Some s);
        s \<leftarrow> serial_poll hw 0x20 s;
        Some (outb SERIAL_DATA c s)
      })"

definition serial_read :: "hw \<Rightarrow> 'a serial_scheme \<Rightarrow> (byte \<times> 'a serial_scheme) option" where
  "serial_read hw s =
     (if serial_enabled s = 0 then Some (0, s)
      else do {
        s \<leftarrow> serial_poll hw 0x01 s;
        let (c, s) = inb hw SERIAL_DATA s;
        s \<leftarrow> serial_send hw c s;
        Some (c, s)
      })"

function serial_write_loop ::
  "hw \<Rightarrow> addr \<Rightarrow> u32 \<Rightarrow> u32 \<Rightarrow> 'a serial_scheme \<Rightarrow> (u32 \<times> 'a serial_scheme) option" where
  "serial_write_loop hw tmp len i s =
     (if i < len
      then do { s \<leftarrow> serial_send hw (mem s (tmp + i)) s; serial_write_loop hw tmp len (i + 1) s }
      else Some (i, s))"
  by pat_completeness auto
termination
proof (relation "measure (\<lambda>(hw, tmp, len, i, s). unat len - unat i)", goal_cases)
  case (2 hw tmp len i s s')
  then have "unat i < unat len" by (simp add: word_less_nat_alt)
  moreover from this have "unat (i + 1) = unat i + 1" using unat_lt32 [of len] by (simp add: unat_Suc32)
  ultimately show ?case by simp
qed simp

definition serial_write :: "hw \<Rightarrow> addr \<Rightarrow> u32 \<Rightarrow> 'a serial_scheme \<Rightarrow> (u32 \<times> 'a serial_scheme) option" where
  "serial_write hw buf len s = serial_write_loop hw buf len 0 s"

partial_function (option) serial_print_loop ::
  "hw \<Rightarrow> addr \<Rightarrow> 'a serial_scheme \<Rightarrow> (addr \<times> 'a serial_scheme) option" where
  "serial_print_loop hw str s =
     do {
       s \<leftarrow> serial_send hw (mem s str) s;
       if mem s (str + 1) \<noteq> 0 then serial_print_loop hw (str + 1) s else Some (str + 1, s)
     }"

definition serial_print :: "hw \<Rightarrow> addr \<Rightarrow> 'a serial_scheme \<Rightarrow> (u32 \<times> 'a serial_scheme) option" where
  "serial_print hw str s =
     (if mem s str = 0 \<or> str = 0 then Some (0, s)
      else do { r \<leftarrow> serial_print_loop hw str s; Some (fst r - str, snd r) })"

text \<open>The message of serial_init is a string of the kernel image, at the address \<open>msg\<close>.\<close>

definition serial_init :: "hw \<Rightarrow> addr \<Rightarrow> 'a serial_scheme \<Rightarrow> 'a serial_scheme option" where
  "serial_init hw msg s =
     (let s = outb SERIAL_INT 0 s; s = outb SERIAL_LINE 0x03 s; s = outb SERIAL_FIFO 0xC7 s;
          s = s\<lparr>serial_enabled := 1\<rparr>
      in if serial_enabled s \<noteq> 0 then do { r \<leftarrow> serial_print hw msg s; Some (snd r) } else None)"

text \<open>The local array \<open>buf\<close> and that of vsprintf, \<open>tmp\<close>, lie on the stack.\<close>

definition serial_printf ::
  "hw \<Rightarrow> addr \<Rightarrow> addr \<Rightarrow> addr \<Rightarrow> addr \<Rightarrow> 'a serial_scheme \<Rightarrow> (u32 \<times> 'a serial_scheme) option" where
  "serial_printf hw tmp buf fmt args s =
     do {
       r \<leftarrow> vsprintf (mem s) tmp buf fmt args;
       serial_print hw buf (s\<lparr>mem := fst r\<rparr>)
     }"

section \<open>Specification\<close>

text \<open>The trace after \<open>n\<close> reads of the line status, and a UART that becomes ready.\<close>

primrec polled :: "hw \<Rightarrow> nat \<Rightarrow> io_event list \<Rightarrow> io_event list" where
  "polled hw 0 tr = tr"
| "polled hw (Suc n) tr = polled hw n (tr @ [Inb SERIAL_LINESTAT (ucast (hw tr SERIAL_LINESTAT))])"

definition uart_ready :: "hw \<Rightarrow> byte \<Rightarrow> bool" where
  "uart_ready hw bits \<longleftrightarrow> (\<forall>tr. \<exists>n. (ucast (hw (polled hw n tr) SERIAL_LINESTAT) :: byte) AND bits \<noteq> 0)"

text \<open>What goes over the line for a text: a carriage return before every line feed.\<close>

fun crlf :: "byte list \<Rightarrow> byte list" where
  "crlf [] = []"
| "crlf (c # s) = (if c = 0x0A then [0x0D, 0x0A] else [c]) @ crlf s"

text \<open>The step from \<open>s\<close> to \<open>s'\<close> sends the bytes \<open>out\<close> and changes nothing but the trace.\<close>

definition sends :: "'a serial_scheme \<Rightarrow> 'a serial_scheme \<Rightarrow> byte list \<Rightarrow> bool" where
  "sends s s' out \<longleftrightarrow> (\<exists>tr. s' = s\<lparr>io := io s @ tr\<rparr> \<and> written SERIAL_DATA tr = out)"

section \<open>Lemmas\<close>

lemma sends_refl: "sends s s []"
  by (auto simp: sends_def intro!: exI [of _ "[]"])

lemma sends_trans: "sends s s1 x \<Longrightarrow> sends s1 s2 y \<Longrightarrow> sends s s2 (x @ y)"
  unfolding sends_def by (elim exE conjE) (rule exI, auto)

lemma sends_mem: "sends s s' out \<Longrightarrow> mem s' = mem s \<and> serial_enabled s' = serial_enabled s"
  by (auto simp: sends_def)

lemma serial_poll_ready:
  assumes "(ucast (hw (polled hw n (io s)) SERIAL_LINESTAT) :: byte) AND bits \<noteq> 0"
  shows "\<exists>s'. serial_poll hw bits s = Some s' \<and> sends s s' []"
  using assms
proof (induction n arbitrary: s)
  case 0
  then show ?case
    by (subst serial_poll.simps) (auto simp: inb_eq sends_def)
next
  case (Suc n)
  let ?v = "ucast (hw (io s) SERIAL_LINESTAT) :: byte"
  let ?s = "s\<lparr>io := io s @ [Inb SERIAL_LINESTAT ?v]\<rparr>"
  have one: "sends s ?s []" by (auto simp: sends_def)
  show ?case
  proof (cases "?v AND bits = 0")
    case True
    from Suc.IH [of ?s] Suc.prems obtain s' where "serial_poll hw bits ?s = Some s'" "sends ?s s' []" by auto
    with True sends_trans [OF one] show ?thesis by (subst serial_poll.simps) (auto simp: inb_eq)
  next
    case False
    with one show ?thesis by (subst serial_poll.simps) (auto simp: inb_eq)
  qed
qed

lemma serial_poll_ok: "uart_ready hw bits \<Longrightarrow> \<exists>s'. serial_poll hw bits s = Some s' \<and> sends s s' []"
  unfolding uart_ready_def using serial_poll_ready by blast

lemma serial_out: "sends s s' [] \<Longrightarrow> sends s (outb SERIAL_DATA c s') [c]"
  by (auto simp: sends_def outb_def)

lemma serial_send_raw:
  assumes "uart_ready hw 0x20" "serial_enabled s \<noteq> 0" "c \<noteq> 0x0A"
  shows "\<exists>s'. serial_send hw c s = Some s' \<and> sends s s' [c]"
proof -
  obtain s' where "serial_poll hw 0x20 s = Some s'" "sends s s' []" using serial_poll_ok [OF assms(1)] by blast
  with assms serial_out show ?thesis by (subst serial_send.simps) auto
qed

lemma serial_send_ok:
  assumes "uart_ready hw 0x20" "serial_enabled s \<noteq> 0"
  shows "\<exists>s'. serial_send hw c s = Some s' \<and> sends s s' (crlf [c])"
proof (cases "c = 0x0A")
  case True
  obtain s1 where s1: "serial_send hw 0x0D s = Some s1" "sends s s1 [0x0D]"
    using serial_send_raw [OF assms, of "0x0D"] by auto
  obtain s2 where s2: "serial_poll hw 0x20 s1 = Some s2" "sends s1 s2 []" using serial_poll_ok [OF assms(1)] by blast
  have "serial_send hw c s = Some (outb SERIAL_DATA c s2)"
    using assms(2) True s1(1) s2(1) by (subst serial_send.simps) simp
  with sends_trans [OF s1(2) serial_out [OF s2(2)]] True show ?thesis by auto
qed (use serial_send_raw [OF assms] in simp)

lemma serial_print_loop_ok:
  assumes "uart_ready hw 0x20"
  shows "cstr (mem s) p (c # t) \<Longrightarrow> serial_enabled s \<noteq> 0 \<Longrightarrow>
    \<exists>s'. serial_print_loop hw p s = Some (p + of_nat (length (c # t)), s') \<and> sends s s' (crlf (c # t))"
proof (induction t arbitrary: s p c)
  case (Cons d t)
  obtain s1 where s1: "serial_send hw c s = Some s1" "sends s s1 (crlf [c])"
    using serial_send_ok [OF assms Cons.prems(2)] by blast
  have st: "mem s1 = mem s" "serial_enabled s1 \<noteq> 0" using sends_mem [OF s1(2)] Cons.prems(2) by auto
  obtain s' where s': "serial_print_loop hw (p + 1) s1 = Some (p + 1 + of_nat (length (d # t)), s')"
    "sends s1 s' (crlf (d # t))" using Cons.IH [of s1 "p + 1" d] Cons.prems(1) st by auto
  have "serial_print_loop hw p s = Some (p + of_nat (length (c # d # t)), s')"
    using s1(1) s' Cons.prems(1) st by (subst serial_print_loop.simps) (simp add: add.assoc)
  with sends_trans [OF s1(2) s'(2)] show ?case by auto
next
  case Nil
  obtain s1 where "serial_send hw c s = Some s1" "sends s s1 (crlf [c])"
    using serial_send_ok [OF assms Nil.prems(2)] by blast
  with Nil.prems sends_mem [of s s1] show ?case by (subst serial_print_loop.simps) auto
qed

lemma serial_print_sends:
  assumes "uart_ready hw 0x20" "serial_enabled s \<noteq> 0" "cstr (mem s) p t" "p \<noteq> 0"
  shows "\<exists>s'. serial_print hw p s = Some (of_nat (length t), s') \<and> sends s s' (crlf t)"
proof (cases t)
  case Nil
  with assms sends_refl show ?thesis by (auto simp: serial_print_def)
next
  case (Cons c u)
  with serial_print_loop_ok [OF assms(1) _ assms(2), of p c u] assms(3,4)
  show ?thesis by (auto simp: serial_print_def)
qed

lemma crlf_append: "crlf (s @ t) = crlf s @ crlf t"
  by (induction s) auto

declare serial_write_loop.simps [simp del]

lemma serial_write_loop_ok:
  assumes "uart_ready hw 0x20"
  shows "serial_enabled s \<noteq> 0 \<Longrightarrow> i \<le> len \<Longrightarrow> n = unat len - unat i \<Longrightarrow>
    \<exists>s'. serial_write_loop hw tmp len i s = Some (len, s') \<and> sends s s' (crlf (rd (mem s) (tmp + i) n))"
proof (induction n arbitrary: i s)
  case 0
  then have "i = len" by (simp add: word_le_nat_alt word_unat_eq_iff)
  then show ?case using sends_refl by (subst serial_write_loop.simps) auto
next
  case (Suc n)
  then have i: "i < len" by (simp add: word_less_nat_alt)
  then have u: "unat (i + 1) = unat i + 1"
    using unat_lt32 [of len] by (simp add: unat_Suc32 word_less_nat_alt)
  obtain s1 where s1: "serial_send hw (mem s (tmp + i)) s = Some s1" "sends s s1 (crlf [mem s (tmp + i)])"
    using serial_send_ok [OF assms Suc.prems(1)] by blast
  have st: "mem s1 = mem s" "serial_enabled s1 \<noteq> 0" using sends_mem [OF s1(2)] Suc.prems(1) by auto
  obtain s' where s': "serial_write_loop hw tmp len (i + 1) s1 = Some (len, s')"
    "sends s1 s' (crlf (rd (mem s1) (tmp + (i + 1)) n))"
  proof -
    have "i + 1 \<le> len" using u i by (simp add: word_le_nat_alt word_less_nat_alt)
    moreover have "n = unat len - unat (i + 1)" using u Suc.prems(3) by simp
    ultimately show ?thesis using Suc.IH [OF st(2)] that by blast
  qed
  have "serial_write_loop hw tmp len i s = Some (len, s')"
    using i s1(1) s'(1) by (subst serial_write_loop.simps) simp
  with sends_trans [OF s1(2) s'(2)] st show ?case by (auto simp: add.assoc)
qed

section \<open>Properties\<close>

text \<open>
  serial_print. When the line is enabled and the UART becomes ready again and again, the call
  ends, the bytes of the string go out in order with a carriage return before each line feed, and
  the result is the length of the string.
\<close>

lemma serial_print_ok:
  assumes "uart_ready hw 0x20" and "serial_enabled s \<noteq> 0" and "cstr (mem s) p t" and "p \<noteq> 0"
  shows "\<exists>s'. serial_print hw p s = Some (of_nat (length t), s') \<and> sends s s' (crlf t)"
  by (rule serial_print_sends [OF assms])

text \<open>A UART that is ready at every second read of its status.\<close>

definition slow_uart :: hw where
  "slow_uart tr port = (if port = SERIAL_LINESTAT \<and> odd (length tr) then 0x20 else 0)"

lemma slow_uart_ready: "uart_ready slow_uart 0x20"
  unfolding uart_ready_def
proof
  fix tr :: "io_event list"
  show "\<exists>n. (ucast (slow_uart (polled slow_uart n tr) SERIAL_LINESTAT) :: byte) AND 0x20 \<noteq> 0"
    by (rule exI [of _ "if odd (length tr) then 0 else 1"]) (auto simp: slow_uart_def)
qed

lemma serial_print_ok_example:
  "\<exists>s'. serial_print slow_uart 100 \<lparr>mem = wr (\<lambda>_. 0) 100 [79, 75, 10], errno = 0, log = [], io = [], serial_enabled = 1\<rparr>
     = Some (3, s') \<and> written SERIAL_DATA (io s') = [79, 75, 13, 10]"
  using serial_print_ok [of slow_uart "\<lparr>mem = wr (\<lambda>_. 0) 100 [79, 75, 10], errno = 0, log = [], io = [], serial_enabled = 1\<rparr>"
    100 "[79, 75, 10]"] slow_uart_ready
  by (auto simp: sends_def)

text \<open>
  serial_write sends the bytes of the buffer, with a carriage return before each line feed.
\<close>

lemma serial_write_ok:
  assumes "uart_ready hw 0x20" and "serial_enabled s \<noteq> 0"
  shows "\<exists>s'. serial_write hw buf len s = Some (len, s') \<and> sends s s' (crlf (rd (mem s) buf (unat len)))"
  using serial_write_loop_ok [OF assms(1,2), of 0 len "unat len" buf] by (simp add: serial_write_def)

text \<open>
  C35: serial_printf. The text that the format and its arguments stand for goes out over the line.
\<close>

theorem serial_printf_ok:
  assumes "uart_ready hw 0x20" and "serial_enabled s \<noteq> 0" and "buf \<noteq> 0"
    and "render f as = Some out" and "0 \<notin> set out" and "cstr (mem s) fmt f" and "args_at (mem s) vl as"
    and W: "W = region buf (length out + 1) \<union> region tmp 12"
    and "region fmt (length f + 1) \<inter> W = {}" and "foot (mem s) vl as \<inter> W = {}"
    and "region buf (length out + 1) \<inter> region tmp 12 = {}" and "length out + 1 \<le> 2 ^ 32"
    and "0 < unat tmp" "unat tmp + 12 < 2 ^ 32"
  shows "\<exists>s' m. serial_printf hw tmp buf fmt vl s = Some (of_nat (length out), s')
    \<and> sends (s\<lparr>mem := m\<rparr>) s' (crlf out) \<and> (\<forall>a. a \<notin> W \<longrightarrow> m a = mem s a)"
proof -
  obtain m where m: "vsprintf_loop (mem s) tmp buf fmt vl 0 = Some (m, of_nat (length out))"
    "emits (mem s) m buf out (region tmp 12)" "m (buf + of_nat (length out)) = 0"
    using vsprintf_loop_render [of f as out "mem s" fmt vl W buf 0 tmp] assms by auto
  have "cstr m buf out" using m(2,3) assms(5) by (simp add: cstr_iff emits_def)
  then obtain s' where "serial_print hw buf (s\<lparr>mem := m\<rparr>) = Some (of_nat (length out), s')"
    "sends (s\<lparr>mem := m\<rparr>) s' (crlf out)"
    using serial_print_sends [OF assms(1), of "s\<lparr>mem := m\<rparr>" buf out] assms(2,3) by auto
  with m show ?thesis
    by (intro exI [of _ s'] exI [of _ m]) (auto simp: serial_printf_def vsprintf_def emits_def W)
qed

theorem serial_printf_ok_witness:
  "\<exists>s'. serial_printf slow_uart 2000 1000 100 500
       \<lparr>mem = sample_mem, errno = 0, log = [], io = [], serial_enabled = 1\<rparr> = Some (5, s')
     \<and> written SERIAL_DATA (io s') = bytes ''n=-7%''"
proof -
  let ?s = "\<lparr>mem = sample_mem, errno = 0, log = [], io = [], serial_enabled = 1\<rparr> :: serial"
  have "\<exists>s' m. serial_printf slow_uart 2000 1000 100 500 ?s = Some (of_nat (length (bytes ''n=-7%'')), s')
    \<and> sends (?s\<lparr>mem := m\<rparr>) s' (crlf (bytes ''n=-7%''))
    \<and> (\<forall>a. a \<notin> region 1000 (length (bytes ''n=-7%'') + 1) \<union> region 2000 12 \<longrightarrow> m a = mem ?s a)"
    by (rule serial_printf_ok [OF slow_uart_ready _ _ sample_render _ _ _ refl])
      (use sample_fmt sample_args sample_apart in \<open>simp_all add: bytes_def\<close>)
  then show ?thesis by (auto simp: sends_def bytes_def)
qed

end
