(* ===== verification/Kmalloc.thy ===== *)
theory Kmalloc
  imports Serial
begin

text \<open>
  The kernel heap of kernel/kmalloc.c. A block is a 16-byte header (used, size, prev, next)
  followed by its data; the blocks form a doubly linked list that starts at HEAP_BASE. The
  headers live in the flat memory next to the data they describe, so every store of the
  allocator is a store of the model, one that goes through a NULL pointer included.
\<close>

section \<open>Constants and the header of a block\<close>

definition HEAP_BASE :: addr where "HEAP_BASE = 0x400000"
definition HEAP_SIZE :: u32 where "HEAP_SIZE = 0x400000"
definition BLOCKSIZ :: u32 where "BLOCKSIZ = 16"
definition EINVAL :: u32 where "EINVAL = 22"
definition ENOMEM :: u32 where "ENOMEM = 12"

definition blk_used :: "mem \<Rightarrow> addr \<Rightarrow> u32" where "blk_used m b = ld32 m b"
definition blk_size :: "mem \<Rightarrow> addr \<Rightarrow> u32" where "blk_size m b = ld32 m (b + 4)"
definition blk_prev :: "mem \<Rightarrow> addr \<Rightarrow> addr" where "blk_prev m b = ld32 m (b + 8)"
definition blk_next :: "mem \<Rightarrow> addr \<Rightarrow> addr" where "blk_next m b = ld32 m (b + 12)"
definition blk_data :: "addr \<Rightarrow> addr" where "blk_data b = b + 16"

definition set_used :: "mem \<Rightarrow> addr \<Rightarrow> u32 \<Rightarrow> mem" where "set_used m b v = st32 m b v"
definition set_size :: "mem \<Rightarrow> addr \<Rightarrow> u32 \<Rightarrow> mem" where "set_size m b v = st32 m (b + 4) v"
definition set_prev :: "mem \<Rightarrow> addr \<Rightarrow> addr \<Rightarrow> mem" where "set_prev m b v = st32 m (b + 8) v"
definition set_next :: "mem \<Rightarrow> addr \<Rightarrow> addr \<Rightarrow> mem" where "set_next m b v = st32 m (b + 12) v"

text \<open>The static variable \<open>root\<close> of the allocator.\<close>

record heap = serial +
  root :: addr

text \<open>The messages of the allocator.\<close>

definition new_block_msg :: "addr \<Rightarrow> event" where
  "new_block_msg p = Serial_printf (''[kmalloc] allocated new block at 0x%x'' @ nl) [ArgW p]"

definition released_msg :: "u32 \<Rightarrow> event" where
  "released_msg n = Serial_printf (''[kmalloc] %d bytes released'' @ nl) [ArgW n]"

definition block_msg :: "addr \<Rightarrow> u32 \<Rightarrow> u32 \<Rightarrow> event" where
  "block_msg b used sz =
     Printf (''block at 0x%x: used=%d, size=%d'' @ nl) [ArgW b, ArgW used, ArgW sz]"

section \<open>merge and split\<close>

definition merge :: "mem \<Rightarrow> addr \<Rightarrow> mem" where
  "merge m blk =
     (if blk_next m blk \<noteq> 0 \<and> blk_used m (blk_next m blk) = 0
      then let m1 = set_size m blk (blk_size m blk + (BLOCKSIZ + blk_size m (blk_next m blk)));
               m2 = set_next m1 blk (blk_next m1 (blk_next m1 blk));
               m3 = set_prev m2 (blk_next m2 blk) blk
           in m3
      else m)"

definition split_block :: "mem \<Rightarrow> addr \<Rightarrow> u32 \<Rightarrow> mem option" where
  "split_block m blk sz =
     (if blk = 0 then None
      else let delta = blk_size m blk - sz; new = blk_data blk + sz
           in if blk_next m blk = 0 \<or> delta \<le> BLOCKSIZ + 8 then Some m
              else let m1 = set_next m new (blk_next m blk);
                       m2 = set_size m1 new (blk_next m1 new - blk_data new);
                       m3 = set_prev m2 (blk_next m2 new) new;
                       m4 = set_prev m3 new blk;
                       m5 = set_used m4 new 0;
                       m6 = set_next m5 blk new;
                       m7 = set_size m6 blk sz
                   in Some m7)"

section \<open>lookup\<close>

text \<open>
  The C code takes the address of a pointer, \<open>&root\<close> or \<open>&blk->next\<close>, and reads
  and writes the pointer through it; \<open>slot\<close> and \<open>set_slot\<close> are these accesses.
\<close>

definition slot :: "'a heap_scheme \<Rightarrow> addr \<Rightarrow> addr" where
  "slot s blk = (if blk = 0 then root s else blk_next (mem s) blk)"

definition set_slot :: "'a heap_scheme \<Rightarrow> addr \<Rightarrow> addr \<Rightarrow> 'a heap_scheme" where
  "set_slot s blk v =
     (if blk = 0 then s\<lparr>root := v\<rparr> else s\<lparr>mem := set_next (mem s) blk v\<rparr>)"

text \<open>The branch for an empty slot: a new block behind \<open>blk\<close>.\<close>

definition lookup_new :: "'a heap_scheme \<Rightarrow> addr \<Rightarrow> u32 \<Rightarrow> u32 \<Rightarrow> 'a heap_scheme" where
  "lookup_new s blk sz align =
     (let x = push_bit (unat align) 0xFFFFFFFF;
          ax = push_bit (unat align) 1;
          s1 = set_slot s blk (blk + BLOCKSIZ + blk_size (mem s) blk);
          s2 = (if align \<noteq> 0 \<and> blk_data (slot s1 blk) mod ax \<noteq> 0
                then let t1 = set_slot s1 blk (slot s1 blk AND x);
                         t2 = set_slot t1 blk (slot t1 blk + ax - BLOCKSIZ)
                     in t2\<lparr>mem := set_size (mem t2) blk (slot t2 blk - blk_data blk)\<rparr>
                else s1);
          s3 = say (new_block_msg (blk_data (slot s2 blk))) s2;
          s4 = s3\<lparr>mem := set_prev (mem s3) (slot s3 blk) blk\<rparr>
      in s4\<lparr>mem := set_size (mem s4) (slot s4 blk) sz\<rparr>)"

partial_function (option) lookup ::
  "'a heap_scheme \<Rightarrow> addr \<Rightarrow> u32 \<Rightarrow> u32 \<Rightarrow> (addr \<times> 'a heap_scheme) option" where
  "lookup s blk sz align =
     (let ax = push_bit (unat align) 1;
          s = (if slot s blk = 0 then lookup_new s blk sz align else s);
          p = slot s blk
      in if sz \<le> blk_size (mem s) p \<and> blk_used (mem s) p = 0
         then if align \<noteq> 0 \<and> blk_data p mod ax \<noteq> 0 then lookup s p sz align
              else do {
                m \<leftarrow> split_block (set_used (mem s) p 1) p sz;
                let s = s\<lparr>mem := m\<rparr> in Some (slot s blk, s)
              }
         else if blk_size (mem s) p = 0 \<and> align = 0
         then let s = s\<lparr>mem := set_used (set_size (mem s) p sz) p 1\<rparr> in Some (slot s blk, s)
         else lookup s p sz align)"

section \<open>kmalloc and kfree\<close>

definition round8 :: "u32 \<Rightarrow> u32" where
  "round8 sz = (if sz AND 7 \<noteq> 0 then push_bit 3 (drop_bit 3 sz + 1) else sz)"

definition kmalloca :: "'a heap_scheme \<Rightarrow> u32 \<Rightarrow> u32 \<Rightarrow> (addr \<times> 'a heap_scheme) option" where
  "kmalloca s sz align =
     (if root s = 0 then None
      else if sz = 0 then Some (0, s\<lparr>errno := EINVAL\<rparr>)
      else do {
        r \<leftarrow> lookup s 0 (round8 sz) align;
        case r of (ptr, s) \<Rightarrow>
          let s = (if ptr = 0 then s\<lparr>errno := ENOMEM\<rparr> else s) in Some (blk_data ptr, s)
      })"

definition kmalloc :: "'a heap_scheme \<Rightarrow> u32 \<Rightarrow> (addr \<times> 'a heap_scheme) option" where
  "kmalloc s sz = kmalloca s sz 0"

definition kfree :: "'a heap_scheme \<Rightarrow> addr \<Rightarrow> 'a heap_scheme option" where
  "kfree s ptr =
     (if \<not> HEAP_BASE < ptr then None
      else let blk = ptr - BLOCKSIZ;
               m1 = set_used (mem s) blk 0;
               m2 = (if blk_prev m1 blk \<noteq> 0 \<and> blk_used m1 (blk_prev m1 blk) = 0
                     then merge m1 (blk_prev m1 blk) else m1);
               m3 = merge m2 blk
           in Some (say (released_msg (blk_size m3 blk))
                (s\<lparr>mem := m3\<rparr>)))"

section \<open>The report of the shell's mem command\<close>

partial_function (option) do_block :: "'a heap_scheme \<Rightarrow> addr \<Rightarrow> 'a heap_scheme option" where
  "do_block s blk =
     (let s = say (block_msg blk (blk_used (mem s) blk) (blk_size (mem s) blk)) s
      in if blk_next (mem s) blk \<noteq> 0 then do_block s (blk_next (mem s) blk) else Some s)"

definition kmalloc_info :: "'a heap_scheme \<Rightarrow> 'a heap_scheme option" where
  "kmalloc_info s = do_block s (root s)"

end
