(* ===== verification/Kmalloc_Blocks.thy ===== *)
theory Kmalloc_Blocks
  imports Kmalloc
begin

text \<open>
  The linked list of kernel/kmalloc.c as a list of blocks: \<open>chain\<close> says that the headers in
  memory are those of an abstract list of (used, size) pairs, and each operation of the
  allocator on memory is shown to be an operation on that list: split_block is \<open>carve\<close>,
  lookup is \<open>aalloc\<close>, merge and kfree are \<open>absorb\<close> and \<open>afree\<close>.
\<close>

section \<open>Definitions\<close>

text \<open>
  The blocks lie one behind the other, so a heap is a list of pairs (used, size): the
  address of a block is the address of the list plus what comes before it.
\<close>

type_synonym ablock = "bool \<times> nat"

fun ext :: "ablock list \<Rightarrow> nat" where
  "ext [] = 0"
| "ext ((u, n) # bs) = 16 + n + ext bs"

text \<open>The headers of the blocks in memory, linked in both directions.\<close>

fun chain :: "mem \<Rightarrow> addr \<Rightarrow> addr \<Rightarrow> ablock list \<Rightarrow> bool" where
  "chain m pv a [] \<longleftrightarrow> True"
| "chain m pv a ((u, n) # bs) \<longleftrightarrow>
     blk_used m a = of_bool u \<and> blk_size m a = of_nat n \<and> blk_prev m a = pv \<and>
     blk_next m a = (if bs = [] then 0 else a + 16 + of_nat n) \<and>
     chain m a (a + 16 + of_nat n) bs"

text \<open>The bytes of the headers: all that the allocator may write in a well-formed heap.\<close>

fun hdrs :: "addr \<Rightarrow> ablock list \<Rightarrow> addr set" where
  "hdrs a [] = {}"
| "hdrs a ((u, n) # bs) = region a 16 \<union> hdrs (a + 16 + of_nat n) bs"

text \<open>split: a block keeps \<open>n\<close> bytes, and the rest becomes a block if it is worth a header.\<close>

definition carve :: "bool \<Rightarrow> nat \<Rightarrow> nat \<Rightarrow> ablock list \<Rightarrow> ablock list" where
  "carve u n sz bs =
     (if bs = [] \<or> sz - n \<le> 24 then (u, sz) # bs else (u, n) # (False, sz - n - 16) # bs)"

text \<open>
  Alignment: the data of the block at \<open>t\<close> is aligned to \<open>2 ^ k\<close>; the bytes a new block is moved
  up for it; and the condition under which the code moves it up at all: lookup puts the header
  in the 16 bytes below the next multiple of \<open>2 ^ k\<close>, and when fewer bytes than that are left
  between \<open>t\<close> and the multiple, it moves the block down, into the block before it.
\<close>

definition aligned :: "nat \<Rightarrow> nat \<Rightarrow> bool" where
  "aligned k t \<longleftrightarrow> k = 0 \<or> 2 ^ k dvd (t + 16)"

definition pad :: "nat \<Rightarrow> nat \<Rightarrow> nat" where
  "pad k t = (if aligned k t then 0 else (t div 2 ^ k + 1) * 2 ^ k - 16 - t)"

definition pad_ok :: "nat \<Rightarrow> nat \<Rightarrow> bool" where
  "pad_ok k t \<longleftrightarrow> aligned k t \<or> t + 16 \<le> (t div 2 ^ k + 1) * 2 ^ k"

text \<open>lookup: first fit, else a new block at the end.\<close>

fun aalloc :: "nat \<Rightarrow> nat \<Rightarrow> nat \<Rightarrow> ablock list \<Rightarrow> nat \<times> ablock list" where
  "aalloc k n a [] = (a, [])"
| "aalloc k n a ((u, sz) # bs) =
     (if \<not> u \<and> n \<le> sz \<and> aligned k a then (a, carve True n sz bs)
      else if sz = 0 \<and> k = 0 then (a, (True, n) # bs)
      else if bs = [] then let p = a + 16 + sz; d = pad k p in (p + d, [(u, sz + d), (True, n)])
      else let (p, cs) = aalloc k n (a + 16 + sz) bs in (p, (u, sz) # cs))"

text \<open>Only the last block may be empty: an empty block is a free slot for lookup.\<close>

definition nonzero_sizes :: "ablock list \<Rightarrow> bool" where
  "nonzero_sizes bs \<longleftrightarrow> (\<forall>b \<in> set (butlast bs). snd b \<noteq> 0)"

text \<open>kfree: a freed block with what follows it, and with what is before it.\<close>

definition absorb :: "nat \<Rightarrow> ablock list \<Rightarrow> ablock list" where
  "absorb n post = (case post of (False, k) # bs \<Rightarrow> (False, n + 16 + k) # bs | _ \<Rightarrow> (False, n) # post)"

definition afree :: "ablock list \<Rightarrow> nat \<Rightarrow> ablock list \<Rightarrow> ablock list" where
  "afree pre n post =
     (if pre \<noteq> [] \<and> \<not> fst (last pre) then butlast pre @ (False, snd (last pre) + 16 + n) # post
      else pre @ absorb n post)"

definition free_head :: "ablock list \<Rightarrow> bool" where
  "free_head bs = (case bs of (False, n) # cs \<Rightarrow> True | _ \<Rightarrow> False)"

section \<open>Header fields\<close>

lemmas hdr_defs = blk_used_def blk_size_def blk_prev_def blk_next_def
  set_used_def set_size_def set_prev_def set_next_def

lemma hdr_same [simp]:
  "blk_used (set_used m b v) b = v" "blk_used (set_size m b v) b = blk_used m b"
  "blk_used (set_prev m b v) b = blk_used m b" "blk_used (set_next m b v) b = blk_used m b"
  "blk_size (set_used m b v) b = blk_size m b" "blk_size (set_size m b v) b = v"
  "blk_size (set_prev m b v) b = blk_size m b" "blk_size (set_next m b v) b = blk_size m b"
  "blk_prev (set_used m b v) b = blk_prev m b" "blk_prev (set_size m b v) b = blk_prev m b"
  "blk_prev (set_prev m b v) b = v" "blk_prev (set_next m b v) b = blk_prev m b"
  "blk_next (set_used m b v) b = blk_next m b" "blk_next (set_size m b v) b = blk_next m b"
  "blk_next (set_prev m b v) b = blk_next m b" "blk_next (set_next m b v) b = v"
  by (simp_all add: hdr_defs ld32_st32_other sep_def)

lemma ld32_st32_far:
  assumes "sep b 16 c 16" "i \<le> 12" "j \<le> 12"
  shows "ld32 (st32 m (c + of_nat j) v) (b + of_nat i) = ld32 m (b + of_nat i)"
proof (rule ld32_st32_other)
  have "sep (b + of_nat i) 4 c 16" by (rule sep_offset [OF assms(1)]) (use assms in auto)
  from sep_sym [OF this] have "sep (c + of_nat j) 4 (b + of_nat i) 4"
    using assms by (intro sep_offset [where n = 16]) auto
  then show "sep (b + of_nat i) 4 (c + of_nat j) 4" by (rule sep_sym)
qed

lemma hdr_far [simp]:
  assumes "sep b 16 c 16"
  shows "blk_used (set_used m c v) b = blk_used m b" "blk_used (set_size m c v) b = blk_used m b"
    "blk_used (set_prev m c v) b = blk_used m b" "blk_used (set_next m c v) b = blk_used m b"
    "blk_size (set_used m c v) b = blk_size m b" "blk_size (set_size m c v) b = blk_size m b"
    "blk_size (set_prev m c v) b = blk_size m b" "blk_size (set_next m c v) b = blk_size m b"
    "blk_prev (set_used m c v) b = blk_prev m b" "blk_prev (set_size m c v) b = blk_prev m b"
    "blk_prev (set_prev m c v) b = blk_prev m b" "blk_prev (set_next m c v) b = blk_prev m b"
    "blk_next (set_used m c v) b = blk_next m b" "blk_next (set_size m c v) b = blk_next m b"
    "blk_next (set_prev m c v) b = blk_next m b" "blk_next (set_next m c v) b = blk_next m b"
  using ld32_st32_far [OF assms, of 0 0] ld32_st32_far [OF assms, of 0 4]
    ld32_st32_far [OF assms, of 0 8] ld32_st32_far [OF assms, of 0 12]
    ld32_st32_far [OF assms, of 4 0] ld32_st32_far [OF assms, of 4 4]
    ld32_st32_far [OF assms, of 4 8] ld32_st32_far [OF assms, of 4 12]
    ld32_st32_far [OF assms, of 8 0] ld32_st32_far [OF assms, of 8 4]
    ld32_st32_far [OF assms, of 8 8] ld32_st32_far [OF assms, of 8 12]
    ld32_st32_far [OF assms, of 12 0] ld32_st32_far [OF assms, of 12 4]
    ld32_st32_far [OF assms, of 12 8] ld32_st32_far [OF assms, of 12 12]
  by (simp_all add: hdr_defs)

lemma set_hdr_frame [frame]:
  assumes "x \<notin> region b 16"
  shows "set_used m b v x = m x" "set_size m b v x = m x"
    "set_prev m b v x = m x" "set_next m b v x = m x"
  using assms region_sub [of 0 4 16 b] region_sub [of 4 4 16 b] region_sub [of 8 4 16 b]
    region_sub [of 12 4 16 b]
  by (auto simp: hdr_defs intro!: st32_frame)

lemma hdr_cong:
  assumes "\<And>x. x \<in> region b 16 \<Longrightarrow> m' x = m x"
  shows "blk_used m' b = blk_used m b" "blk_size m' b = blk_size m b"
    "blk_prev m' b = blk_prev m b" "blk_next m' b = blk_next m b"
  using assms region_sub [of 0 4 16 b] region_sub [of 4 4 16 b] region_sub [of 8 4 16 b]
    region_sub [of 12 4 16 b]
  by (auto simp: hdr_defs intro!: ld32_cong)

section \<open>Chains\<close>

lemma ext_append [simp]: "ext (xs @ ys) = ext xs + ext ys"
  by (induction xs rule: ext.induct) auto

lemma ext_pos: "bs \<noteq> [] \<Longrightarrow> 16 \<le> ext bs"
  by (cases bs rule: ext.cases) auto

lemma chain_cong:
  "chain m pv a bs \<Longrightarrow> (\<And>x. x \<in> region a (ext bs) \<Longrightarrow> m' x = m x) \<Longrightarrow> ext bs \<le> 2 ^ 32 \<Longrightarrow>
   chain m' pv a bs"
proof (induction m pv a bs rule: chain.induct)
  case (2 m pv a u n bs)
  have hd: "m' x = m x" if "x \<in> region a 16" for x
    using that "2.prems"(2) region_mono [of 16 "ext ((u, n) # bs)" a] by auto
  have "chain m' a (a + 16 + of_nat n) bs"
  proof (rule "2.IH")
    have "region (a + of_nat (16 + n)) (ext bs) \<subseteq> region a (ext ((u, n) # bs))"
      using "2.prems"(3) by (intro region_sub) auto
    then show "m' x = m x" if "x \<in> region (a + 16 + of_nat n) (ext bs)" for x
      using that "2.prems"(2) by (auto simp: add.assoc)
  qed (use "2.prems" in auto)
  with "2.prems"(1) hdr_cong [OF hd] show ?case by simp
qed simp

lemma chain_hdrs_cong:
  "chain m pv a bs \<Longrightarrow> \<forall>x \<in> hdrs a bs. m' x = m x \<Longrightarrow> chain m' pv a bs"
proof (induction m pv a bs rule: chain.induct)
  case (2 m pv a u n bs)
  have hd: "m' x = m x" if "x \<in> region a 16" for x using that "2.prems"(2) by simp
  have "chain m' a (a + 16 + of_nat n) bs" using 2 by simp
  with "2.prems"(1) hdr_cong [OF hd] show ?case by simp
qed simp

text \<open>A block and what follows it.\<close>

lemma unat_next:
  fixes a :: addr
  assumes "unat a + ext ((u, n) # bs) \<le> 2 ^ 32" and "bs \<noteq> []"
  shows "unat (a + 16 + of_nat n) = unat a + 16 + n"
  using assms ext_pos [of bs] unat_add_of_nat32 [of a "16 + n"] by (simp add: add.assoc)

lemma sep_next:
  assumes "unat a + ext ((u, n) # bs) \<le> 2 ^ 32" and "bs \<noteq> []"
  shows "sep a 16 (a + 16 + of_nat n) (ext bs)"
  using assms unat_next [OF assms] by (intro sep_below) auto

text \<open>A store to a header outside the chain's extent leaves the chain alone.\<close>

lemma chain_set_far:
  assumes "chain m pv a bs" and "sep b 16 a (ext bs)" and "ext bs \<le> 2 ^ 32"
  shows "chain (set_used m b v) pv a bs" "chain (set_size m b v) pv a bs"
    "chain (set_prev m b v) pv a bs" "chain (set_next m b v) pv a bs"
proof -
  have "x \<notin> region b 16" if "x \<in> region a (ext bs)" for x
    using that sep_region [OF assms(2)] by blast
  note fr = set_hdr_frame [OF this, of _ m]
  show "chain (set_used m b v) pv a bs" by (rule chain_cong [OF assms(1) _ assms(3)], rule fr(1))
  show "chain (set_size m b v) pv a bs" by (rule chain_cong [OF assms(1) _ assms(3)], rule fr(2))
  show "chain (set_prev m b v) pv a bs" by (rule chain_cong [OF assms(1) _ assms(3)], rule fr(3))
  show "chain (set_next m b v) pv a bs" by (rule chain_cong [OF assms(1) _ assms(3)], rule fr(4))
qed

lemma chain_tail_far:
  assumes "chain m a (a + 16 + of_nat n) bs" and "unat a + ext ((u, n) # bs) \<le> 2 ^ 32"
  shows "chain (set_used m a v) a (a + 16 + of_nat n) bs" "chain (set_size m a v) a (a + 16 + of_nat n) bs"
    "chain (set_prev m a v) a (a + 16 + of_nat n) bs" "chain (set_next m a v) a (a + 16 + of_nat n) bs"
  using assms chain_set_far [OF assms(1) sep_next [OF assms(2)]] by (cases "bs = []"; auto)+

lemma chain_set_prev:
  assumes "chain m pv a bs" and "bs \<noteq> []" and "unat a + ext bs \<le> 2 ^ 32"
  shows "chain (set_prev m a pv') pv' a bs"
proof -
  obtain u n cs where bs: "bs = (u, n) # cs" using assms(2) by (cases bs rule: ext.cases) auto
  with assms show ?thesis by (auto intro!: chain_tail_far)
qed

lemma ext_carve: "n \<le> sz \<Longrightarrow> ext (carve u n sz bs) = ext ((u, sz) # bs)"
  by (auto simp: carve_def)

lemma hdrs_head: "bs \<noteq> [] \<Longrightarrow> region a 16 \<subseteq> hdrs a bs"
  by (cases bs rule: ext.cases) auto

lemma split_block_refines:
  assumes a: "a \<noteq> 0" and ch: "chain m pv a ((u, sz) # bs)" and n: "n \<le> sz"
    and bound: "unat a + ext ((u, sz) # bs) \<le> 2 ^ 32"
  shows "\<exists>m'. split_block m a (of_nat n) = Some m' \<and> chain m' pv a (carve u n sz bs)
    \<and> (\<forall>x. x \<notin> hdrs a (carve u n sz bs) \<longrightarrow> m' x = m x)"
proof -
  have "unat (of_nat sz - of_nat n :: u32) = sz - n"
    using n bound by (simp add: unat_minus32 unat_of_nat32)
  then have delta: "blk_size m a - of_nat n \<le> BLOCKSIZ + 8 \<longleftrightarrow> sz - n \<le> 24"
    using ch by (simp add: word_le_nat_alt BLOCKSIZ_def)
  show ?thesis
  proof (cases "bs = [] \<or> sz - n \<le> 24")
    case True
    then have "split_block m a (of_nat n) = Some m"
      using ch delta a by (auto simp: split_block_def Let_def)
    with True ch show ?thesis by (simp add: carve_def)
  next
    case False
    let ?new = "a + 16 + of_nat n" and ?nx = "a + 16 + of_nat sz"
    define d where "d = sz - n - 16"
    let ?bs = "(u, n) # (False, d) # bs"
    have bs: "bs \<noteq> []" "24 < sz - n" using False by auto
    have d: "sz = n + (16 + d)" using bs n by (simp add: d_def)
    then have nx: "?new + 16 + of_nat d = ?nx" by simp
    have b1: "unat a + ext ?bs \<le> 2 ^ 32" using bound d by simp
    have un: "unat ?new = unat a + 16 + n" by (rule unat_next [OF b1]) simp
    have b2: "unat ?new + ext ((False, d) # bs) \<le> 2 ^ 32" using b1 un by simp
    have unx: "unat ?nx = unat a + 16 + sz" by (rule unat_next [OF bound bs(1)])
    have "sep ?new 16 ?nx (ext bs)" using sep_next [OF b2 bs(1)] by (simp only: nx)
    moreover have "sep a 16 ?nx (ext bs)" by (rule sep_next [OF bound bs(1)])
    moreover have "sep a 16 ?new 16" using un b1 by (intro sep_below) auto
    ultimately have sp: "sep ?new 16 ?nx (ext bs)" "sep a 16 ?nx (ext bs)" "sep a 16 ?new 16"
      "sep ?new 16 a 16" "sep ?new 16 ?nx 16" "sep a 16 ?nx 16" "sep ?nx 16 ?new 16" "sep ?nx 16 a 16"
      using ext_pos [OF bs(1)] by (auto intro: sep_mono sep_sym)
    have e: "ext bs \<le> 2 ^ 32" "unat ?nx + ext bs \<le> 2 ^ 32" using bound unx by auto
    define m2 where "m2 = set_size (set_next m ?new ?nx) ?new (of_nat d)"
    define m3 where "m3 = set_prev m2 ?nx ?new"
    define m7 where "m7 = set_size (set_next (set_used (set_prev m3 ?new a) ?new 0) a ?new) a (of_nat n)"
    have nxt: "blk_next m a = ?nx" "blk_used m a = of_bool u" "blk_prev m a = pv" "chain m a ?nx bs"
      using ch bs by auto
    have sz: "?nx - (?new + 16) = of_nat d" using d by simp
    have nz: "?nx \<noteq> 0" using unx by auto
    have run: "split_block m a (of_nat n) = Some m7"
      using a False nxt(1) nz delta
      by (simp add: split_block_def Let_def m7_def m3_def m2_def sz [symmetric] blk_data_def sp
            del: add_diff_cancel_left)
    have "chain m2 a ?nx bs" unfolding m2_def by (intro chain_set_far nxt sp e)
    then have "chain m3 ?new ?nx bs" unfolding m3_def by (intro chain_set_prev e bs)
    then have "chain m7 ?new ?nx bs" unfolding m7_def by (intro chain_set_far sp e)
    moreover have "blk_next m7 ?new = ?nx" "blk_size m7 ?new = of_nat d" "blk_prev m7 ?new = a"
      "blk_used m7 ?new = 0"
      by (simp_all add: m7_def m3_def m2_def sp)
    moreover have "blk_next m7 a = ?new" "blk_size m7 a = of_nat n" "blk_prev m7 a = pv"
      "blk_used m7 a = of_bool u"
      using nxt by (simp_all add: m7_def m3_def m2_def sp)
    ultimately have "chain m7 pv a ?bs" unfolding chain.simps nx using bs by simp
    moreover have "m7 x = m x" if "x \<notin> hdrs a ?bs" for x
    proof -
      have "x \<notin> region a 16" "x \<notin> region ?new 16" "x \<notin> region ?nx 16"
        using that hdrs_head [OF bs(1), of ?nx] unfolding hdrs.simps nx by auto
      then show ?thesis by (simp add: m7_def m3_def m2_def frame)
    qed
    ultimately show ?thesis using run False by (auto simp: carve_def d_def)
  qed
qed

lemma push_bit_ones: "push_bit k (0xFFFFFFFF :: u32) = NOT (mask k)"
proof -
  have "(0xFFFFFFFF :: u32) = - 1" by simp
  then show ?thesis by (simp only: push_bit_minus_one_eq_not_mask)
qed

lemma and_ones: "p AND push_bit k 0xFFFFFFFF = of_nat (unat p div 2 ^ k * 2 ^ k)" for p :: u32
proof -
  have "p AND NOT (mask k) = push_bit k (drop_bit k p)"
    by (rule bit_word_eqI) (auto simp: bit_simps)
  also have "\<dots> = of_nat (unat (drop_bit k p)) * 2 ^ k" by (simp add: push_bit_eq_mult)
  also have "unat (drop_bit k p) = unat p div 2 ^ k" by (subst unat_drop_bit_eq) (rule drop_bit_eq_div)
  also have "of_nat (unat p div 2 ^ k) * (2 :: u32) ^ k = of_nat (unat p div 2 ^ k * 2 ^ k)" by simp
  finally show ?thesis by (simp only: push_bit_ones)
qed

lemma data_mod:
  assumes "k < 32" and "unat p + 16 < 2 ^ 32"
  shows "blk_data p mod push_bit k 1 \<noteq> 0 \<longleftrightarrow> \<not> 2 ^ k dvd (unat p + 16)"
proof -
  have "unat (blk_data p) = unat p + 16"
    using assms unat_plus32 [of p 16] by (simp add: blk_data_def)
  moreover have "unat (push_bit k 1 :: u32) = 2 ^ k"
    using power_strict_increasing [OF assms(1), of "2 :: nat"] unat_of_nat32 [of "2 ^ k"]
    by (simp add: push_bit_eq_mult)
  ultimately have "unat (blk_data p mod push_bit k 1) = (unat p + 16) mod 2 ^ k" by (simp add: unat_mod)
  then show ?thesis by (metis dvd_eq_mod_eq_0 unat_eq_0)
qed

lemma pad_word:
  assumes "pad_ok k (unat p)" and "\<not> aligned k (unat p)"
  shows "(p AND push_bit k 0xFFFFFFFF) + push_bit k 1 - BLOCKSIZ = p + of_nat (pad k (unat p))"
proof -
  let ?t = "unat p"
  have "(?t div 2 ^ k + 1) * 2 ^ k = ?t + pad k ?t + 16"
    using assms by (simp add: pad_def pad_ok_def)
  then have "(of_nat ((?t div 2 ^ k + 1) * 2 ^ k) :: u32) = of_nat (?t + pad k ?t + 16)"
    by (simp only:)
  then show ?thesis
    unfolding and_ones by (simp add: push_bit_eq_mult BLOCKSIZ_def algebra_simps)
qed

lemma pad_aligned: "pad_ok k t \<Longrightarrow> aligned k (t + pad k t)"
  by (auto simp: pad_def pad_ok_def aligned_def)

section \<open>A new block at the end\<close>

lemma lookup_new_refines:
  fixes s :: "'a heap_scheme"
  assumes ch: "chain (mem s) pv a [(u, sz)]" and a: "a \<noteq> 0"
    and k: "unat align < 32" and top: "t = unat a + 16 + sz"
    and ok: "pad_ok (unat align) t" and d: "d = pad (unat align) t"
    and bound: "t + d + 16 + n \<le> 2 ^ 32" "0 < n"
    and zero: "\<And>x. t \<le> unat x \<Longrightarrow> unat x < t + d + 16 \<Longrightarrow> mem s x = 0"
  shows "\<exists>m l. lookup_new s a (of_nat n) align = s\<lparr>log := l, mem := m\<rparr>
    \<and> chain m pv a [(u, sz + d), (False, n)]
    \<and> (\<forall>x. x \<notin> hdrs a [(u, sz + d), (False, n)] \<longrightarrow> m x = mem s x)"
proof -
  let ?k = "unat align" and ?p = "a + 16 + of_nat sz" and ?q = "a + 16 + of_nat (sz + d)"
  have up: "unat ?p = t" using unat_add_of_nat32 [of a "16 + sz"] bound by (simp add: top add.assoc)
  have uq: "unat ?q = t + d" using unat_add_of_nat32 [of a "16 + sz + d"] bound by (simp add: top add.assoc)
  have q: "?q = ?p + of_nat d" by simp
  have dat: "blk_data ?p mod push_bit ?k 1 \<noteq> 0 \<longleftrightarrow> \<not> 2 ^ ?k dvd (t + 16)"
    using data_mod [OF k, of ?p] up bound by simp
  have un: "(align \<noteq> 0 \<and> blk_data ?p mod push_bit ?k 1 \<noteq> 0) \<longleftrightarrow> \<not> aligned ?k t"
    using dat by (auto simp: aligned_def unat_eq_0)
  have sp: "sep ?q 16 a 16" "sep a 16 ?q 16" using uq bound top by (auto intro!: sep_cases)
  have hd: "blk_used (mem s) a = of_bool u" "blk_size (mem s) a = of_nat sz" "blk_prev (mem s) a = pv"
    using ch by auto
  have z: "blk_used (mem s) ?q = 0" "blk_next (mem s) ?q = 0"
  proof -
    have "mem s x = 0" if "x \<in> region ?q 16" for x
    proof (rule zero)
      from that obtain i where i: "i < 16" "x = ?q + of_nat i" by (rule regionE)
      then have "unat ?q + i < 2 ^ 32" using uq bound by linarith
      from unat_add_of_nat32 [OF this] have "unat x = t + d + i" using i uq by (simp only:)
      with i show "t \<le> unat x" "unat x < t + d + 16" by auto
    qed
    then show "blk_used (mem s) ?q = 0" "blk_next (mem s) ?q = 0"
      using region_sub [of 0 4 16 ?q] region_sub [of 12 4 16 ?q]
      by (auto simp: blk_used_def blk_next_def intro!: ld32_zero)
  qed
  define m1 where "m1 = (if aligned ?k t then set_next (mem s) a ?q
    else set_size (set_next (set_next (set_next (mem s) a ?p) a (?p AND push_bit ?k 0xFFFFFFFF)) a ?q) a (of_nat (sz + d)))"
  define m2 where "m2 = set_size (set_prev m1 ?q a) ?q (of_nat n)"
  have "lookup_new s a (of_nat n) align
    = s\<lparr>log := log s @ [new_block_msg (blk_data ?q)], mem := m2\<rparr>"
  proof (cases "aligned ?k t")
    case True
    then have d0: "d = 0" by (simp add: d pad_def)
    note sp0 = sp [unfolded d0 add_0_right]
    show ?thesis
      using a hd True d0 sp0
      by (simp add: un lookup_new_def Let_def slot_def set_slot_def say_def m2_def m1_def BLOCKSIZ_def
          del: push_bit_of_1)
  next
    case False
    then have pq: "(?p AND push_bit ?k 0xFFFFFFFF) + push_bit ?k 1 - 16 = ?q"
      using pad_word [of ?k ?p] ok up d by (simp add: BLOCKSIZ_def)
    have sz: "?q - blk_data a = of_nat (sz + d)" by (simp add: blk_data_def)
    show ?thesis
      using a hd False sp
      by (simp add: un lookup_new_def Let_def slot_def set_slot_def say_def m2_def m1_def BLOCKSIZ_def pq sz
          del: push_bit_of_1 of_nat_add)
  qed
  moreover have "chain m2 pv a [(u, sz + d), (False, n)]"
  proof (cases "aligned ?k t")
    case True
    then have "d = 0" by (simp add: d pad_def)
    with True hd z sp show ?thesis by (simp add: m2_def m1_def)
  qed (use hd z sp in \<open>simp add: m2_def m1_def del: of_nat_add\<close>)
  moreover have "m2 x = mem s x" if "x \<notin> hdrs a [(u, sz + d), (False, n)]" for x
    using that by (simp add: m2_def m1_def frame)
  ultimately show ?thesis by blast
qed

section \<open>lookup refines the search in the list\<close>

lemma aalloc_ext_ge: "ext bs \<le> ext (snd (aalloc k n a bs))"
  by (induction k n a bs rule: aalloc.induct) (auto simp: Let_def ext_carve split: prod.splits)

lemma aalloc_ne: "bs \<noteq> [] \<Longrightarrow> snd (aalloc k n a bs) \<noteq> []"
  by (cases bs rule: ext.cases) (auto simp: carve_def Let_def split: prod.splits)

lemma hdrs_region: "ext bs \<le> 2 ^ 32 \<Longrightarrow> hdrs a bs \<subseteq> region a (ext bs)"
proof (induction a bs rule: hdrs.induct)
  case (2 a u n bs)
  have "region (a + of_nat (16 + n)) (ext bs) \<subseteq> region a (ext ((u, n) # bs))"
    using 2 by (intro region_sub) auto
  with 2 region_mono [of 16 "ext ((u, n) # bs)" a] show ?case by (auto simp: add.assoc)
qed simp

lemma slot_frame:
  assumes "slot s blk = a" and "blk = 0 \<or> unat blk + 16 \<le> unat a" and "unat a + ext cs \<le> 2 ^ 32"
    and "\<And>x. x \<notin> hdrs a cs \<Longrightarrow> m x = mem s x"
  shows "slot (s\<lparr>log := l, mem := m\<rparr>) blk = a"
proof (cases "blk = 0")
  case False
  with assms have "sep blk 16 a (ext cs)" by (intro sep_below) auto
  then have "region blk 16 \<inter> hdrs a cs = {}"
    using sep_region hdrs_region [of cs a] assms(3) by fastforce
  then have "blk_next m blk = blk_next (mem s) blk" using assms(4) by (intro hdr_cong) blast
  with False assms(1) show ?thesis by (simp add: slot_def)
qed (use assms(1) in \<open>simp add: slot_def\<close>)

lemma carve_ne [simp]: "carve u n sz bs \<noteq> []"
  by (simp add: carve_def)

lemma log_id [simp]: "s\<lparr>log := log s\<rparr> = s" for s :: "'a machine_scheme"
  by (cases s) simp

lemma lookup_take:
  assumes "slot s blk = a" "a \<noteq> 0" "sz \<le> blk_size (mem s) a" "blk_used (mem s) a = 0"
    and "\<not> (align \<noteq> 0 \<and> blk_data a mod push_bit (unat align) 1 \<noteq> 0)"
    and "split_block (set_used (mem s) a 1) a sz = Some m"
  shows "lookup s blk sz align = Some (slot (s\<lparr>mem := m\<rparr>) blk, s\<lparr>mem := m\<rparr>)"
  using assms by (subst lookup.simps) (auto simp: Let_def)

lemma lookup_skip:
  assumes "slot s blk = a" "a \<noteq> 0"
    and "sz \<le> blk_size (mem s) a \<and> blk_used (mem s) a = 0 \<Longrightarrow>
      align \<noteq> 0 \<and> blk_data a mod push_bit (unat align) 1 \<noteq> 0"
    and "\<not> (blk_size (mem s) a = 0 \<and> align = 0)"
  shows "lookup s blk sz align = lookup s a sz align"
  using assms by (subst lookup.simps) (auto simp: Let_def)

lemma lookup_grow:
  assumes "slot s blk = 0" "lookup_new s blk sz align = s'" "slot s' blk \<noteq> 0"
  shows "lookup s blk sz align = lookup s' blk sz align"
  using assms by (subst (1 2) lookup.simps) (simp add: Let_def)

lemma split_block_last: "a \<noteq> 0 \<Longrightarrow> blk_next m a = 0 \<Longrightarrow> split_block m a sz = Some m"
  by (simp add: split_block_def Let_def)

lemma of_nat_le32: "n < 2 ^ 32 \<Longrightarrow> k < 2 ^ 32 \<Longrightarrow> (of_nat n :: u32) \<le> of_nat k \<longleftrightarrow> n \<le> k"
  by (simp add: word_le_nat_alt unat_of_nat32)

lemma misaligned_iff:
  assumes "unat align < 32" and "unat a + 16 < 2 ^ 32"
  shows "(align \<noteq> 0 \<and> blk_data a mod push_bit (unat align) 1 \<noteq> 0) \<longleftrightarrow> \<not> aligned (unat align) (unat a)"
  using data_mod [OF assms] by (auto simp: aligned_def unat_eq_0)

text \<open>A block that fits is taken, and split when the rest is big enough.\<close>

lemma lookup_fits:
  assumes ch: "chain (mem s) pv a ((False, sz) # bs)" and sl: "slot s blk = a" "a \<noteq> 0"
    and blk: "blk = 0 \<or> unat blk + 16 \<le> unat a" and n: "0 < n" "n \<le> sz"
    and k: "unat align < 32" "aligned (unat align) (unat a)"
    and bound: "unat a + ext ((False, sz) # bs) \<le> 2 ^ 32"
  shows "\<exists>m. lookup s blk (of_nat n) align = Some (a, s\<lparr>log := log s, mem := m\<rparr>)
    \<and> chain m pv a (carve True n sz bs) \<and> (\<forall>x. x \<notin> hdrs a (carve True n sz bs) \<longrightarrow> m x = mem s x)"
proof -
  have "chain (set_used (mem s) a 1) pv a ((True, sz) # bs)"
    using ch chain_tail_far(1) [OF _ bound] by auto
  from split_block_refines [OF sl(2) this n(2)] bound obtain m where
    m: "split_block (set_used (mem s) a 1) a (of_nat n) = Some m" "chain m pv a (carve True n sz bs)"
    "\<And>x. x \<notin> hdrs a (carve True n sz bs) \<Longrightarrow> m x = set_used (mem s) a 1 x"
    by auto
  have fr: "m x = mem s x" if "x \<notin> hdrs a (carve True n sz bs)" for x
  proof -
    have "x \<notin> region a 16" using that hdrs_head [OF carve_ne] by blast
    with m(3) [OF that] show ?thesis by (simp add: frame)
  qed
  have "slot (s\<lparr>log := log s, mem := m\<rparr>) blk = a"
  proof (rule slot_frame [OF sl(1) blk _ fr])
    have "ext (carve True n sz bs) = ext ((True, sz) # bs)" by (rule ext_carve [OF n(2)])
    with bound show "unat a + ext (carve True n sz bs) \<le> 2 ^ 32" by simp
  qed
  moreover have "lookup s blk (of_nat n) align = Some (slot (s\<lparr>mem := m\<rparr>) blk, s\<lparr>mem := m\<rparr>)"
    using ch sl m(1) n k bound misaligned_iff [OF k(1), of a]
    by (intro lookup_take) (auto simp: of_nat_le32)
  ultimately show ?thesis using m(2) fr by auto
qed

text \<open>Behind the last block, a new one is made and taken.\<close>

lemma lookup_appends:
  fixes s :: "'a heap_scheme"
  assumes ch: "chain (mem s) pv a [(u, sz)]" and a: "a \<noteq> 0"
    and k: "unat align < 32" and top: "t = unat a + 16 + sz"
    and ok: "pad_ok (unat align) t" and d: "d = pad (unat align) t"
    and bound: "t + d + 16 + n \<le> 2 ^ 32" "0 < n"
    and zero: "\<And>x. t \<le> unat x \<Longrightarrow> unat x < t + d + 16 \<Longrightarrow> mem s x = 0"
  shows "\<exists>m l. lookup s a (of_nat n) align = Some (of_nat (t + d), s\<lparr>log := l, mem := m\<rparr>)
    \<and> chain m pv a [(u, sz + d), (True, n)]
    \<and> (\<forall>x. x \<notin> hdrs a [(u, sz + d), (True, n)] \<longrightarrow> m x = mem s x)"
proof -
  let ?q = "a + 16 + of_nat (sz + d)"
  obtain m l where new: "lookup_new s a (of_nat n) align = s\<lparr>log := l, mem := m\<rparr>"
    and m: "chain m pv a [(u, sz + d), (False, n)]"
    "\<And>x. x \<notin> hdrs a [(u, sz + d), (False, n)] \<Longrightarrow> m x = mem s x"
    using lookup_new_refines [OF ch a k top ok d bound zero] by blast
  let ?s = "s\<lparr>log := l, mem := m\<rparr>" and ?m = "set_used m ?q 1"
  have q: "of_nat (t + d) = ?q" by (simp add: top)
  have uq: "unat ?q = t + d" using unat_add_of_nat32 [of a "16 + sz + d"] bound by (simp add: top add.assoc)
  have qz: "?q \<noteq> 0" using uq top by auto
  have sp: "sep a 16 ?q 16" using uq bound top by (intro sep_below) auto
  have al: "aligned (unat align) (unat ?q)" using pad_aligned [OF ok] uq d by simp
  have sl: "slot ?s a = ?q" using m(1) a by (simp add: slot_def)
  have "slot s a = 0" using ch a by (simp add: slot_def)
  then have "lookup s a (of_nat n) align = lookup ?s a (of_nat n) align"
    using new sl qz by (intro lookup_grow) auto
  also have "\<dots> = Some (slot (?s\<lparr>mem := ?m\<rparr>) a, ?s\<lparr>mem := ?m\<rparr>)"
  proof (rule lookup_take [OF sl qz])
    show "split_block (set_used (mem ?s) ?q 1) ?q (of_nat n) = Some ?m"
      using m(1) qz by (simp add: split_block_last)
    show "\<not> (align \<noteq> 0 \<and> blk_data ?q mod push_bit (unat align) 1 \<noteq> 0)"
      using misaligned_iff [OF k, of ?q] al uq bound by simp
  qed (use m(1) in simp_all)
  also have "slot (?s\<lparr>mem := ?m\<rparr>) a = ?q" using sl a sp by (simp add: slot_def)
  finally have run: "lookup s a (of_nat n) align = Some (of_nat (t + d), s\<lparr>log := l, mem := ?m\<rparr>)"
    unfolding q by simp
  moreover have "chain ?m pv a [(u, sz + d), (True, n)]"
    using m(1) sp by simp
  moreover have "?m x = mem s x" if "x \<notin> hdrs a [(u, sz + d), (True, n)]" for x
    using that m(2) [of x] by (simp add: frame)
  ultimately show ?thesis by blast
qed

lemma lookup_refines:
  fixes s :: "'a heap_scheme"
  assumes "chain (mem s) pv a bs" "bs \<noteq> []" "slot s blk = a" "a \<noteq> 0"
    "blk = 0 \<or> unat blk + 16 \<le> unat a" "nonzero_sizes bs"
    "ext cs \<noteq> ext bs \<Longrightarrow> pad_ok (unat align) (unat a + ext bs)" "aalloc (unat align) n (unat a) bs = (p, cs)"
    "unat a + ext cs \<le> 2 ^ 32"
    "\<And>x. unat a + ext bs \<le> unat x \<Longrightarrow> unat x < unat a + ext cs \<Longrightarrow> mem s x = 0"
    and k: "unat align < 32" and n: "0 < n" "n < 2 ^ 32"
  shows "\<exists>m l. lookup s blk (of_nat n) align = Some (of_nat p, s\<lparr>log := l, mem := m\<rparr>)
    \<and> chain m pv a cs \<and> (\<forall>x. x \<notin> hdrs a cs \<longrightarrow> m x = mem s x)"
  using assms(1-10)
proof (induction bs arbitrary: blk a pv cs)
  case (Cons b bs)
  obtain u sz where b: "b = (u, sz)" by force
  note ch = Cons.prems(1) [unfolded b] and sl = Cons.prems(3,4) and blk = Cons.prems(5)
  have bound: "unat a + ext ((u, sz) # bs) \<le> 2 ^ 32"
    using Cons.prems(8,9) aalloc_ext_ge [of "b # bs" "unat align" n "unat a"] b by simp
  have szlt: "sz < 2 ^ 32" using bound by simp
  show ?case
  proof (cases "\<not> u \<and> n \<le> sz \<and> aligned (unat align) (unat a)")
    case True
    then have "cs = carve True n sz bs" "p = unat a" using Cons.prems(8) b by auto
    moreover obtain m where "lookup s blk (of_nat n) align = Some (a, s\<lparr>log := log s, mem := m\<rparr>)"
      "chain m pv a (carve True n sz bs)" "\<forall>x. x \<notin> hdrs a (carve True n sz bs) \<longrightarrow> m x = mem s x"
      using lookup_fits [OF _ sl blk n(1) _ k, of pv sz bs] True ch bound by auto
    ultimately show ?thesis by (intro exI [of _ m] exI [of _ "log s"]) simp
  next
    case nofit: False
    show ?thesis
    proof (cases "sz = 0 \<and> align = 0")
      case True
      with Cons.prems(6) b have bs: "bs = []"
        by (cases "bs = []") (auto simp: nonzero_sizes_def)
      with True nofit b n Cons.prems(8) have cs: "cs = [(True, n)]" "p = unat a" by auto
      let ?m = "set_used (set_size (mem s) a (of_nat n)) a 1"
      have "slot (s\<lparr>log := log s, mem := ?m\<rparr>) blk = a"
        by (rule slot_frame [OF sl(1) blk Cons.prems(9)]) (simp add: cs frame)
      then have "lookup s blk (of_nat n) align = Some (a, s\<lparr>log := log s, mem := ?m\<rparr>)"
        using True sl ch n Cons.prems(9) cs of_nat_eq_0_32 [of n]
        by (subst lookup.simps) (auto simp: Let_def)
      moreover have "chain ?m pv a cs" using ch bs cs by simp
      moreover have "?m x = mem s x" if "x \<notin> hdrs a cs" for x using that cs by (simp add: frame)
      ultimately show ?thesis using cs by (intro exI [of _ ?m] exI [of _ "log s"]) simp
    next
      case nonzero: False
      have skip: "lookup s blk (of_nat n) align = lookup s a (of_nat n) align"
      proof (rule lookup_skip [OF sl])
        assume fit: "of_nat n \<le> blk_size (mem s) a \<and> blk_used (mem s) a = 0"
        then have "\<not> u" "n \<le> sz" using ch szlt n of_nat_le32 [of n sz] by (auto split: if_splits)
        then show "align \<noteq> 0 \<and> blk_data a mod push_bit (unat align) 1 \<noteq> 0"
          using misaligned_iff [OF k, of a] nofit bound n by simp
      qed (use ch nonzero szlt of_nat_eq_0_32 [of sz] in auto)
      show ?thesis
      proof (cases "bs = []")
        case True
        let ?t = "unat a + 16 + sz" and ?d = "pad (unat align) (unat a + 16 + sz)"
        have cs: "cs = [(u, sz + ?d), (True, n)]" "p = ?t + ?d"
          using Cons.prems(8) nofit nonzero True b by (auto simp: Let_def unat_eq_0)
        have "\<exists>m l. lookup s a (of_nat n) align = Some (of_nat (?t + ?d), s\<lparr>log := l, mem := m\<rparr>)
          \<and> chain m pv a cs \<and> (\<forall>x. x \<notin> hdrs a cs \<longrightarrow> m x = mem s x)"
          unfolding cs
        proof (rule lookup_appends [OF _ sl(2) k refl _ refl])
          show "pad_ok (unat align) ?t" using Cons.prems(7) b True cs(1) by (simp add: add.assoc)
          show "mem s x = 0" if "?t \<le> unat x" "unat x < ?t + ?d + 16" for x
            using that Cons.prems(10) [of x] b True cs by simp
        qed (use ch True Cons.prems(9) cs n in auto)
        then show ?thesis using skip cs by simp
      next
        case False
        let ?a = "a + 16 + of_nat sz"
        have ua: "unat ?a = unat a + 16 + sz" by (rule unat_next [OF bound False])
        obtain cs' where cs': "aalloc (unat align) n (unat ?a) bs = (p, cs')" "cs = (u, sz) # cs'"
          using Cons.prems(8) nofit nonzero False b ua
          by (auto simp: unat_eq_0 split: prod.splits if_splits)
        have ne: "cs' \<noteq> []" using aalloc_ne [OF False, of "unat align" n "unat ?a"] cs' by simp
        have "\<exists>m l. lookup s a (of_nat n) align = Some (of_nat p, s\<lparr>log := l, mem := m\<rparr>)
          \<and> chain m a ?a cs' \<and> (\<forall>x. x \<notin> hdrs ?a cs' \<longrightarrow> m x = mem s x)"
        proof (rule Cons.IH [OF _ False _ _ _ _ _ cs'(1)])
          show "chain (mem s) a ?a bs" "slot s a = ?a" using ch False sl by (auto simp: slot_def)
          show "?a \<noteq> 0" using ua by auto
          show "nonzero_sizes bs" using Cons.prems(6) False by (auto simp: nonzero_sizes_def)
          show "mem s x = 0" if "unat ?a + ext bs \<le> unat x" "unat x < unat ?a + ext cs'" for x
            using that Cons.prems(10) [of x] b ua cs' by simp
        qed (use Cons.prems(7,9) b ua cs' in \<open>simp_all add: add.assoc\<close>)
        then obtain m l where r: "lookup s a (of_nat n) align = Some (of_nat p, s\<lparr>log := l, mem := m\<rparr>)"
          "chain m a ?a cs'" "\<And>x. x \<notin> hdrs ?a cs' \<Longrightarrow> m x = mem s x" by blast
        have "sep a 16 ?a (ext cs')" using ua Cons.prems(9) cs' by (intro sep_below) auto
        then have "region a 16 \<inter> hdrs ?a cs' = {}"
          using sep_region hdrs_region [of cs' ?a] Cons.prems(9) cs' by fastforce
        then have "m x = mem s x" if "x \<in> region a 16" for x using that r(3) by blast
        from hdr_cong [OF this] have "chain m pv a cs" using ch r(2) False ne cs' by simp
        with skip r cs' show ?thesis by auto
      qed
    qed
  qed
qed simp

lemma free_head_iff: "free_head bs \<longleftrightarrow> (\<exists>n cs. bs = (False, n) # cs)"
  by (auto simp: free_head_def split: list.splits prod.splits bool.splits)

lemma chain_tail: "chain m pv a (pre @ bs) \<Longrightarrow> \<exists>pv'. chain m pv' (a + of_nat (ext pre)) bs \<and> (pre = [] \<longrightarrow> pv' = pv)"
proof (induction pre arbitrary: pv a)
  case (Cons b pre)
  obtain u n where b: "b = (u, n)" by force
  with Cons show ?case by (fastforce simp: ac_simps)
qed auto

lemma chain_replace:
  assumes "chain m pv a (pre @ bs)" "bs \<noteq> []" "cs \<noteq> []" "unat a + ext (pre @ bs) \<le> 2 ^ 32"
    "\<And>x. x \<in> region a (ext pre) \<Longrightarrow> m' x = m x"
    "\<And>pv'. chain m pv' (a + of_nat (ext pre)) bs \<Longrightarrow> chain m' pv' (a + of_nat (ext pre)) cs"
  shows "chain m' pv a (pre @ cs)"
  using assms
proof (induction pre arbitrary: pv a)
  case (Cons b pre)
  obtain u n where b: "b = (u, n)" by force
  let ?a = "a + 16 + of_nat n"
  have ua: "unat ?a = unat a + 16 + n"
    using unat_next [of a u n "pre @ bs"] Cons.prems(2,4) b by simp
  have hd: "m' x = m x" if "x \<in> region a 16" for x
    using that Cons.prems(5) region_mono [of 16 "ext (b # pre)" a] b by auto
  have "chain m' a ?a (pre @ cs)"
  proof (rule Cons.IH)
    have "region (a + of_nat (16 + n)) (ext pre) \<subseteq> region a (ext (b # pre))"
      using Cons.prems(4) b by (intro region_sub) auto
    then show "m' x = m x" if "x \<in> region ?a (ext pre)" for x
      using that Cons.prems(5) by (auto simp: add.assoc)
    have ad: "a + of_nat (ext (b # pre)) = ?a + of_nat (ext pre)" by (simp add: b ac_simps)
    show "chain m' pv' (?a + of_nat (ext pre)) cs" if "chain m pv' (?a + of_nat (ext pre)) bs" for pv'
      using Cons.prems(6) [of pv'] that unfolding ad .
  qed (use Cons.prems b ua in auto)
  with Cons.prems(1-3) hdr_cong [OF hd] b show ?case by simp
qed simp

lemma merge_idle: "chain m pv a ((u, n) # post) \<Longrightarrow> \<not> free_head post \<Longrightarrow> merge m a = m"
  by (cases post rule: ext.cases) (auto simp: merge_def free_head_iff)

lemma merge_absorbs:
  assumes ch: "chain m pv a ((u, k) # (False, n) # post)" and a: "16 \<le> unat a"
    and bound: "unat a + ext ((u, k) # (False, n) # post) \<le> 2 ^ 32"
  shows "chain (merge m a) pv a ((u, k + 16 + n) # post)"
    and "x \<notin> hdrs a ((u, k) # (False, n) # post) \<Longrightarrow> x \<notin> region 0 16 \<Longrightarrow> merge m a x = m x"
    and "blk_size (merge m a) (a + 16 + of_nat k) = of_nat n"
    and "blk_next (merge m a) (a + 16 + of_nat k) = blk_next m (a + 16 + of_nat k)"
    and "post = [] \<Longrightarrow> ld32 (merge m a) 8 = a"
proof -
  let ?nx = "a + 16 + of_nat k" and ?nn = "a + 16 + of_nat k + 16 + of_nat n"
  define tg where "tg = (if post = [] then 0 else ?nn)"
  have unx: "unat ?nx = unat a + 16 + k" using unat_next [OF bound] by simp
  have nz: "?nx \<noteq> 0" using unx a by auto
  have b2: "unat ?nx + ext ((False, n) # post) \<le> 2 ^ 32" using bound unx by simp
  have sp: "sep a 16 ?nx 16" by (rule sep_below) (use unx bound in simp_all)
  note sp = sp sep_sym [OF sp]
  have tg: "sep a 16 tg 16" "sep ?nx 16 tg 16"
  proof -
    have "sep a 16 tg 16 \<and> sep ?nx 16 tg 16"
    proof (cases "post = []")
      case True
      have "sep 0 16 a 16" "sep 0 16 ?nx 16" by (rule sep_below; use a bound unx in simp)+
      with True show ?thesis by (simp add: tg_def sep_sym)
    next
      case False
      have "unat ?nn = unat a + 16 + k + 16 + n" using unat_next [OF b2 False] unx by simp
      then have "sep a 16 ?nn 16" "sep ?nx 16 ?nn 16"
        by (rule_tac [!] sep_below; use bound unx ext_pos [OF False] in simp)+
      with False show ?thesis by (simp add: tg_def)
    qed
    then show "sep a 16 tg 16" "sep ?nx 16 tg 16" by auto
  qed
  define m2 where "m2 = set_next (set_size m a (of_nat k + (16 + of_nat n))) a tg"
  have run: "merge m a = set_prev m2 tg a"
    using ch nz sp by (simp add: merge_def Let_def m2_def BLOCKSIZ_def tg_def)
  have hd: "blk_used m2 a = of_bool u" "blk_size m2 a = of_nat (k + 16 + n)" "blk_prev m2 a = pv"
    "blk_next m2 a = tg" using ch by (simp_all add: m2_def)
  have "chain (set_prev m2 tg a) a ?nn post"
  proof (cases "post = []")
    case False
    have "unat ?nn = unat a + 16 + k + 16 + n" using unat_next [OF b2 False] unx by simp
    then have "sep a 16 ?nn (ext post)" "ext post \<le> 2 ^ 32" "unat ?nn + ext post \<le> 2 ^ 32"
      using bound by (auto intro!: sep_below)
    moreover from this have "chain m2 ?nx ?nn post"
      unfolding m2_def using ch by (intro chain_set_far) auto
    ultimately show ?thesis using False by (simp add: tg_def chain_set_prev)
  qed simp
  moreover have nn: "a + 16 + of_nat (k + 16 + n) = ?nn" by (simp add: ac_simps)
  ultimately show "chain (merge m a) pv a ((u, k + 16 + n) # post)"
    unfolding run chain.simps nn tg_def [symmetric] using hd tg by (simp del: of_nat_add)
  show "merge m a x = m x" if x: "x \<notin> hdrs a ((u, k) # (False, n) # post)" "x \<notin> region 0 16"
  proof -
    have "x \<notin> region tg 16" using x hdrs_head [of post ?nn] by (auto simp: tg_def)
    with x show ?thesis by (simp add: run m2_def frame)
  qed
  show "blk_size (merge m a) ?nx = of_nat n" "blk_next (merge m a) ?nx = blk_next m ?nx"
    using ch sp tg by (simp_all add: run m2_def)
  show "ld32 (merge m a) 8 = a" if "post = []"
    using that by (simp add: run tg_def set_prev_def)
qed

lemma tail_hdrs: "ext (pre @ bs) \<le> 2 ^ 32 \<Longrightarrow> hdrs (a + of_nat (ext pre)) bs \<subseteq> hdrs a (pre @ bs)"
proof (induction a pre rule: hdrs.induct)
  case (2 a u n pre)
  then show ?case by (auto simp: ac_simps)
qed simp

text \<open>A step that only touches the headers from the end of \<open>pre\<close> on, and page zero.\<close>

lemma chain_tail_step:
  assumes ch: "chain m pv a (pre @ bs)" and ne: "bs \<noteq> []" "cs \<noteq> []" and a: "16 \<le> unat a"
    and bound: "unat a + ext (pre @ bs) \<le> 2 ^ 32"
    and fr: "\<And>x. x \<notin> hdrs (a + of_nat (ext pre)) bs \<Longrightarrow> x \<notin> region 0 16 \<Longrightarrow> m' x = m x"
    and st: "\<And>pv'. chain m pv' (a + of_nat (ext pre)) bs \<Longrightarrow> chain m' pv' (a + of_nat (ext pre)) cs"
  shows "chain m' pv a (pre @ cs)"
proof (rule chain_replace [OF ch ne bound _ st])
  let ?b = "a + of_nat (ext pre)"
  have ub: "unat ?b = unat a + ext pre"
    using bound ext_pos [OF ne(1)] by (intro unat_add_of_nat32) simp
  show "m' x = m x" if x: "x \<in> region a (ext pre)" for x
  proof -
    have r: "unat a \<le> unat x \<and> unat x < unat a + ext pre"
      using x bound by (subst (asm) region_unat) auto
    then have "x \<notin> region ?b (ext bs)" using ub bound by (subst region_unat) auto
    moreover have "x \<notin> region 0 16" using r a by (simp add: region_def)
    moreover have "ext bs \<le> 2 ^ 32" using bound by simp
    ultimately show ?thesis using fr hdrs_region [of bs ?b] by blast
  qed
qed

lemma kfree_step:
  assumes ch: "chain m 0 a (pre @ (True, n) # post)" and a: "16 \<le> unat a"
    and bound: "unat a + ext (pre @ (True, n) # post) \<le> 2 ^ 32"
  defines "blk \<equiv> a + of_nat (ext pre)"
  defines "m1 \<equiv> set_used m blk 0"
  shows "chain m1 0 a (pre @ (False, n) # post)" and "\<And>x. x \<notin> region blk 16 \<Longrightarrow> m1 x = m x"
proof -
  show fr: "m1 x = m x" if "x \<notin> region blk 16" for x using that by (simp add: m1_def frame)
  show "chain m1 0 a (pre @ (False, n) # post)"
  proof (rule chain_tail_step [OF ch _ _ a bound])
    show "m1 x = m x" if "x \<notin> hdrs (a + of_nat (ext pre)) ((True, n) # post)" for x
      using that fr by (simp add: blk_def)
    have ub: "unat blk = unat a + ext pre"
      unfolding blk_def using bound by (intro unat_add_of_nat32) simp
    show "chain m1 pv (a + of_nat (ext pre)) ((False, n) # post)"
      if "chain m pv (a + of_nat (ext pre)) ((True, n) # post)" for pv
      using that chain_tail_far(1) [of m blk n post True 0] ub bound
      unfolding blk_def [symmetric] m1_def by simp
  qed simp_all
qed

lemma chain_split_last:
  assumes ch: "chain m pv a (pre @ (v, k) # (u, n) # post)"
  shows "blk_prev m (a + of_nat (ext (pre @ [(v, k)]))) = a + of_nat (ext pre)"
    and "blk_used m (a + of_nat (ext pre)) = of_bool v"
proof -
  have e: "a + of_nat (ext (pre @ [(v, k)])) = a + of_nat (ext pre) + 16 + of_nat k"
    by (simp add: ac_simps)
  show "blk_prev m (a + of_nat (ext (pre @ [(v, k)]))) = a + of_nat (ext pre)"
    "blk_used m (a + of_nat (ext pre)) = of_bool v"
    unfolding e using chain_tail [OF ch] by auto
qed

lemma kfree_run:
  assumes "HEAP_BASE < ptr" "blk = ptr - BLOCKSIZ" "m1 = set_used (mem s) blk 0"
    "m2 = (if blk_prev m1 blk \<noteq> 0 \<and> blk_used m1 (blk_prev m1 blk) = 0 then merge m1 (blk_prev m1 blk) else m1)"
  shows "kfree s ptr = Some (s\<lparr>log := log s @ [released_msg (blk_size (merge m2 blk) blk)],
    mem := merge m2 blk\<rparr>)"
  unfolding assms(4) assms(3) assms(2) using assms(1) by (simp add: kfree_def Let_def say_def)

text \<open>The block before is free, the one behind is not: the block is absorbed.\<close>

lemma kfree_backward:
  assumes ch: "chain m1 0 a (pre @ (False, k) # (False, n) # post)" and a: "16 \<le> unat a"
    and bound: "unat a + ext (pre @ (False, k) # (False, n) # post) < 2 ^ 32" and nf: "\<not> free_head post"
    and blk: "blk = a + of_nat (ext (pre @ [(False, k)]))"
    and m2: "m2 = (if blk_prev m1 blk \<noteq> 0 \<and> blk_used m1 (blk_prev m1 blk) = 0
      then merge m1 (blk_prev m1 blk) else m1)"
  shows "chain (merge m2 blk) 0 a (pre @ (False, k + 16 + n) # post)"
    and "x \<notin> hdrs a (pre @ (False, k) # (False, n) # post) \<Longrightarrow> x \<notin> region 0 16 \<Longrightarrow> merge m2 blk x = m1 x"
proof -
  let ?p = "a + of_nat (ext pre)"
  note b = less_imp_le [OF bound]
  have up: "unat ?p = unat a + ext pre" using bound by (intro unat_add_of_nat32) simp
  have pz: "?p \<noteq> 0" using up a by auto
  have blk': "blk = ?p + 16 + of_nat k" by (simp add: blk ac_simps)
  have pv: "m2 = merge m1 ?p" using chain_split_last [OF ch] pz by (simp add: m2 blk)
  obtain pv where tl: "chain m1 pv ?p ((False, k) # (False, n) # post)" using chain_tail [OF ch] by blast
  have bt: "16 \<le> unat ?p" "unat ?p + ext ((False, k) # (False, n) # post) \<le> 2 ^ 32" using up a bound by auto
  note ab = merge_absorbs [where m = m1, OF _ bt, folded pv]
  have "merge m2 blk = m2"
  proof (cases "post = []")
    case True
    then have "blk_next m2 blk = 0" using tl ab(4) [OF tl] by (simp add: blk')
    then show ?thesis by (simp add: merge_def)
  next
    case False
    then obtain q post' where p: "post = (True, q) # post'"
      using nf by (cases post rule: ext.cases) (auto simp: free_head_iff)
    have nx: "?p + 16 + of_nat (k + 16 + n) = ?p + 16 + of_nat k + 16 + of_nat n" by (simp add: ac_simps)
    have "blk_used m2 (?p + 16 + of_nat k + 16 + of_nat n) = 1"
      using ab(1) [OF tl] unfolding chain.simps nx p by simp
    moreover have "blk_next m2 blk = ?p + 16 + of_nat k + 16 + of_nat n"
      using tl ab(4) [OF tl] False by (simp add: blk')
    ultimately show ?thesis by (simp add: merge_def)
  qed
  moreover have "chain m2 0 a (pre @ (False, k + 16 + n) # post)"
  proof (rule chain_tail_step [OF ch _ _ a b])
    show "m2 x = m1 x" if "x \<notin> hdrs ?p ((False, k) # (False, n) # post)" "x \<notin> region 0 16" for x
      by (rule ab(2) [OF tl that])
    show "chain m2 pv' ?p ((False, k + 16 + n) # post)"
      if "chain m1 pv' ?p ((False, k) # (False, n) # post)" for pv' by (rule ab(1) [OF that])
  qed simp_all
  moreover have "m2 x = m1 x" if "x \<notin> hdrs a (pre @ (False, k) # (False, n) # post)" "x \<notin> region 0 16"
    using that tail_hdrs [of pre "(False, k) # (False, n) # post" a] b by (intro ab(2) [OF tl]) auto
  ultimately show "chain (merge m2 blk) 0 a (pre @ (False, k + 16 + n) # post)"
    "x \<notin> hdrs a (pre @ (False, k) # (False, n) # post) \<Longrightarrow> x \<notin> region 0 16 \<Longrightarrow> merge m2 blk x = m1 x"
    by simp_all
qed

lemma kfree_idle:
  assumes ch: "chain m1 0 a (pre @ (False, n) # post)" and used: "pre \<noteq> [] \<Longrightarrow> fst (last pre)"
    and blk: "blk = a + of_nat (ext pre)"
    and m2: "m2 = (if blk_prev m1 blk \<noteq> 0 \<and> blk_used m1 (blk_prev m1 blk) = 0
      then merge m1 (blk_prev m1 blk) else m1)"
  shows "m2 = m1"
proof (cases pre rule: rev_cases)
  case Nil
  with ch blk m2 show ?thesis by simp
next
  case (snoc pre' y)
  then obtain k where y: "y = (True, k)" using used by (cases y) auto
  with ch snoc have "chain m1 0 a (pre' @ (True, k) # (False, n) # post)" by simp
  from chain_split_last [OF this] show ?thesis by (simp add: m2 blk snoc y)
qed

text \<open>The block before is used or there is none: the block absorbs a free one behind it.\<close>

lemma kfree_forward:
  assumes ch: "chain m1 0 a (pre @ (False, n) # post)" and a: "16 \<le> unat a"
    and bound: "unat a + ext (pre @ (False, n) # post) < 2 ^ 32"
    and used: "pre \<noteq> [] \<Longrightarrow> fst (last pre)" and blk: "blk = a + of_nat (ext pre)"
    and m2: "m2 = (if blk_prev m1 blk \<noteq> 0 \<and> blk_used m1 (blk_prev m1 blk) = 0
      then merge m1 (blk_prev m1 blk) else m1)"
  shows "chain (merge m2 blk) 0 a (pre @ absorb n post)"
    and "x \<notin> hdrs a (pre @ (False, n) # post) \<Longrightarrow> x \<notin> region 0 16 \<Longrightarrow> merge m2 blk x = m1 x"
proof -
  note b = less_imp_le [OF bound]
  have up: "unat blk = unat a + ext pre" unfolding blk using bound by (intro unat_add_of_nat32) simp
  have m21: "m2 = m1" by (rule kfree_idle [OF ch used blk m2])
  obtain pv where tl: "chain m1 pv blk ((False, n) # post)" using chain_tail [OF ch] blk by blast
  have "chain (merge m1 blk) 0 a (pre @ absorb n post)
    \<and> (x \<notin> hdrs a (pre @ (False, n) # post) \<longrightarrow> x \<notin> region 0 16 \<longrightarrow> merge m1 blk x = m1 x)"
  proof (cases "free_head post")
    case False
    then have "absorb n post = (False, n) # post" by (auto simp: absorb_def free_head_iff split: list.splits bool.splits)
    then show ?thesis using ch merge_idle [OF tl False] by simp
  next
    case True
    then obtain k post' where p: "post = (False, k) # post'" by (auto simp: free_head_iff)
    have bt: "16 \<le> unat blk" "unat blk + ext ((False, n) # (False, k) # post') \<le> 2 ^ 32"
      using up a bound p by auto
    note ab = merge_absorbs [OF _ bt]
    have "chain (merge m1 blk) 0 a (pre @ (False, n + 16 + k) # post')"
    proof (rule chain_tail_step [OF ch _ _ a b])
      show "merge m1 blk x = m1 x" if "x \<notin> hdrs (a + of_nat (ext pre)) ((False, n) # post)" "x \<notin> region 0 16" for x
        using that unfolding blk [symmetric] p by (rule ab(2) [OF tl [unfolded p]])
      show "chain (merge m1 blk) pv' (a + of_nat (ext pre)) ((False, n + 16 + k) # post')"
        if "chain m1 pv' (a + of_nat (ext pre)) ((False, n) # post)" for pv'
        using that unfolding blk [symmetric] p by (rule ab(1))
    qed simp_all
    moreover have "merge m1 blk x = m1 x" if "x \<notin> hdrs a (pre @ (False, n) # post)" "x \<notin> region 0 16"
      using that tail_hdrs [of pre "(False, n) # post" a] b p blk
      by (intro ab(2) [OF tl [unfolded p]]) auto
    ultimately show ?thesis using p by (simp add: absorb_def)
  qed
  then show "chain (merge m2 blk) 0 a (pre @ absorb n post)"
    "x \<notin> hdrs a (pre @ (False, n) # post) \<Longrightarrow> x \<notin> region 0 16 \<Longrightarrow> merge m2 blk x = m1 x"
    by (simp_all add: m21)
qed

lemma hdrs_mark: "hdrs a (pre @ (u, n) # post) = hdrs a (pre @ (v, n) # post)"
  by (induction a pre rule: hdrs.induct) auto

lemma kfree_refines:
  fixes s :: "'a heap_scheme"
  assumes ch: "chain (mem s) 0 HEAP_BASE (pre @ (True, n) # post)"
    and bound: "unat HEAP_BASE + ext (pre @ (True, n) # post) < 2 ^ 32"
    and ok: "\<not> (pre \<noteq> [] \<and> \<not> fst (last pre) \<and> free_head post)"
  shows "\<exists>l m. kfree s (HEAP_BASE + of_nat (ext pre) + 16) = Some (s\<lparr>log := l, mem := m\<rparr>)
    \<and> chain m 0 HEAP_BASE (afree pre n post)
    \<and> (\<forall>x. x \<notin> hdrs HEAP_BASE (pre @ (True, n) # post) \<longrightarrow> x \<notin> region 0 16 \<longrightarrow> m x = mem s x)"
proof -
  let ?a = HEAP_BASE
  let ?blk = "?a + of_nat (ext pre)" and ?ptr = "?a + of_nat (ext pre) + 16"
  define m1 where "m1 = set_used (mem s) ?blk 0"
  define m2 where "m2 = (if blk_prev m1 ?blk \<noteq> 0 \<and> blk_used m1 (blk_prev m1 ?blk) = 0
    then merge m1 (blk_prev m1 ?blk) else m1)"
  have a: "16 \<le> unat ?a" by (simp add: HEAP_BASE_def)
  have "unat (?a + of_nat (ext pre + 16)) = unat ?a + (ext pre + 16)"
    using bound by (intro unat_add_of_nat32) simp
  then have pt: "?a < ?ptr" "?blk = ?ptr - BLOCKSIZ"
    by (simp_all add: word_less_nat_alt BLOCKSIZ_def add.assoc)
  obtain l where run: "kfree s ?ptr = Some (s\<lparr>log := l, mem := merge m2 ?blk\<rparr>)"
    using kfree_run [OF pt m1_def m2_def] by blast
  note s1 = kfree_step [OF ch a less_imp_le [OF bound], folded m1_def]
  have b1: "unat ?a + ext (pre @ (False, n) # post) < 2 ^ 32" using bound by simp
  have "chain (merge m2 ?blk) 0 ?a (afree pre n post)
    \<and> (\<forall>x. x \<notin> hdrs ?a (pre @ (False, n) # post) \<longrightarrow> x \<notin> region 0 16 \<longrightarrow> merge m2 ?blk x = m1 x)"
  proof (cases "pre \<noteq> [] \<and> \<not> fst (last pre)")
    case True
    then obtain pre' k where p: "pre = pre' @ [(False, k)]"
      by (cases pre rule: rev_cases) auto
    with ok True have nf: "\<not> free_head post" by simp
    have eq: "pre @ (False, n) # post = pre' @ (False, k) # (False, n) # post" by (simp add: p)
    have blk: "?blk = ?a + of_nat (ext (pre' @ [(False, k)]))" by (simp add: p)
    have "afree pre n post = pre' @ (False, k + 16 + n) # post" by (simp add: afree_def p)
    then show ?thesis
      using kfree_backward [OF s1(1) [unfolded eq] a b1 [unfolded eq] nf blk m2_def] unfolding eq by simp
  next
    case False
    then have "afree pre n post = pre @ absorb n post" by (auto simp: afree_def)
    with kfree_forward [OF s1(1) a b1 _ refl m2_def] False show ?thesis by auto
  qed
  moreover have "m1 x = mem s x" if "x \<notin> hdrs ?a (pre @ (True, n) # post)" for x
  proof (rule s1(2))
    show "x \<notin> region ?blk 16" using that tail_hdrs [of pre "(True, n) # post" ?a] bound by auto
  qed
  ultimately have "chain (merge m2 ?blk) 0 ?a (afree pre n post)"
    "\<forall>x. x \<notin> hdrs ?a (pre @ (True, n) # post) \<longrightarrow> x \<notin> region 0 16 \<longrightarrow> merge m2 ?blk x = mem s x"
    using hdrs_mark [of ?a pre True n post False] by auto
  with run show ?thesis by blast
qed

end
