(* ===== verification/Allocator.thy ===== *)
theory Allocator
  imports Prelude
begin

text \<open>
  What the kernel expects of its allocator: the interface of include/foos/kmalloc.h as a
  locale. A state is described by an abstract heap, of which the client knows the live
  blocks, pairs of an address and a size. The file systems, the shell and the page tables
  are clients; the model of kernel/kmalloc.c is the instance.
\<close>

definition within :: "addr \<Rightarrow> nat \<Rightarrow> nat \<Rightarrow> bool" where
  "within x q n \<longleftrightarrow> q \<le> unat x \<and> unat x < q + n"

lemma within_rd:
  assumes "\<And>x. within x (unat p) n \<Longrightarrow> m' x = m x" and "unat p + n \<le> 2 ^ 32"
  shows "rd m' p n = rd m p n"
  using assms(1) assms(2) by (intro rd_cong) (auto simp: within_def region_unat)

locale allocator =
  fixes inv :: "'s \<Rightarrow> 'h \<Rightarrow> bool"
    and live :: "'h \<Rightarrow> (nat \<times> nat) set"
    and contents :: "'s \<Rightarrow> mem"
    and store :: "mem \<Rightarrow> 's \<Rightarrow> 's"
    and alloc :: "'s \<Rightarrow> u32 \<Rightarrow> (addr \<times> 's) option"
    and release :: "'s \<Rightarrow> addr \<Rightarrow> 's option"
    and can_alloc :: "'h \<Rightarrow> u32 \<Rightarrow> bool"
    and can_release :: "'h \<Rightarrow> addr \<Rightarrow> bool"
  assumes live_disjoint:
      "inv s h \<Longrightarrow> (q, l) \<in> live h \<Longrightarrow> (q', l') \<in> live h \<Longrightarrow> (q, l) = (q', l') \<or> q + l \<le> q' \<or> q' + l' \<le> q"
    and live_bound: "inv s h \<Longrightarrow> (q, l) \<in> live h \<Longrightarrow> q + l \<le> 2 ^ 32"
    and alloc_law: "inv s h \<Longrightarrow> can_alloc h n \<Longrightarrow>
      \<exists>p s' h' l. alloc s n = Some (p, s') \<and> inv s' h' \<and> unat n \<le> l
        \<and> live h' = insert (unat p, l) (live h) \<and> unat p \<notin> fst ` live h
        \<and> (\<forall>(q, k) \<in> live h. \<forall>x. within x q k \<longrightarrow> contents s' x = contents s x)"
    and release_law: "inv s h \<Longrightarrow> can_release h p \<Longrightarrow>
      \<exists>s' h' l. release s p = Some s' \<and> inv s' h' \<and> (unat p, l) \<in> live h
        \<and> live h' = live h - {(unat p, l)}
        \<and> (\<forall>(q, k) \<in> live h. \<forall>x. within x q k \<longrightarrow> contents s' x = contents s x)"
    and store_law: "inv s h \<Longrightarrow> (q, l) \<in> live h \<Longrightarrow> (\<And>x. \<not> within x q l \<Longrightarrow> m x = contents s x) \<Longrightarrow>
      inv (store m s) h \<and> contents (store m s) = m"
begin

text \<open>The new block shares no byte with a live one.\<close>

lemma alloc_disjoint:
  assumes "inv s h" "can_alloc h n"
  shows "\<exists>p s' h' l. alloc s n = Some (p, s') \<and> inv s' h' \<and> unat n \<le> l \<and> (unat p, l) \<in> live h'
    \<and> (\<forall>(q, k) \<in> live h. (q, k) \<in> live h' \<and> (unat p + l \<le> q \<or> q + k \<le> unat p))"
proof -
  obtain p s' h' l where a: "alloc s n = Some (p, s')" "inv s' h'" "unat n \<le> l"
    "live h' = insert (unat p, l) (live h)" "unat p \<notin> fst ` live h"
    using alloc_law [OF assms] by blast
  have "unat p + l \<le> q \<or> q + k \<le> unat p" if "(q, k) \<in> live h" for q k
  proof -
    have "(unat p, l) \<noteq> (q, k)" using a(5) that by force
    with live_disjoint [OF a(2), of "unat p" l q k] a(4) that show ?thesis by auto
  qed
  with a show ?thesis by blast
qed

text \<open>An object of the client survives the operations on other blocks.\<close>

lemma alloc_keeps:
  assumes "inv s h" "can_alloc h n" "alloc s n = Some (p, s')" "(unat q, k) \<in> live h"
  shows "rd (contents s') q k = rd (contents s) q k"
proof -
  have "contents s' x = contents s x" if "within x (unat q) k" for x
    using alloc_law [OF assms(1,2)] assms(3,4) that by fastforce
  then show ?thesis using live_bound [OF assms(1,4)] by (rule within_rd)
qed

lemma release_keeps:
  assumes "inv s h" "can_release h p" "release s p = Some s'" "(unat q, k) \<in> live h"
  shows "rd (contents s') q k = rd (contents s) q k"
proof -
  have "contents s' x = contents s x" if "within x (unat q) k" for x
    using release_law [OF assms(1,2)] assms(3,4) that by fastforce
  then show ?thesis using live_bound [OF assms(1,4)] by (rule within_rd)
qed

text \<open>A client that allocates an object and fills it disturbs no other object.\<close>

lemma alloc_fill:
  assumes "inv s h" "can_alloc h n" and len: "unat n = length xs"
  shows "\<exists>p s' h' l. alloc s n = Some (p, s') \<and> inv s' h' \<and> inv (store (wr (contents s') p xs) s') h' \<and> length xs \<le> l
    \<and> live h' = insert (unat p, l) (live h) \<and> unat p \<notin> fst ` live h
    \<and> (\<forall>(q, k) \<in> live h. \<forall>x. within x q k \<longrightarrow> wr (contents s') p xs x = contents s x)"
proof -
  obtain p s' h' l where a: "alloc s n = Some (p, s')" "inv s' h'" "unat n \<le> l"
    "live h' = insert (unat p, l) (live h)" "unat p \<notin> fst ` live h"
    "\<forall>(q, k) \<in> live h. \<forall>x. within x q k \<longrightarrow> contents s' x = contents s x"
    using alloc_law [OF assms(1,2)] by blast
  have p: "(unat p, l) \<in> live h'" using a(4) by simp
  have bound: "unat p + l \<le> 2 ^ 32" by (rule live_bound [OF a(2) p])
  have out: "wr (contents s') p xs x = contents s' x" if "\<not> within x (unat p) l" for x
  proof (rule wr_frame)
    show "x \<notin> region p (length xs)"
      using that bound a(3) len by (subst region_unat) (auto simp: within_def)
  qed (use bound a(3) len in simp)
  have "inv (store (wr (contents s') p xs) s') h'" using store_law [OF a(2) p out] by blast
  moreover have "wr (contents s') p xs x = contents s x" if "(q, k) \<in> live h" "within x q k" for q k x
  proof -
    have "(unat p, l) \<noteq> (q, k)" using a(5) that by force
    then have "\<not> within x (unat p) l"
      using live_disjoint [OF a(2) p, of q k] a(4) that by (auto simp: within_def)
    with out a(6) that show ?thesis by fastforce
  qed
  ultimately show ?thesis using a(1-5) len
    by (intro exI [of _ p] exI [of _ s'] exI [of _ h'] exI [of _ l]) auto
qed

text \<open>A block that is allocated and given back leaves the live blocks as they were.\<close>

lemma alloc_release:
  assumes "inv s h" "can_alloc h n"
    and "\<And>p s' h'. alloc s n = Some (p, s') \<Longrightarrow> inv s' h' \<Longrightarrow> can_release h' p"
  shows "\<exists>p s' t h''. alloc s n = Some (p, s') \<and> release s' p = Some t \<and> inv t h'' \<and> live h'' = live h"
proof -
  obtain p s' h' l where a: "alloc s n = Some (p, s')" "inv s' h'" "unat n \<le> l"
    "live h' = insert (unat p, l) (live h)" "unat p \<notin> fst ` live h"
    using alloc_law [OF assms(1,2)] by blast
  from release_law [OF a(2) assms(3) [OF a(1,2)]] obtain t h'' k where
    r: "release s' p = Some t" "inv t h''" "(unat p, k) \<in> live h'" "live h'' = live h' - {(unat p, k)}"
    by blast
  have "(unat p, k) \<notin> live h" for k using a(5) by force
  with r a(4) have "live h'' = live h" by auto
  with a r show ?thesis by blast
qed

end

end
