(* ===== verification/Kmalloc_Heap.thy ===== *)
theory Kmalloc_Heap
  imports Kmalloc_Blocks Allocator
begin

text \<open>
  The heap of the kernel as a whole: its invariant, the live blocks, the contract of kmalloc
  and kfree in terms of them, the interpretation of the allocator interface, and the
  properties of the allocator.
\<close>

section \<open>Definitions\<close>

text \<open>The end of the region, HEAP_BASE + HEAP_SIZE, and the end of the last block.\<close>

definition HEAP_END :: nat where "HEAP_END = 0x800000"

definition top_of :: "ablock list \<Rightarrow> nat" where
  "top_of bs = unat HEAP_BASE + ext bs"

text \<open>Sizes are multiples of eight, and not zero but in the initial heap.\<close>

definition sizes_ok :: "ablock list \<Rightarrow> bool" where
  "sizes_ok bs \<longleftrightarrow> list_all (\<lambda>b. 8 dvd snd b) bs \<and> (bs = [(False, 0)] \<or> list_all (\<lambda>b. 0 < snd b) bs)"

text \<open>The invariant; a new block relies on zeroed memory behind the last one.\<close>

definition heap_ok :: "'a heap_scheme \<Rightarrow> ablock list \<Rightarrow> bool" where
  "heap_ok s bs \<longleftrightarrow> root s = HEAP_BASE \<and> bs \<noteq> [] \<and> chain (mem s) 0 HEAP_BASE bs \<and> sizes_ok bs
     \<and> top_of bs \<le> HEAP_END \<and> (\<forall>x. top_of bs \<le> unat x \<and> unat x < HEAP_END \<longrightarrow> mem s x = 0)"

text \<open>The blocks in use: addresses and sizes of their data.\<close>

fun live :: "nat \<Rightarrow> ablock list \<Rightarrow> (nat \<times> nat) list" where
  "live a [] = []"
| "live a ((u, n) # bs) = (if u then [(a + 16, n)] else []) @ live (a + 16 + n) bs"

text \<open>
  What a call needs: a request that fits the region, and for kfree the address of a block in
  use that does not have a free block on both sides.
\<close>

fun free_ok :: "bool \<Rightarrow> nat \<Rightarrow> ablock list \<Rightarrow> nat \<Rightarrow> bool" where
  "free_ok pf a [] q = False"
| "free_ok pf a ((u, n) # bs) q =
     (if q = a + 16 then u \<and> \<not> (pf \<and> free_head bs) else free_ok (\<not> u) (a + 16 + n) bs q)"

definition room :: "ablock list \<Rightarrow> u32 \<Rightarrow> bool" where
  "room bs sz \<longleftrightarrow> sz \<noteq> 0 \<and> unat sz \<le> 0xFFFFFFF8 \<and>
     top_of (snd (aalloc 0 (unat (round8 sz)) (unat HEAP_BASE) bs)) \<le> HEAP_END"

definition releasable :: "ablock list \<Rightarrow> addr \<Rightarrow> bool" where
  "releasable bs ptr \<longleftrightarrow> free_ok False (unat HEAP_BASE) bs (unat ptr)"

definition live_set :: "ablock list \<Rightarrow> (nat \<times> nat) set" where
  "live_set bs = set (live (unat HEAP_BASE) bs)"

fun block_msgs :: "addr \<Rightarrow> ablock list \<Rightarrow> event list" where
  "block_msgs a [] = []"
| "block_msgs a ((u, n) # bs) = block_msg a (of_bool u) (of_nat n) # block_msgs (a + 16 + of_nat n) bs"

text \<open>A heap with given blocks and nothing in their data.\<close>

fun mk_chain :: "addr \<Rightarrow> addr \<Rightarrow> ablock list \<Rightarrow> mem" where
  "mk_chain pv a [] = (\<lambda>_. 0)"
| "mk_chain pv a ((u, n) # bs) =
     set_used (set_size (set_prev (set_next (mk_chain a (a + 16 + of_nat n) bs)
       a (if bs = [] then 0 else a + 16 + of_nat n)) a pv) a (of_nat n)) a (of_bool u)"

definition heap_of :: "ablock list \<Rightarrow> heap" where
  "heap_of bs = \<lparr>mem = mk_chain 0 HEAP_BASE bs, errno = 0, log = [], io = [], serial_enabled = 0, root = HEAP_BASE\<rparr>"

section \<open>Invariant\<close>

lemma live_range: "(q, l) \<in> set (live a bs) \<Longrightarrow> a + 16 \<le> q \<and> q + l \<le> a + ext bs"
  by (induction a bs rule: live.induct) (auto split: if_splits)

lemma live_apart:
  "(q, l) \<in> set (live a bs) \<Longrightarrow> (q', l') \<in> set (live a bs) \<Longrightarrow>
   (q, l) = (q', l') \<or> q + l + 16 \<le> q' \<or> q' + l' + 16 \<le> q"
proof (induction a bs rule: live.induct)
  case (2 a u n bs)
  then show ?case using live_range [of _ _ "a + 16 + n" bs] by (fastforce split: if_splits)
qed simp

lemma dvd_pad:
  assumes "8 dvd t"
  shows "8 dvd pad k t"
proof (cases "aligned k t")
  case False
  have "\<not> k < 3"
  proof
    assume "k < 3"
    then have "(2 :: nat) ^ k dvd 2 ^ 3" by (intro le_imp_power_dvd) simp
    moreover have "(8 :: nat) dvd t + 16" using assms by presburger
    ultimately have "2 ^ k dvd t + 16" using dvd_trans [of "2 ^ k" 8 "t + 16"] by simp
    with False show False by (simp add: aligned_def)
  qed
  then have "(2 :: nat) ^ 3 dvd 2 ^ k" by (intro le_imp_power_dvd) simp
  then have "8 dvd (t div 2 ^ k + 1) * 2 ^ k" by (simp add: dvd_mult)
  with assms False show ?thesis by (auto simp: pad_def intro!: dvd_diff_nat)
qed (simp add: pad_def)

lemma aalloc_dvd:
  "aalloc k n a bs = (p, cs) \<Longrightarrow> list_all (\<lambda>b. 8 dvd snd b) bs \<Longrightarrow> 8 dvd n \<Longrightarrow> 8 dvd a \<Longrightarrow>
   list_all (\<lambda>b. 8 dvd snd b) cs"
proof (induction k n a bs arbitrary: p cs rule: aalloc.induct)
  case (2 k n a u sz bs)
  then have "8 dvd a + 16 + sz" by simp
  with 2 dvd_pad [of "a + 16 + sz" k] show ?case
    by (auto simp: carve_def Let_def dvd_diff_nat split: if_splits prod.splits)
qed simp

lemma aalloc_pos:
  "aalloc k n a bs = (p, cs) \<Longrightarrow> list_all (\<lambda>b. 0 < snd b) bs \<Longrightarrow> 0 < n \<Longrightarrow> list_all (\<lambda>b. 0 < snd b) cs"
  by (induction k n a bs arbitrary: p cs rule: aalloc.induct)
    (auto simp: carve_def Let_def split: if_splits prod.splits)

lemma aalloc_sizes_ok:
  assumes "sizes_ok bs" "aalloc k n (unat HEAP_BASE) bs = (p, cs)" "0 < n" "8 dvd n"
    and "bs = [(False, 0)] \<Longrightarrow> k = 0 \<or> 0 < pad k (unat HEAP_BASE + 16)"
  shows "sizes_ok cs \<and> cs \<noteq> [(False, 0)]"
proof -
  have "8 dvd unat HEAP_BASE" by (simp add: HEAP_BASE_def)
  with assms have d: "list_all (\<lambda>b. 8 dvd snd b) cs"
    by (intro aalloc_dvd [OF assms(2)]) (auto simp: sizes_ok_def)
  have "list_all (\<lambda>b. 0 < snd b) cs"
  proof (cases "bs = [(False, 0)]")
    case True
    with assms(2,3,5) show ?thesis by (auto simp: Let_def carve_def split: if_splits)
  next
    case False
    with assms show ?thesis by (intro aalloc_pos [OF assms(2)]) (auto simp: sizes_ok_def)
  qed
  with d show ?thesis by (auto simp: sizes_ok_def)
qed

lemma live_append [simp]: "live a (xs @ ys) = live a xs @ live (a + ext xs) ys"
  by (induction a xs rule: live.induct) (auto simp: add.assoc)

lemma aalloc_live_new:
  "aalloc k n a bs = (p, cs) \<Longrightarrow> bs \<noteq> [] \<Longrightarrow> \<exists>l \<ge> n. (p + 16, l) \<in> set (live a cs)"
proof (induction bs arbitrary: a p cs)
  case (Cons b bs)
  obtain u sz where b: "b = (u, sz)" by force
  show ?case
  proof (cases "(\<not> u \<and> n \<le> sz \<and> aligned k a) \<or> (sz = 0 \<and> k = 0) \<or> bs = []")
    case True
    with Cons.prems b show ?thesis by (auto simp: carve_def Let_def split: if_splits)
  next
    case False
    then obtain cs' where "aalloc k n (a + 16 + sz) bs = (p, cs')" "cs = (u, sz) # cs'" "bs \<noteq> []"
      using Cons.prems b by (auto split: prod.splits if_splits)
    with Cons.IH show ?thesis by fastforce
  qed
qed simp

lemma aalloc_ge: "aalloc k n a bs = (p, cs) \<Longrightarrow> a \<le> p"
  by (induction k n a bs arbitrary: p cs rule: aalloc.induct)
    (fastforce simp: Let_def split: if_splits prod.splits)+

lemma aalloc_live_old:
  "aalloc k n a bs = (p, cs) \<Longrightarrow> 0 < n \<Longrightarrow> list_all (\<lambda>b. 0 < snd b) bs \<Longrightarrow> (q, l) \<in> set (live a bs) \<Longrightarrow>
   p + 16 \<noteq> q \<and> (\<exists>l' \<ge> l. (q, l') \<in> set (live a cs))"
proof (induction bs arbitrary: a p cs)
  case (Cons b bs)
  obtain u sz where b: "b = (u, sz)" by force
  have tl: "a + 16 + sz + 16 \<le> q" if "(q, l) \<in> set (live (a + 16 + sz) bs)"
    using live_range [OF that] by simp
  show ?case
  proof (cases "\<not> u \<and> n \<le> sz \<and> aligned k a")
    case True
    then have c: "cs = carve True n sz bs" "p = a" "(q, l) \<in> set (live (a + 16 + sz) bs)"
      using Cons.prems b by auto
    moreover have "(q, l) \<in> set (live a cs)" using c True by (auto simp: carve_def ac_simps)
    ultimately show ?thesis using tl by auto
  next
    case nofit: False
    have sz: "sz \<noteq> 0" using Cons.prems b by simp
    show ?thesis
    proof (cases "bs = []")
      case True
      with Cons.prems b sz nofit show ?thesis by (auto simp: Let_def split: if_splits)
    next
      case False
      with sz nofit obtain cs' where c: "aalloc k n (a + 16 + sz) bs = (p, cs')" "cs = (u, sz) # cs'"
        using Cons.prems b by (auto split: prod.splits if_splits)
      show ?thesis
      proof (cases "(q, l) \<in> set (live (a + 16 + sz) bs)")
        case True
        with Cons.IH [OF c(1)] Cons.prems b c(2) show ?thesis by auto
      next
        case False
        then have "q = a + 16" "l = sz" "u" using Cons.prems b by (auto split: if_splits)
        moreover have "a + 16 + sz \<le> p" using aalloc_ge [OF c(1)] by simp
        ultimately show ?thesis using c(2) sz by auto
      qed
    qed
  qed
qed simp

lemma unat_and7: "unat (w AND 7 :: u32) = unat w mod 8"
proof -
  have "w AND 7 = take_bit 3 w" by (simp add: take_bit_eq_mask mask_eq_exp_minus_1)
  then show ?thesis by (simp add: take_bit_eq_mod unat_mod)
qed

lemma unat_round8:
  assumes "unat w \<le> 0xFFFFFFF8"
  shows "unat (round8 w) = (unat w + 7) div 8 * 8"
proof (cases "unat w mod 8 = 0")
  case True
  then have "w AND 7 = 0" by (metis unat_and7 unat_eq_0)
  moreover have "(unat w + 7) div 8 * 8 = unat w" using True by presburger
  ultimately show ?thesis by (simp add: round8_def)
next
  case False
  then have "w AND 7 \<noteq> 0" by (metis unat_and7 unat_eq_0)
  have d: "unat (drop_bit 3 w) = unat w div 8" by (subst unat_drop_bit_eq) (simp add: drop_bit_eq_div)
  have "push_bit 3 (drop_bit 3 w + 1) = of_nat ((unat (drop_bit 3 w) + 1) * 8)"
    by (simp add: push_bit_eq_mult)
  also have "(unat (drop_bit 3 w) + 1) * 8 = (unat w + 7) div 8 * 8"
    unfolding d using False by presburger
  finally have "round8 w = of_nat ((unat w + 7) div 8 * 8)"
    using \<open>w AND 7 \<noteq> 0\<close> by (simp add: round8_def)
  moreover have "(unat w + 7) div 8 * 8 < 2 ^ 32" 
    using assms div_times_less_eq_dividend [of "unat w + 7" 8] by simp
  ultimately show ?thesis by (simp only: unat_of_nat32)
qed

lemma hdrs_live:
  assumes "(q, l) \<in> set (live (unat a) bs)" "unat a + ext bs \<le> 2 ^ 32" "q \<le> unat x" "unat x < q + l"
  shows "x \<notin> hdrs a bs"
  using assms
proof (induction bs arbitrary: a)
  case (Cons b bs)
  obtain u n where b: "b = (u, n)" by force
  have hd: "x \<notin> region a 16"
    using live_range [OF Cons.prems(1)] Cons.prems b by (subst region_unat) auto
  show ?case
  proof (cases "bs = []")
    case True
    with hd b show ?thesis by simp
  next
    case False
    let ?a = "a + 16 + of_nat n"
    have ua: "unat ?a = unat a + 16 + n"
      using unat_next [of a u n bs] False Cons.prems b by simp
    have "x \<notin> hdrs ?a bs"
    proof (cases "(q, l) \<in> set (live (unat ?a) bs)")
      case True
      with Cons ua b show ?thesis by auto
    next
      case False
      then have "q = unat a + 16" "l = n" using Cons.prems(1) b ua by (auto split: if_splits)
      then have "x \<notin> region ?a (ext bs)"
        using Cons.prems b ua by (subst region_unat) auto
      moreover have "ext bs \<le> 2 ^ 32" using Cons.prems b by simp
      ultimately show ?thesis using hdrs_region [of bs ?a] by blast
    qed
    with hd b show ?thesis by simp
  qed
qed simp

lemma heap_top: "unat HEAP_BASE + n \<le> 2 ^ 32 \<longleftrightarrow> n \<le> 0xFFC00000"
  by (simp add: HEAP_BASE_def)

lemma kmalloca_refines:
  fixes s :: "'a heap_scheme"
  assumes ok: "heap_ok s bs" and sz: "sz \<noteq> 0" "unat sz \<le> 0xFFFFFFF8" and k: "unat align < 32"
    and pad: "top_of cs \<noteq> top_of bs \<Longrightarrow> pad_ok (unat align) (top_of bs)"
    and first: "bs = [(False, 0)] \<Longrightarrow> align = 0 \<or> 0 < pad (unat align) (top_of bs)"
    and run: "aalloc (unat align) (unat (round8 sz)) (unat HEAP_BASE) bs = (p, cs)"
    and room: "top_of cs \<le> HEAP_END"
  shows "\<exists>m l. kmalloca s sz align = Some (of_nat (p + 16), s\<lparr>log := l, mem := m\<rparr>)
    \<and> heap_ok (s\<lparr>log := l, mem := m\<rparr>) cs \<and> (\<forall>x. x \<notin> hdrs HEAP_BASE cs \<longrightarrow> m x = mem s x)"
proof -
  let ?n = "unat (round8 sz)"
  have n: "?n = (unat sz + 7) div 8 * 8" by (rule unat_round8 [OF sz(2)])
  have "0 < unat sz" using sz by (simp add: unat_gt_0)
  then have n0: "0 < ?n" "8 dvd ?n" unfolding n by presburger+
  have h: "root s = HEAP_BASE" "bs \<noteq> []" "chain (mem s) 0 HEAP_BASE bs" "sizes_ok bs"
    "\<And>x. top_of bs \<le> unat x \<Longrightarrow> unat x < HEAP_END \<Longrightarrow> mem s x = 0"
    using ok by (auto simp: heap_ok_def)
  have nz: "nonzero_sizes bs"
    using h(4) in_set_butlastD by (fastforce simp: sizes_ok_def nonzero_sizes_def list_all_iff)
  have hb: "HEAP_BASE \<noteq> 0" by (simp add: HEAP_BASE_def)
  have "\<exists>m l. lookup s 0 (of_nat ?n) align = Some (of_nat p, s\<lparr>log := l, mem := m\<rparr>)
    \<and> chain m 0 HEAP_BASE cs \<and> (\<forall>x. x \<notin> hdrs HEAP_BASE cs \<longrightarrow> m x = mem s x)"
  proof (rule lookup_refines [OF h(3,2) _ hb _ nz _ run _ _ k n0(1) unat_lt32])
    show "slot s 0 = HEAP_BASE" using h by (simp add: slot_def)
    show "pad_ok (unat align) (unat HEAP_BASE + ext bs)" if "ext cs \<noteq> ext bs" using that pad by (simp add: top_of_def)
    show "unat HEAP_BASE + ext cs \<le> 2 ^ 32" using room by (simp add: top_of_def HEAP_END_def)
    show "mem s x = 0" if "unat HEAP_BASE + ext bs \<le> unat x" "unat x < unat HEAP_BASE + ext cs" for x
      using that room h(5) [of x] by (simp add: top_of_def)
  qed simp
  then obtain m l where r: "lookup s 0 (round8 sz) align = Some (of_nat p, s\<lparr>log := l, mem := m\<rparr>)"
    "chain m 0 HEAP_BASE cs" "\<And>x. x \<notin> hdrs HEAP_BASE cs \<Longrightarrow> m x = mem s x" by auto
  have "top_of bs = unat HEAP_BASE + 16" if "bs = [(False, 0)]" using that by (simp add: top_of_def)
  then have so: "sizes_ok cs" using aalloc_sizes_ok [OF h(4) run n0] first by (auto simp: unat_eq_0)
  obtain l' where "(p + 16, l') \<in> set (live (unat HEAP_BASE) cs)" using aalloc_live_new [OF run h(2)] by blast
  from live_range [OF this] have pb: "unat HEAP_BASE \<le> p" "p + 16 \<le> HEAP_END"
    using room by (auto simp: top_of_def)
  then have "(of_nat p :: addr) \<noteq> 0" using of_nat_eq_0_32 [of p] by (auto simp: HEAP_BASE_def HEAP_END_def)
  then have "kmalloca s sz align = Some (of_nat (p + 16), s\<lparr>log := l, mem := m\<rparr>)"
    using r(1) h(1) hb sz by (simp add: kmalloca_def Let_def blk_data_def)
  moreover have "m x = 0" if x: "top_of cs \<le> unat x" "unat x < HEAP_END" for x
  proof -
    have "x \<notin> region HEAP_BASE (ext cs)"
      using x room by (subst region_unat) (auto simp: top_of_def HEAP_END_def)
    moreover have "ext cs \<le> 2 ^ 32" using room by (simp add: top_of_def HEAP_END_def)
    ultimately have "m x = mem s x" using hdrs_region [of cs HEAP_BASE] r(3) by blast
    moreover have "top_of bs \<le> top_of cs" using aalloc_ext_ge [of bs] run by (metis top_of_def nat_add_left_cancel_le snd_conv)
    ultimately show ?thesis using x h(5) by simp
  qed
  moreover have "cs \<noteq> []" using aalloc_ne [OF h(2)] run by (metis snd_conv)
  ultimately show ?thesis using r(2,3) so h(1) room by (auto simp: heap_ok_def)
qed

lemma free_okD:
  "free_ok pf a bs q \<Longrightarrow> \<exists>pre n post. bs = pre @ (True, n) # post \<and> q = a + ext pre + 16
     \<and> \<not> ((if pre = [] then pf else \<not> fst (last pre)) \<and> free_head post)"
proof (induction bs arbitrary: pf a)
  case (Cons b bs)
  obtain u n where b: "b = (u, n)" by force
  show ?case
  proof (cases "q = a + 16")
    case True
    with Cons.prems b show ?thesis by (intro exI [of _ "[]"]) auto
  next
    case False
    with Cons.prems b have "free_ok (\<not> u) (a + 16 + n) bs q" by simp
    from Cons.IH [OF this] obtain pre k post where
      "bs = pre @ (True, k) # post" "q = a + 16 + n + ext pre + 16"
      "\<not> ((if pre = [] then \<not> u else \<not> fst (last pre)) \<and> free_head post)" by blast
    with b show ?thesis by (intro exI [of _ "b # pre"] exI [of _ k] exI [of _ post]) auto
  qed
qed simp

lemma pad_0 [simp]: "pad 0 t = 0" "pad_ok 0 t" "aligned 0 t"
  by (simp_all add: pad_def pad_ok_def aligned_def)

lemma aalloc_live_plain:
  "aalloc 0 n a bs = (p, cs) \<Longrightarrow> bs \<noteq> [] \<Longrightarrow> bs = [(False, 0)] \<or> list_all (\<lambda>b. 0 < snd b) bs \<Longrightarrow>
   \<exists>l \<ge> n. set (live a cs) = insert (p + 16, l) (set (live a bs))"
proof (induction bs arbitrary: a p cs)
  case (Cons b bs)
  obtain u sz where b: "b = (u, sz)" by force
  show ?case
  proof (cases "\<not> u \<and> n \<le> sz")
    case True
    with Cons.prems b show ?thesis
      by (intro exI [of _ "if bs = [] \<or> sz - n \<le> 24 then sz else n"])
        (auto simp: carve_def ac_simps)
  next
    case nofit: False
    show ?thesis
    proof (cases "bs = []")
      case True
      with Cons.prems b nofit show ?thesis by (auto simp: Let_def split: if_splits)
    next
      case False
      with Cons.prems(3) b have sz: "sz \<noteq> 0" "list_all (\<lambda>b. 0 < snd b) bs" by auto
      with nofit False obtain cs' where c: "aalloc 0 n (a + 16 + sz) bs = (p, cs')" "cs = (u, sz) # cs'"
        using Cons.prems(1) b by (auto split: prod.splits if_splits)
      with Cons.IH [OF c(1) False] sz obtain l where
        "n \<le> l" "set (live (a + 16 + sz) cs') = insert (p + 16, l) (set (live (a + 16 + sz) bs))" by auto
      with c b show ?thesis by (intro exI [of _ l]) auto
    qed
  qed
qed simp

lemma ext_absorb: "ext (absorb n post) = 16 + n + ext post"
  by (auto simp: absorb_def split: list.splits bool.splits)

lemma ext_afree: "ext (afree pre n post) = ext (pre @ (True, n) # post)"
  by (cases pre rule: rev_cases) (auto simp: afree_def ext_absorb)

lemma live_absorb: "live a (absorb n post) = live (a + 16 + n) post"
  by (auto simp: absorb_def ac_simps split: list.splits bool.splits)

lemma live_afree: "live a (afree pre n post) = live a pre @ live (a + ext pre + 16 + n) post"
  by (cases pre rule: rev_cases) (auto simp: afree_def live_absorb ac_simps)

lemma afree_ne: "afree pre n post \<noteq> []" 
  using ext_afree [of pre n post] by auto

lemma afree_all:
  assumes "list_all (\<lambda>b. P (snd b)) (pre @ (True, n) # post)" and "\<And>k. P k \<Longrightarrow> P (k + 16 + n)"
    "\<And>k. P k \<Longrightarrow> P (n + 16 + k)"
  shows "list_all (\<lambda>b. P (snd b)) (afree pre n post)"
  using assms by (cases pre rule: rev_cases) (auto simp: afree_def absorb_def split: list.splits bool.splits)

lemma top_frame:
  assumes "top_of cs \<le> HEAP_END" "\<forall>x. x \<notin> hdrs HEAP_BASE cs \<longrightarrow> x \<notin> region 0 16 \<longrightarrow> m' x = m x"
    "top_of cs \<le> unat x"
  shows "m' x = m x"
proof (rule assms(2) [rule_format])
  have "x \<notin> region HEAP_BASE (ext cs)"
    using assms(1,3) by (subst region_unat) (auto simp: top_of_def HEAP_END_def)
  moreover have "ext cs \<le> 2 ^ 32" using assms(1) by (simp add: top_of_def HEAP_END_def)
  ultimately show "x \<notin> hdrs HEAP_BASE cs" using hdrs_region [of cs HEAP_BASE] by blast
  have "unat x \<ge> 16" using assms(3) by (simp add: top_of_def HEAP_BASE_def)
  then show "x \<notin> region 0 16" by (simp add: region_def)
qed

lemma live_frame:
  assumes "top_of cs \<le> HEAP_END" "\<forall>x. x \<notin> hdrs HEAP_BASE cs \<longrightarrow> x \<notin> region 0 16 \<longrightarrow> m' x = m x"
    "(q, l) \<in> live_set cs" "q \<le> unat x" "unat x < q + l"
  shows "m' x = m x"
proof (rule assms(2) [rule_format])
  show "x \<notin> hdrs HEAP_BASE cs"
    using assms by (intro hdrs_live) (auto simp: live_set_def top_of_def HEAP_END_def)
  have "unat x \<ge> 16" using assms(3,4) live_range [of q l] by (fastforce simp: live_set_def)
  then show "x \<notin> region 0 16" by (simp add: region_def)
qed

lemma kmalloc_contract:
  fixes s :: "'a heap_scheme"
  assumes ok: "heap_ok s bs" and rm: "room bs sz"
  shows "\<exists>p s' cs l. kmalloc s sz = Some (p, s') \<and> heap_ok s' cs \<and> unat sz \<le> l
    \<and> live_set cs = insert (unat p, l) (live_set bs) \<and> unat p \<notin> fst ` live_set bs
    \<and> (\<forall>(q, k) \<in> live_set bs. \<forall>x. within x q k \<longrightarrow> mem s' x = mem s x)"
proof -
  let ?n = "unat (round8 sz)"
  obtain p cs where run: "aalloc (unat (0 :: u32)) ?n (unat HEAP_BASE) bs = (p, cs)" by force
  have r: "sz \<noteq> 0" "unat sz \<le> 0xFFFFFFF8" "top_of cs \<le> HEAP_END"
    using rm run by (auto simp: room_def)
  obtain m l where k: "kmalloca s sz 0 = Some (of_nat (p + 16), s\<lparr>log := l, mem := m\<rparr>)"
    "heap_ok (s\<lparr>log := l, mem := m\<rparr>) cs" "\<And>x. x \<notin> hdrs HEAP_BASE cs \<Longrightarrow> m x = mem s x"
    using kmalloca_refines [OF ok r(1,2) _ _ _ run r(3)] by auto
  have h: "bs \<noteq> []" "bs = [(False, 0)] \<or> list_all (\<lambda>b. 0 < snd b) bs"
    using ok by (auto simp: heap_ok_def sizes_ok_def)
  have "0 < unat sz" using r(1) by (simp add: unat_gt_0)
  then have n: "unat sz \<le> ?n" "0 < ?n" unfolding unat_round8 [OF r(2)] by presburger+
  obtain sz' where lv: "?n \<le> sz'" "live_set cs = insert (p + 16, sz') (live_set bs)"
    using aalloc_live_plain [OF run [unfolded unat_0] h] unfolding live_set_def by blast
  have "(p + 16, sz') \<in> set (live (unat HEAP_BASE) cs)" using lv by (simp add: live_set_def)
  from live_range [OF this] have "p + 16 < 2 ^ 32" using r(3) by (simp add: top_of_def HEAP_END_def)
  then have up: "unat (of_nat (p + 16) :: addr) = p + 16" by (simp only: unat_of_nat32)
  have "p + 16 \<noteq> q" if "(q, k) \<in> live_set bs" for q k
    using that h(2) aalloc_live_old [OF run n(2), of q k] by (auto simp: live_set_def)
  then have "p + 16 \<notin> fst ` live_set bs" by force
  moreover have "m x = mem s x" if "(q, k') \<in> live_set bs" "within x q k'" for q k' x
  proof -
    have "(q, k') \<in> live_set cs" using that lv by simp
    from live_frame [OF r(3) _ this, of m "mem s" x] k(3) that show ?thesis by (simp add: within_def)
  qed
  ultimately show ?thesis
    using k lv n up unfolding kmalloc_def
    by (intro exI [of _ "of_nat (p + 16)"] exI [of _ "s\<lparr>log := l, mem := m\<rparr>"] exI [of _ cs] exI [of _ sz'])
      auto
qed

lemma aalloc_ext_le: "bs \<noteq> [] \<Longrightarrow> ext (snd (aalloc 0 n a bs)) \<le> ext bs + 16 + n"
proof (induction bs arbitrary: a)
  case (Cons b bs)
  obtain u sz where b: "b = (u, sz)" by force
  show ?case
  proof (cases "bs = []")
    case True
    then show ?thesis by (simp add: b Let_def carve_def)
  next
    case False
    from Cons.IH [OF this, of "a + 16 + sz"] show ?thesis
      using ext_carve [of n sz True bs] by (auto simp: b Let_def split: prod.splits)
  qed
qed simp

lemma room_enough:
  assumes "heap_ok s bs" "sz \<noteq> 0" "unat sz \<le> 0xFFFFFFF8"
    and "top_of bs + 16 + (unat sz + 7) div 8 * 8 \<le> HEAP_END"
  shows "room bs sz"
proof -
  have "bs \<noteq> []" using assms(1) by (simp add: heap_ok_def)
  from aalloc_ext_le [OF this, of "unat (round8 sz)" "unat HEAP_BASE"] assms(2-)
  show ?thesis by (simp add: room_def top_of_def unat_round8)
qed

lemma kfree_heap:
  fixes s :: "'a heap_scheme"
  assumes ok: "heap_ok s bs" and bs: "bs = pre @ (True, n) # post"
    and nb: "\<not> (pre \<noteq> [] \<and> \<not> fst (last pre) \<and> free_head post)"
    and ptr: "ptr = HEAP_BASE + of_nat (ext pre) + 16"
  shows "\<exists>s'. kfree s ptr = Some s' \<and> heap_ok s' (afree pre n post) \<and> (unat ptr, n) \<in> live_set bs
    \<and> live_set (afree pre n post) = live_set bs - {(unat ptr, n)}
    \<and> (\<forall>(q, k) \<in> live_set bs. \<forall>x. within x q k \<longrightarrow> mem s' x = mem s x)"
proof -
  have h: "root s = HEAP_BASE" "chain (mem s) 0 HEAP_BASE bs" "sizes_ok bs" "top_of bs \<le> HEAP_END"
    "\<And>x. top_of bs \<le> unat x \<Longrightarrow> unat x < HEAP_END \<Longrightarrow> mem s x = 0"
    using ok by (auto simp: heap_ok_def)
  have b: "unat HEAP_BASE + ext (pre @ (True, n) # post) < 2 ^ 32"
    using h(4) bs by (simp add: top_of_def HEAP_END_def)
  have "unat (HEAP_BASE + of_nat (ext pre + 16)) = unat HEAP_BASE + (ext pre + 16)"
    using b by (intro unat_add_of_nat32) simp
  then have uptr: "unat ptr = unat HEAP_BASE + ext pre + 16" by (simp add: ptr add.assoc)
  let ?cs = "afree pre n post"
  obtain l m where k: "kfree s ptr = Some (s\<lparr>log := l, mem := m\<rparr>)" "chain m 0 HEAP_BASE ?cs"
    "\<And>x. x \<notin> hdrs HEAP_BASE bs \<Longrightarrow> x \<notin> region 0 16 \<Longrightarrow> m x = mem s x"
    using kfree_refines [OF h(2) [unfolded bs] b nb] unfolding ptr bs by blast
  have top: "top_of ?cs = top_of bs" by (simp add: top_of_def ext_afree bs)
  have "pre @ (True, n) # post \<noteq> [(False, 0)]" by (cases pre) auto
  then have "sizes_ok ?cs"
    using h(3) afree_all [of "\<lambda>k. 8 dvd k" pre n post] afree_all [of "\<lambda>k. 0 < k" pre n post]
    by (auto simp: sizes_ok_def bs Cons_eq_append_conv)
  moreover have "m x = 0" if "top_of bs \<le> unat x" "unat x < HEAP_END" for x
  proof -
    have "m x = mem s x" using k(3) that(1) by (intro top_frame [OF h(4)]) auto
    then show ?thesis using that h(5) by simp
  qed
  ultimately have "heap_ok (s\<lparr>log := l, mem := m\<rparr>) ?cs"
    using h k(2) top by (auto simp: heap_ok_def afree_ne)
  moreover have "(unat ptr, n) \<in> live_set bs" by (simp add: live_set_def bs uptr)
  moreover have "live_set ?cs = live_set bs - {(unat ptr, n)}"
  proof -
    have "(unat ptr, n) \<notin> set (live (unat HEAP_BASE) pre)"
      "(unat ptr, n) \<notin> set (live (unat HEAP_BASE + ext pre + 16 + n) post)"
      using live_range [of "unat ptr" n] uptr by fastforce+
    then show ?thesis by (auto simp: live_set_def live_afree bs uptr)
  qed
  moreover have "m x = mem s x" if "(q, k') \<in> live_set bs" "within x q k'" for q k' x
    using k(3) that(2) live_frame [OF h(4) _ that(1), of m "mem s" x] by (simp add: within_def)
  ultimately show ?thesis
    using k(1) by (intro exI [of _ "s\<lparr>log := l, mem := m\<rparr>"]) auto
qed

lemma kfree_contract:
  fixes s :: "'a heap_scheme"
  assumes ok: "heap_ok s bs" and rel: "releasable bs ptr"
  shows "\<exists>s' cs l. kfree s ptr = Some s' \<and> heap_ok s' cs \<and> (unat ptr, l) \<in> live_set bs
    \<and> live_set cs = live_set bs - {(unat ptr, l)}
    \<and> (\<forall>(q, k) \<in> live_set bs. \<forall>x. within x q k \<longrightarrow> mem s' x = mem s x)"
proof -
  obtain pre n post where bs: "bs = pre @ (True, n) # post" "unat ptr = unat HEAP_BASE + ext pre + 16"
    "\<not> ((if pre = [] then False else \<not> fst (last pre)) \<and> free_head post)"
    using free_okD [OF rel [unfolded releasable_def]] by blast
  then have nb: "\<not> (pre \<noteq> [] \<and> \<not> fst (last pre) \<and> free_head post)" by (auto split: if_splits)
  have "of_nat (unat ptr) = (of_nat (unat HEAP_BASE + ext pre + 16) :: addr)" using bs(2) by (simp only:)
  then have "ptr = HEAP_BASE + of_nat (ext pre) + 16" by simp
  from kfree_heap [OF ok bs(1) nb this] show ?thesis by blast
qed

lemma heap_ok_store:
  assumes ok: "heap_ok s bs" and q: "(q, l) \<in> live_set bs"
    and fr: "\<And>x. \<not> within x q l \<Longrightarrow> m x = mem s x"
  shows "heap_ok (s\<lparr>mem := m\<rparr>) bs"
proof -
  have top: "top_of bs \<le> HEAP_END" and ch: "chain (mem s) 0 HEAP_BASE bs" using ok by (auto simp: heap_ok_def)
  have lr: "unat HEAP_BASE + 16 \<le> q" "q + l \<le> top_of bs"
    using live_range [of q l] q by (fastforce simp: live_set_def top_of_def)+
  have "m x = mem s x" if "x \<in> hdrs HEAP_BASE bs" for x
  proof (rule fr)
    show "\<not> within x q l"
      using hdrs_live [of q l HEAP_BASE bs x] that q top
      by (auto simp: live_set_def within_def top_of_def HEAP_END_def)
  qed
  then have "chain m 0 HEAP_BASE bs" by (intro chain_hdrs_cong [OF ch]) blast
  moreover have "m x = 0" if "top_of bs \<le> unat x" "unat x < HEAP_END" for x
  proof -
    have "m x = mem s x" using that lr by (intro fr) (simp add: within_def)
    then show ?thesis using that ok by (simp add: heap_ok_def)
  qed
  ultimately show ?thesis using ok by (simp add: heap_ok_def)
qed

interpretation kheap: allocator heap_ok live_set mem "\<lambda>m. mem_update (\<lambda>_. m)" kmalloc kfree room releasable
proof unfold_locales
  fix s :: "'a heap_scheme" and h q l q' l'
  assume i: "heap_ok s h" and q: "(q, l) \<in> live_set h"
  show "(q, l) = (q', l') \<or> q + l \<le> q' \<or> q' + l' \<le> q" if "(q', l') \<in> live_set h"
    using live_apart [of q l "unat HEAP_BASE" h q' l'] q that by (auto simp: live_set_def)
  show "q + l \<le> 2 ^ 32"
    using live_range [of q l] q i by (fastforce simp: live_set_def heap_ok_def top_of_def HEAP_END_def)
next
  fix s :: "'a heap_scheme" and h q l m
  assume "heap_ok s h" "(q, l) \<in> live_set h" "\<And>x. \<not> within x q l \<Longrightarrow> m x = mem s x"
  then show "heap_ok (mem_update (\<lambda>_. m) s) h \<and> mem (mem_update (\<lambda>_. m) s) = m"
    using heap_ok_store [of s h q l m] by simp
qed (use kmalloc_contract kfree_contract in \<open>blast+\<close>)

lemma heap_ok_init:
  assumes "root s = HEAP_BASE" "\<And>x. unat HEAP_BASE \<le> unat x \<Longrightarrow> unat x < HEAP_END \<Longrightarrow> mem s x = 0"
  shows "heap_ok s [(False, 0)]"
proof -
  have z: "ld32 (mem s) (HEAP_BASE + of_nat i) = 0" if "i \<le> 12" for i
  proof (rule ld32_zero)
    fix x assume "x \<in> region (HEAP_BASE + of_nat i) 4"
    moreover have "unat (HEAP_BASE + of_nat i) = unat HEAP_BASE + i"
      using that by (intro unat_add_of_nat32) (simp add: HEAP_BASE_def)
    ultimately have "unat HEAP_BASE \<le> unat x \<and> unat x < unat HEAP_BASE + 16"
      using that by (subst (asm) region_unat) (auto simp: HEAP_BASE_def)
    then show "mem s x = 0" by (intro assms(2)) (auto simp: HEAP_BASE_def HEAP_END_def)
  qed
  show ?thesis using assms z [of 0] z [of 4] z [of 8] z [of 12]
    by (auto simp: heap_ok_def top_of_def sizes_ok_def hdr_defs HEAP_END_def HEAP_BASE_def)
qed

lemma do_block_chain:
  "chain (mem s) pv a bs \<Longrightarrow> bs \<noteq> [] \<Longrightarrow> unat a + ext bs \<le> 2 ^ 32 \<Longrightarrow>
   do_block s a = Some (s\<lparr>log := log s @ block_msgs a bs\<rparr>)" for s :: "'a heap_scheme"
proof (induction bs arbitrary: s pv a)
  case (Cons b bs)
  obtain u n where b: "b = (u, n)" by force
  show ?case
  proof (cases "bs = []")
    case True
    with Cons.prems b show ?thesis by (subst do_block.simps) (simp add: say_def Let_def)
  next
    case False
    have ua: "unat (a + 16 + of_nat n) = unat a + 16 + n"
      using unat_next [of a u n bs] False Cons.prems b by simp
    then have "a + 16 + of_nat n \<noteq> 0" by (metis add_is_0 unat_0 zero_neq_numeral)
    then have "do_block s a = do_block (say (block_msg a (of_bool u) (of_nat n)) s) (a + 16 + of_nat n)"
      using Cons.prems b False by (subst do_block.simps) (simp add: say_def Let_def)
    also have "\<dots> = Some (s\<lparr>log := log s @ block_msgs a (b # bs)\<rparr>)"
      using Cons.IH [of "say (block_msg a (of_bool u) (of_nat n)) s" a "a + 16 + of_nat n"]
        Cons.prems b False ua by (simp add: say_def)
    finally show ?thesis .
  qed
qed simp

lemma chain_unique:
  "chain m pv a bs \<Longrightarrow> chain m pv a cs \<Longrightarrow> bs \<noteq> [] \<Longrightarrow> cs \<noteq> [] \<Longrightarrow>
   unat a + ext bs < 2 ^ 32 \<Longrightarrow> unat a + ext cs < 2 ^ 32 \<Longrightarrow> bs = cs"
proof (induction bs arbitrary: pv a cs)
  case (Cons b bs)
  obtain u n where b: "b = (u, n)" by force
  obtain v k cs' where cs: "cs = (v, k) # cs'" using Cons.prems(4) by (cases cs rule: ext.cases) auto
  have hd: "v = u" "(of_nat k :: u32) = of_nat n" using Cons.prems b cs by (auto split: if_splits)
  then have "k = n" using Cons.prems b cs by (simp add: of_nat_inj32)
  have nx: "a + 16 + of_nat n \<noteq> 0" if "unat a + 16 + n < 2 ^ 32"
    using that unat_add_of_nat32 [of a "16 + n"] by (auto simp: add.assoc)
  have "bs = [] \<longleftrightarrow> cs' = []" using Cons.prems b cs hd \<open>k = n\<close> nx by (auto split: if_splits)
  moreover have "bs = cs'" if "bs \<noteq> []" "cs' \<noteq> []"
  proof (rule Cons.IH)
    have "unat (a + 16 + of_nat n) = unat a + 16 + n"
      using unat_add_of_nat32 [of a "16 + n"] Cons.prems b by (simp add: add.assoc)
    then show "unat (a + 16 + of_nat n) + ext bs < 2 ^ 32" "unat (a + 16 + of_nat n) + ext cs' < 2 ^ 32"
      using Cons.prems b cs \<open>k = n\<close> by auto
  qed (use Cons.prems b cs \<open>k = n\<close> that in auto)
  ultimately show ?case using b cs hd \<open>k = n\<close> by auto
qed simp

lemma heap_ok_unique: "heap_ok s bs \<Longrightarrow> heap_ok s cs \<Longrightarrow> bs = cs"
  by (rule chain_unique [of "mem s" 0 HEAP_BASE]) (auto simp: heap_ok_def top_of_def HEAP_END_def)

lemma aalloc_aligned:
  "aalloc k n a bs = (p, cs) \<Longrightarrow> bs \<noteq> [] \<Longrightarrow> (ext cs \<noteq> ext bs \<Longrightarrow> pad_ok k (a + ext bs)) \<Longrightarrow> aligned k p"
proof (induction k n a bs arbitrary: p cs rule: aalloc.induct)
  case (2 k n a u sz bs)
  then show ?case using pad_aligned [of k "a + 16 + sz"]
    by (auto simp: Let_def add.assoc split: if_splits prod.splits)
qed simp

lemma mk_chain_chain: "unat a + ext bs \<le> 2 ^ 32 \<Longrightarrow> chain (mk_chain pv a bs) pv a bs"
proof (induction bs arbitrary: pv a)
  case (Cons b bs)
  obtain u n where b: "b = (u, n)" by force
  have bound: "unat a + ext ((u, n) # bs) \<le> 2 ^ 32" using Cons.prems b by simp
  have "chain (mk_chain a (a + 16 + of_nat n) bs) a (a + 16 + of_nat n) bs"
  proof (cases "bs = []")
    case False
    from unat_next [OF bound this] Cons.IH bound show ?thesis by simp
  qed simp
  then show ?case unfolding b mk_chain.simps chain.simps
    by (intro conjI chain_tail_far [OF _ bound]) simp_all
qed simp

lemma mk_chain_frame: "x \<notin> hdrs a bs \<Longrightarrow> mk_chain pv a bs x = 0"
  by (induction pv a bs rule: mk_chain.induct) (auto simp: frame)

lemma heap_ok_heap_of:
  assumes "bs \<noteq> []" "sizes_ok bs" "top_of bs \<le> HEAP_END"
  shows "heap_ok (heap_of bs) bs"
proof -
  have "unat HEAP_BASE + ext bs \<le> 2 ^ 32" using assms(3) by (simp add: top_of_def HEAP_END_def)
  then have "chain (mk_chain 0 HEAP_BASE bs) 0 HEAP_BASE bs" by (rule mk_chain_chain)
  moreover have "mk_chain 0 HEAP_BASE bs x = 0" if "top_of bs \<le> unat x" for x
  proof (rule top_frame [OF assms(3) _ that, of "mk_chain 0 HEAP_BASE bs" "\<lambda>_. 0"])
    show "\<forall>x. x \<notin> hdrs HEAP_BASE bs \<longrightarrow> x \<notin> region 0 16 \<longrightarrow> mk_chain 0 HEAP_BASE bs x = 0"
      by (simp add: mk_chain_frame)
  qed
  ultimately show ?thesis using assms by (simp add: heap_ok_def heap_of_def)
qed

text \<open>What a client sees besides the contract: only memory of the region and the log change.\<close>

definition outside :: "addr \<Rightarrow> bool" where
  "outside x \<longleftrightarrow> unat x < unat HEAP_BASE \<or> HEAP_END \<le> unat x"

lemma kmalloc_shape:
  fixes s :: "'a heap_scheme"
  assumes ok: "heap_ok s bs" and rm: "room bs sz" and run: "kmalloc s sz = Some (p, s')"
  shows "\<exists>m l. s' = s\<lparr>log := l, mem := m\<rparr> \<and> (\<forall>x. outside x \<longrightarrow> m x = mem s x)"
    and "heap_ok s' cs \<Longrightarrow> top_of cs \<le> top_of bs + 16 + (unat sz + 7) div 8 * 8"
proof -
  let ?n = "unat (round8 sz)"
  obtain q ds where a: "aalloc (unat (0 :: u32)) ?n (unat HEAP_BASE) bs = (q, ds)" by force
  have r: "sz \<noteq> 0" "unat sz \<le> 0xFFFFFFF8" "top_of ds \<le> HEAP_END"
    using rm a by (auto simp: room_def)
  obtain m l where k: "kmalloca s sz 0 = Some (of_nat (q + 16), s\<lparr>log := l, mem := m\<rparr>)"
    "heap_ok (s\<lparr>log := l, mem := m\<rparr>) ds" "\<And>x. x \<notin> hdrs HEAP_BASE ds \<Longrightarrow> m x = mem s x"
    using kmalloca_refines [OF ok r(1,2) _ _ _ a r(3)] by auto
  have s': "s' = s\<lparr>log := l, mem := m\<rparr>" using k(1) run by (simp add: kmalloc_def)
  have "x \<notin> hdrs HEAP_BASE ds" if "outside x" for x
  proof -
    have "x \<notin> region HEAP_BASE (ext ds)"
      using that r(3) by (subst region_unat) (auto simp: outside_def top_of_def HEAP_END_def)
    moreover have "ext ds \<le> 2 ^ 32" using r(3) by (simp add: top_of_def HEAP_END_def)
    ultimately show ?thesis using hdrs_region [of ds HEAP_BASE] by blast
  qed
  with k(3) s' show "\<exists>m l. s' = s\<lparr>log := l, mem := m\<rparr> \<and> (\<forall>x. outside x \<longrightarrow> m x = mem s x)" by blast
  show "top_of cs \<le> top_of bs + 16 + (unat sz + 7) div 8 * 8" if "heap_ok s' cs"
  proof -
    have "cs = ds" using that k(2) s' heap_ok_unique by blast
    moreover have "bs \<noteq> []" using ok by (simp add: heap_ok_def)
    ultimately show ?thesis
      using aalloc_ext_le [of bs ?n "unat HEAP_BASE"] a by (simp add: top_of_def unat_round8 [OF r(2)])
  qed
qed

lemma kmalloc_fill:
  fixes s :: "'a heap_scheme"
  assumes ok: "heap_ok s bs" and rm: "room bs sz" and len: "unat sz = length xs"
  shows "\<exists>p m l cs k. kmalloc s sz = Some (p, s\<lparr>log := l, mem := m\<rparr>)
    \<and> heap_ok (s\<lparr>log := l, mem := wr m p xs\<rparr>) cs \<and> length xs \<le> k
    \<and> live_set cs = insert (unat p, k) (live_set bs) \<and> unat p \<notin> fst ` live_set bs
    \<and> (\<forall>(q, j) \<in> live_set bs. \<forall>x. within x q j \<longrightarrow> wr m p xs x = mem s x)
    \<and> (\<forall>x. outside x \<longrightarrow> wr m p xs x = mem s x)
    \<and> top_of cs \<le> top_of bs + 16 + (unat sz + 7) div 8 * 8"
proof -
  from kheap.alloc_fill [OF ok rm len] obtain p s' cs k where
    f: "kmalloc s sz = Some (p, s')" "heap_ok s' cs" "heap_ok (s'\<lparr>mem := wr (mem s') p xs\<rparr>) cs" "length xs \<le> k"
    "live_set cs = insert (unat p, k) (live_set bs)" "unat p \<notin> fst ` live_set bs"
    "\<forall>(q, j) \<in> live_set bs. \<forall>x. within x q j \<longrightarrow> wr (mem s') p xs x = mem s x" by auto
  obtain m l where s': "s' = s\<lparr>log := l, mem := m\<rparr>" "\<And>x. outside x \<Longrightarrow> m x = mem s x"
    using kmalloc_shape(1) [OF ok rm f(1)] by blast
  have pk: "unat HEAP_BASE \<le> unat p" "unat p + length xs \<le> HEAP_END"
    using live_range [of "unat p" k "unat HEAP_BASE" cs] f(2,4,5) by (auto simp: live_set_def heap_ok_def top_of_def)
  have "wr m p xs x = mem s x" if "outside x" for x
  proof -
    have "x \<notin> region p (length xs)"
      using that pk by (subst region_unat) (auto simp: outside_def HEAP_END_def)
    then show ?thesis using s'(2) [OF that] pk by (simp add: wr_frame HEAP_END_def)
  qed
  with f(1,3-) s' kmalloc_shape(2) [OF ok rm f(1,2)] show ?thesis
    by (intro exI [of _ p] exI [of _ m] exI [of _ l] exI [of _ cs] exI [of _ k]) simp
qed

lemma outside_within: "heap_ok s bs \<Longrightarrow> (q, l) \<in> live_set bs \<Longrightarrow> outside x \<Longrightarrow> \<not> within x q l"
  using live_range [of q l "unat HEAP_BASE" bs] by (auto simp: live_set_def heap_ok_def top_of_def outside_def within_def)

lemma aalloc_all_used:
  "list_all fst pre \<Longrightarrow> list_all (\<lambda>b. 0 < snd b) (pre @ [(True, sz)]) \<Longrightarrow> t = a + ext pre + 16 + sz \<Longrightarrow>
   aalloc k n a (pre @ [(True, sz)]) = (t + pad k t, pre @ [(True, sz + pad k t), (True, n)])"
proof (induction pre arbitrary: a)
  case (Cons b bs)
  obtain i where b: "b = (True, i)" "i \<noteq> 0" using Cons.prems by (cases b) auto
  then show ?case using Cons.IH [of "a + 16 + i"] Cons.prems by (simp add: add.assoc)
qed (simp add: Let_def)

lemma used_split:
  assumes "heap_ok s bs" "list_all fst bs"
  shows "\<exists>pre sz. bs = pre @ [(True, sz)] \<and> list_all fst pre \<and> list_all (\<lambda>b. 0 < snd b) (pre @ [(True, sz)])"
proof -
  have h: "bs \<noteq> []" "list_all (\<lambda>b. 0 < snd b) bs" using assms by (auto simp: heap_ok_def sizes_ok_def)
  then obtain pre b where "bs = pre @ [b]" by (metis rev_exhaust)
  with h assms(2) show ?thesis by (cases b) auto
qed

text \<open>A heap without free blocks, or the initial one; \<open>t\<close> is where the next block starts.\<close>

definition packed :: "ablock list \<Rightarrow> nat \<Rightarrow> bool" where
  "packed bs t \<longleftrightarrow> list_all fst bs \<and> t = top_of bs \<or> bs = [(False, 0)] \<and> t = unat HEAP_BASE"

lemma kmalloc_packed:
  fixes s :: "'a heap_scheme"
  assumes ok: "heap_ok s bs" and rm: "room bs sz" and run: "kmalloc s sz = Some (p, s')" and ok': "heap_ok s' cs" and pk: "packed bs t"
  shows "list_all fst cs \<and> top_of cs = t + 16 + (unat sz + 7) div 8 * 8"
proof -
  let ?n = "unat (round8 sz)"
  obtain q ds where a: "aalloc (unat (0 :: u32)) ?n (unat HEAP_BASE) bs = (q, ds)" by force
  have r: "sz \<noteq> 0" "unat sz \<le> 0xFFFFFFF8" "top_of ds \<le> HEAP_END" using rm a by (auto simp: room_def)
  obtain m l where k: "kmalloca s sz 0 = Some (of_nat (q + 16), s\<lparr>log := l, mem := m\<rparr>)" "heap_ok (s\<lparr>log := l, mem := m\<rparr>) ds"
    using kmalloca_refines [OF ok r(1,2) _ _ _ a r(3)] by auto
  have "s' = s\<lparr>log := l, mem := m\<rparr>" using k(1) run by (simp add: kmalloc_def)
  then have cs: "cs = ds" using k(2) ok' heap_ok_unique by blast
  have n: "?n = (unat sz + 7) div 8 * 8" by (rule unat_round8 [OF r(2)])
  have "0 < unat sz" using r(1) by (simp add: unat_gt_0)
  then have n0: "0 < ?n" unfolding n by (simp add: div_greater_zero_iff)
  show ?thesis
  proof (cases "bs = [(False, 0)]")
    case True
    then have "ds = [(True, ?n)]" "t = unat HEAP_BASE" using a n0 pk by (auto simp: packed_def)
    then show ?thesis by (simp add: cs top_of_def n)
  next
    case False
    then have u: "list_all fst bs" "t = top_of bs" using pk by (auto simp: packed_def)
    obtain pre i where b: "bs = pre @ [(True, i)]" "list_all fst pre" "list_all (\<lambda>b. 0 < snd b) (pre @ [(True, i)])"
      using used_split [OF ok u(1)] by blast
    have "ds = pre @ [(True, i), (True, ?n)]"
      using aalloc_all_used [OF b(2,3) refl, of 0 ?n "unat HEAP_BASE"] a by (simp add: b(1) pad_def aligned_def)
    then show ?thesis using b(2) by (simp add: cs u(2) b(1) top_of_def n)
  qed
qed

lemma pad_first:
  assumes "5 < k"
  shows "0 < pad k (unat HEAP_BASE + 16)"
proof -
  let ?t = "unat HEAP_BASE + 16" and ?M = "(0x400010 div 2 ^ k + 1) * 2 ^ k :: nat"
  have t: "?t = 0x400010" by (simp add: HEAP_BASE_def)
  have d: "(2 :: nat) ^ 6 dvd 2 ^ k" using assms by (intro le_imp_power_dvd) simp
  have "\<not> 2 ^ k dvd (0x400020 :: nat)"
  proof
    assume "2 ^ k dvd (0x400020 :: nat)"
    with d have "(2 :: nat) ^ 6 dvd 0x400020" by (rule dvd_trans)
    then show False by simp
  qed
  then have "\<not> aligned k ?t" using assms by (simp add: aligned_def t)
  moreover have "64 dvd ?M" using d by (simp add: dvd_mult)
  moreover have "0x400010 < ?M" using dividend_less_div_times [of "2 ^ k" "0x400010 :: nat"] by simp
  ultimately show ?thesis unfolding pad_def t by presburger
qed

lemmas heap_eval = heap_ok_heap_of sizes_ok_def top_of_def HEAP_END_def HEAP_BASE_def live_set_def
  room_def round8_def releasable_def free_head_def pad_def pad_ok_def aligned_def carve_def afree_def absorb_def

section \<open>Properties\<close>

text \<open>
  C1: kmalloca. In a heap that satisfies the invariant, a request that fits the region ends;
  the pointer is aligned to 2^align, its block is fresh and holds at least the requested bytes,
  every block in use stays in use with at least its size and with its contents, and the invariant
  holds again. Two cases of aligned requests are excluded, the defects of lookup that
  Kmalloc_Defects proves: when the heap has to grow, its end must be aligned already or at least
  16 bytes, the size of a header, below the next multiple of 2^align (pad_ok); and on the
  initial heap with its one empty block the alignment must be more than 2^5. Both conditions hold
  for requests without an alignment, and the first one whenever a free block is used.
\<close>

theorem kmalloca_ok:
  fixes s :: "'a heap_scheme"
  assumes ok: "heap_ok s bs" and sz: "sz \<noteq> 0" "unat sz \<le> 0xFFFFFFF8" and k: "unat align < 32"
    and run: "aalloc (unat align) (unat (round8 sz)) (unat HEAP_BASE) bs = (p, cs)"
    and room: "top_of cs \<le> HEAP_END"
    and pad: "top_of cs \<noteq> top_of bs \<Longrightarrow> pad_ok (unat align) (top_of bs)"
    and first: "bs = [(False, 0)] \<Longrightarrow> align = 0 \<or> 5 < unat align"
  shows "\<exists>s' l. kmalloca s sz align = Some (of_nat (p + 16), s') \<and> heap_ok s' cs
    \<and> 2 ^ unat align dvd p + 16 \<and> unat sz \<le> l \<and> (p + 16, l) \<in> live_set cs
    \<and> (\<forall>(q, j) \<in> live_set bs. q \<noteq> p + 16 \<and> (\<exists>j' \<ge> j. (q, j') \<in> live_set cs)
         \<and> (\<forall>x. within x q j \<longrightarrow> mem s' x = mem s x))"
proof -
  have "align = 0 \<or> 0 < pad (unat align) (top_of bs)" if "bs = [(False, 0)]"
    using first [OF that] pad_first [of "unat align"] that by (auto simp: top_of_def)
  then obtain m l where r: "kmalloca s sz align = Some (of_nat (p + 16), s\<lparr>log := l, mem := m\<rparr>)"
    "heap_ok (s\<lparr>log := l, mem := m\<rparr>) cs" "\<And>x. x \<notin> hdrs HEAP_BASE cs \<Longrightarrow> m x = mem s x"
    using kmalloca_refines [OF ok sz k pad _ run room] by blast
  have h: "bs \<noteq> []" "bs = [(False, 0)] \<or> list_all (\<lambda>b. 0 < snd b) bs"
    using ok by (auto simp: heap_ok_def sizes_ok_def)
  have "0 < unat sz" using sz(1) by (simp add: unat_gt_0)
  then have n: "unat sz \<le> unat (round8 sz)" "0 < unat (round8 sz)"
    unfolding unat_round8 [OF sz(2)] by presburger+
  obtain l' where l': "unat (round8 sz) \<le> l'" "(p + 16, l') \<in> live_set cs"
    using aalloc_live_new [OF run h(1)] by (auto simp: live_set_def)
  have "aligned (unat align) p" using aalloc_aligned [OF run h(1)] pad by (simp add: top_of_def)
  then have "2 ^ unat align dvd p + 16" by (auto simp: aligned_def)
  moreover have "q \<noteq> p + 16 \<and> (\<exists>j' \<ge> j. (q, j') \<in> live_set cs) \<and> (\<forall>x. within x q j \<longrightarrow> m x = mem s x)"
    if q: "(q, j) \<in> live_set bs" for q j
  proof -
    have "list_all (\<lambda>b. 0 < snd b) bs" using h(2) q by (auto simp: live_set_def)
    from aalloc_live_old [OF run n(2) this, of q j] q obtain j' where
      j': "q \<noteq> p + 16" "j \<le> j'" "(q, j') \<in> live_set cs" by (auto simp: live_set_def)
    have "m x = mem s x" if "within x q j" for x
      using live_frame [OF room _ j'(3), of m "mem s" x] r(3) that j'(2) by (simp add: within_def)
    with j' show ?thesis by blast
  qed
  ultimately show ?thesis using r(1,2) l' n
    by (intro exI [of _ "s\<lparr>log := l, mem := m\<rparr>"] exI [of _ l']) auto
qed

theorem kmalloca_ok_witness:
  "\<exists>s'. kmalloca (heap_of [(True, 24), (False, 40), (True, 8)]) 4096 12 = Some (0x401000, s')
     \<and> heap_ok s' [(True, 24), (False, 40), (True, 0xF80), (True, 4096)]"
  using kmalloca_ok [of "heap_of [(True, 24), (False, 40), (True, 8)]" "[(True, 24), (False, 40), (True, 8)]"
    4096 12 "0x400FF0" "[(True, 24), (False, 40), (True, 0xF80), (True, 4096)]"]
  by (simp add: heap_eval) blast

text \<open>
  C21: kmalloc. The block a request gets shares no byte with a block in use.
\<close>

theorem kmalloc_disjoint:
  fixes s :: "'a heap_scheme"
  assumes "heap_ok s bs" and "room bs sz"
  shows "\<exists>p s' cs l. kmalloc s sz = Some (p, s') \<and> heap_ok s' cs \<and> unat sz \<le> l \<and> (unat p, l) \<in> live_set cs
    \<and> (\<forall>(q, k) \<in> live_set bs. (q, k) \<in> live_set cs \<and> (unat p + l \<le> q \<or> q + k \<le> unat p))"
  by (rule kheap.alloc_disjoint [OF assms])

theorem kmalloc_disjoint_witness:
  "\<exists>p s' cs l. kmalloc (heap_of [(True, 24), (False, 40)]) 10 = Some (p, s') \<and> heap_ok s' cs \<and> 10 \<le> l
     \<and> (unat p, l) \<in> live_set cs \<and> (0x400010, 24) \<in> live_set cs \<and> (unat p + l \<le> 0x400010 \<or> 0x400028 \<le> unat p)"
  using kmalloc_disjoint [of "heap_of [(True, 24), (False, 40)]" "[(True, 24), (False, 40)]" 10]
  by (simp add: heap_eval del: ex_simps)

text \<open>
  C2: kfree. A block in use with at most one free neighbour becomes free, it is joined with that
  neighbour, all other blocks keep their place and their contents.
\<close>

theorem kfree_ok:
  fixes s :: "'a heap_scheme"
  assumes "heap_ok s (pre @ (True, n) # post)"
    and "\<not> (pre \<noteq> [] \<and> \<not> fst (last pre) \<and> free_head post)"
    and "ptr = HEAP_BASE + of_nat (ext pre) + 16"
  shows "\<exists>s'. kfree s ptr = Some s' \<and> heap_ok s' (afree pre n post)
    \<and> live_set (afree pre n post) = live_set (pre @ (True, n) # post) - {(unat ptr, n)}
    \<and> (\<forall>(q, k) \<in> live_set (pre @ (True, n) # post). \<forall>x. within x q k \<longrightarrow> mem s' x = mem s x)"
  using kfree_heap [OF assms(1) refl assms(2,3)] by blast

theorem kfree_ok_witness:
  "\<exists>s'. kfree (heap_of [(True, 24), (True, 40), (False, 8), (True, 16)]) 0x400038 = Some s'
     \<and> heap_ok s' [(True, 24), (False, 64), (True, 16)]"
  using kfree_ok [of "heap_of [(True, 24), (True, 40), (False, 8), (True, 16)]" "[(True, 24)]" 40
    "[(False, 8), (True, 16)]" "0x400038"]
  by (auto simp: heap_eval)

text \<open>
  C22: kmalloc followed by kfree of the block leaves exactly the blocks that were in use before.
\<close>

theorem kmalloc_kfree:
  fixes s :: "'a heap_scheme"
  assumes ok: "heap_ok s bs" and room: "room bs sz"
    and run: "aalloc 0 (unat (round8 sz)) (unat HEAP_BASE) bs = (p, cs)"
    and rel: "releasable cs (of_nat (p + 16))"
  shows "\<exists>q s' t ds. kmalloc s sz = Some (q, s') \<and> kfree s' q = Some t \<and> heap_ok t ds \<and> live_set ds = live_set bs"
proof (rule kheap.alloc_release [OF ok room])
  fix q s' h' assume a: "kmalloc s sz = Some (q, s')" "heap_ok s' h'"
  obtain m l where "kmalloca s sz 0 = Some (of_nat (p + 16), s\<lparr>log := l, mem := m\<rparr>)"
    "heap_ok (s\<lparr>log := l, mem := m\<rparr>) cs"
    using kmalloca_refines [OF ok, where sz = sz and align = 0 and p = p and cs = cs] room run by (auto simp: room_def)
  with a heap_ok_unique have "q = of_nat (p + 16)" "h' = cs" by (auto simp: kmalloc_def)
  with rel show "releasable h' q" by simp
qed

theorem kmalloc_kfree_witness:
  "\<exists>q s' t ds. kmalloc (heap_of [(True, 24)]) 10 = Some (q, s') \<and> kfree s' q = Some t \<and> heap_ok t ds
     \<and> live_set ds = {(0x400010, 24)}"
  using kmalloc_kfree [of "heap_of [(True, 24)]" "[(True, 24)]" 10 "0x400028" "[(True, 24), (True, 16)]"]
  by (simp add: heap_eval)

text \<open>
  kmalloc_info. The report of the heap ends and has one line for each block, in order.
\<close>

lemma kmalloc_info_ok:
  fixes s :: "'a heap_scheme"
  assumes "heap_ok s bs"
  shows "kmalloc_info s = Some (s\<lparr>log := log s @ block_msgs HEAP_BASE bs\<rparr>)"
  using assms unfolding kmalloc_info_def
  by (subst do_block_chain [of s 0 _ bs]) (auto simp: heap_ok_def top_of_def HEAP_END_def)

text \<open>
  C25: A defect of merge (line 40). When the block that kfree joins is the last of the list, the
  store through its successor goes through the NULL pointer: the four bytes at address 8 become
  the address of the freed block.
\<close>

theorem kfree_null_write:
  fixes s :: "'a heap_scheme"
  assumes ok: "heap_ok s (pre @ [(True, n), (False, k)])" and used: "pre \<noteq> [] \<Longrightarrow> fst (last pre)"
    and blk: "blk = HEAP_BASE + of_nat (ext pre)"
  shows "\<exists>s'. kfree s (blk + 16) = Some s' \<and> ld32 (mem s') 8 = blk"
proof -
  let ?a = HEAP_BASE
  define m1 where "m1 = set_used (mem s) blk 0"
  define m2 where "m2 = (if blk_prev m1 blk \<noteq> 0 \<and> blk_used m1 (blk_prev m1 blk) = 0
    then merge m1 (blk_prev m1 blk) else m1)"
  have ch: "chain (mem s) 0 ?a (pre @ (True, n) # [(False, k)])"
    and b: "unat ?a + ext (pre @ (True, n) # [(False, k)]) < 2 ^ 32"
    using ok by (auto simp: heap_ok_def top_of_def HEAP_END_def)
  have a: "16 \<le> unat ?a" by (simp add: HEAP_BASE_def)
  note s1 = kfree_step(1) [OF ch a less_imp_le [OF b], folded blk, folded m1_def]
  have ub: "unat blk = unat ?a + ext pre" unfolding blk using b by (intro unat_add_of_nat32) simp
  have "m2 = m1" by (rule kfree_idle [OF s1 used blk m2_def])
  moreover have "ld32 (merge m1 blk) 8 = blk"
  proof -
    obtain pv where "chain m1 pv blk [(False, n), (False, k)]" using chain_tail [OF s1] blk by blast
    then show ?thesis using ub a b by (intro merge_absorbs(5) [of m1 pv blk False n k "[]"]) auto
  qed
  moreover have "?a < blk + 16"
    using ub b unat_plus32 [of blk 16] by (simp add: word_less_nat_alt)
  ultimately show ?thesis using kfree_run [OF _ _ m1_def m2_def, of "blk + 16"] by (simp add: BLOCKSIZ_def)
qed

theorem kfree_null_write_witness:
  "\<exists>s'. kfree (heap_of [(True, 24), (False, 40)]) 0x400010 = Some s' \<and> ld32 (mem s') 8 = 0x400000"
proof -
  have "heap_ok (heap_of [(True, 24), (False, 40)]) ([] @ [(True, 24), (False, 40)])"
    by (simp add: heap_eval)
  moreover have "(0x400000 :: addr) = HEAP_BASE + of_nat (ext [])" by (simp add: HEAP_BASE_def)
  moreover have "(0x400000 + 16 :: addr) = 0x400010" by simp
  ultimately show ?thesis
    using kfree_null_write [of _ "[]" 24 40 "0x400000"] by (metis (no_types, lifting))
qed

text \<open>
  C26: A defect of kfree (lines 121 to 124). When both neighbours are free, the block is merged
  into the one before it and then merge runs on the absorbed block: the list still runs from the
  free block behind it, c, to the next block, d, but the back link of d names the absorbed block.
\<close>

theorem kfree_stale_link:
  fixes s :: "'a heap_scheme"
  assumes ok: "heap_ok s (pre @ (False, k) # (True, n) # (False, j) # (True, i) # post)"
    and blk: "blk = HEAP_BASE + of_nat (ext (pre @ [(False, k)]))"
    and nx: "c = blk + 16 + of_nat n" "d = c + 16 + of_nat j"
  shows "\<exists>s'. kfree s (blk + 16) = Some s' \<and> blk_next (mem s') c = d \<and> blk_prev (mem s') d = blk"
proof -
  let ?a = HEAP_BASE and ?p = "HEAP_BASE + of_nat (ext pre)"
  define m1 where "m1 = set_used (mem s) blk 0"
  define m2 where "m2 = merge m1 ?p"
  let ?bs = "(False, k) # (False, n) # (False, j) # (True, i) # post"
  have eq: "pre @ (False, k) # (True, n) # (False, j) # (True, i) # post =
    (pre @ [(False, k)]) @ (True, n) # (False, j) # (True, i) # post" by simp
  have ch: "chain (mem s) 0 ?a ((pre @ [(False, k)]) @ (True, n) # (False, j) # (True, i) # post)"
    and b: "unat ?a + ext ((pre @ [(False, k)]) @ (True, n) # (False, j) # (True, i) # post) < 2 ^ 32"
    using ok unfolding eq heap_ok_def by (auto simp: top_of_def HEAP_END_def)
  have a: "16 \<le> unat ?a" by (simp add: HEAP_BASE_def)
  have s1: "chain m1 0 ?a (pre @ ?bs)"
    using kfree_step(1) [OF ch a less_imp_le [OF b], folded blk, folded m1_def] by simp
  have up: "unat ?p = unat ?a + ext pre" using b by (intro unat_add_of_nat32) simp
  have blk': "blk = ?p + 16 + of_nat k" by (simp add: blk ac_simps)
  have pz: "?p \<noteq> 0" using up a by auto
  obtain pv where tl: "chain m1 pv ?p ?bs" using chain_tail [OF s1] by blast
  have bt: "16 \<le> unat ?p" "unat ?p + ext ?bs \<le> 2 ^ 32" using up a b by auto
  note ab = merge_absorbs [OF tl bt, folded m2_def]
  have addr: "?p + 16 + of_nat (k + 16 + n) = c" by (simp add: nx blk' ac_simps)
  have c: "blk_used m2 c = 0" "blk_next m2 c = d"
    using ab(1) unfolding chain.simps addr by (auto simp: nx)
  have "blk_next m1 blk = c" using tl by (simp add: nx blk')
  then have bn: "blk_next m2 blk = c" using ab(4) by (simp add: blk')
  have uc: "unat blk = unat ?p + 16 + k" "unat c = unat ?p + 16 + k + 16 + n"
    "unat d = unat ?p + 16 + k + 16 + n + 16 + j"
    using unat_add_of_nat32 [of ?p "16 + k"] unat_add_of_nat32 [of ?p "16 + k + 16 + n"]
      unat_add_of_nat32 [of ?p "16 + k + 16 + n + 16 + j"] bt b up
    by (simp_all add: nx blk' ac_simps)
  have sp: "sep blk 16 c 16" "sep c 16 d 16" "sep blk 16 d 16"
    by (rule sep_below; use uc bt in simp)+
  note sp = sp sp [THEN sep_sym]
  have cz: "c \<noteq> 0" using uc by auto
  define m3 where "m3 = merge m2 blk"
  have "blk_next m3 c = d" "blk_prev m3 d = blk"
    using bn c cz sp by (simp_all add: m3_def merge_def Let_def)
  moreover have "?a < blk + 16"
    using uc b up unat_plus32 [of blk 16] by (simp add: word_less_nat_alt)
  moreover have "m2 = (if blk_prev m1 blk \<noteq> 0 \<and> blk_used m1 (blk_prev m1 blk) = 0
    then merge m1 (blk_prev m1 blk) else m1)"
    using chain_split_last [OF s1] pz by (simp add: m2_def blk)
  ultimately show ?thesis
    using kfree_run [OF _ _ m1_def, of "blk + 16" m2] by (simp add: BLOCKSIZ_def m3_def)
qed

theorem kfree_stale_link_witness:
  "\<exists>s'. kfree (heap_of [(False, 8), (True, 8), (False, 8), (True, 8)]) 0x400028 = Some s'
     \<and> blk_next (mem s') 0x400030 = 0x400048 \<and> blk_prev (mem s') 0x400048 = 0x400018"
  using kfree_stale_link [of "heap_of [(False, 8), (True, 8), (False, 8), (True, 8)]" "[]" 8 8 8 8 "[]"
    "0x400018" "0x400030" "0x400048"]
  by (simp add: heap_eval)

end
