(* ===== verification/Heap_Client.thy ===== *)
theory Heap_Client
  imports Kmalloc_Heap Libc_String
begin

text \<open>
  What the clients of the heap share: objects that live in a block, stores into them, and an
  allocation that is filled with zeros, the idiom \<open>p=kmalloc(n); memset(p,0,n)\<close> of the
  interrupt tables, the frame bitmap, the page tables and the file systems.
\<close>

section \<open>Objects in blocks\<close>

definition owns :: "ablock list \<Rightarrow> addr \<Rightarrow> nat \<Rightarrow> bool" where
  "owns bs p n \<longleftrightarrow> (\<exists>k \<ge> n. (unat p, k) \<in> live_set bs)"

lemma owns_range:
  assumes "heap_ok s bs" "owns bs p n"
  shows "unat HEAP_BASE + 16 \<le> unat p \<and> unat p + n \<le> HEAP_END"
  using assms live_range [of "unat p" _ "unat HEAP_BASE" bs]
  by (fastforce simp: owns_def live_set_def heap_ok_def top_of_def)

lemma owns_within:
  assumes "heap_ok s bs" "owns bs p n" "x \<in> region p n"
  shows "\<exists>k. (unat p, k) \<in> live_set bs \<and> within x (unat p) k"
proof -
  obtain k where k: "n \<le> k" "(unat p, k) \<in> live_set bs" using assms(2) by (auto simp: owns_def)
  have "unat p \<le> unat x \<and> unat x < unat p + n"
    using assms(3) owns_range [OF assms(1,2)] region_unat [of p n] by (auto simp: HEAP_END_def)
  with k show ?thesis by (intro exI [of _ k]) (simp add: within_def)
qed

lemma owns_outside: "heap_ok s bs \<Longrightarrow> owns bs p n \<Longrightarrow> outside x \<Longrightarrow> x \<notin> region p n"
  using owns_within outside_within by blast

lemma owns_store:
  assumes "heap_ok s bs" "owns bs p n" "\<And>x. x \<notin> region p n \<Longrightarrow> m x = mem s x"
  shows "heap_ok (s\<lparr>mem := m\<rparr>) bs"
proof -
  obtain k where k: "n \<le> k" "(unat p, k) \<in> live_set bs" using assms(2) by (auto simp: owns_def)
  show ?thesis
  proof (rule heap_ok_store [OF assms(1) k(2)])
    fix x assume "\<not> within x (unat p) k"
    then have "x \<notin> region p n"
      using owns_range [OF assms(1,2)] k(1) region_unat [of p n] by (auto simp: within_def HEAP_END_def)
    then show "m x = mem s x" by (rule assms(3))
  qed
qed

lemma owns_store2:
  assumes "heap_ok s bs" "owns bs p n" "owns bs q k" "\<And>x. x \<notin> region p n \<Longrightarrow> x \<notin> region q k \<Longrightarrow> m x = mem s x"
  shows "heap_ok (s\<lparr>mem := m\<rparr>) bs"
proof -
  define m1 where "m1 = (\<lambda>x. if x \<in> region p n then m x else mem s x)"
  have "heap_ok (s\<lparr>mem := m1\<rparr>) bs" by (rule owns_store [OF assms(1,2)]) (simp add: m1_def)
  from owns_store [OF this assms(3), of m] assms(4) show ?thesis by (auto simp: m1_def)
qed

lemma owns_apart:
  assumes "heap_ok s bs" "owns bs p n" "owns bs q k" "p \<noteq> q"
  shows "region p n \<inter> region q k = {}"
proof -
  have "False" if x: "x \<in> region p n" "x \<in> region q k" for x
  proof -
    obtain i j where "(unat p, i) \<in> live_set bs" "within x (unat p) i" "(unat q, j) \<in> live_set bs" "within x (unat q) j"
      using owns_within [OF assms(1,2) x(1)] owns_within [OF assms(1,3) x(2)] by blast
    moreover have "unat p \<noteq> unat q" using assms(4) by (simp add: word_unat_eq_iff)
    ultimately show False using kheap.live_disjoint [OF assms(1), of "unat p" i "unat q" j] by (auto simp: within_def)
  qed
  then show ?thesis by blast
qed

lemma heap_ok_fields: "root s' = root s \<Longrightarrow> mem s' = mem s \<Longrightarrow> heap_ok s' bs = heap_ok s bs"
  by (simp add: heap_ok_def)

text \<open>Memory outside the heap.\<close>

definition outside_heap :: "addr \<Rightarrow> nat \<Rightarrow> bool" where
  "outside_heap p n \<longleftrightarrow> (\<forall>x \<in> region p n. outside x)"

lemma heap_ok_outside:
  assumes "heap_ok s bs" "\<And>x. \<not> outside x \<Longrightarrow> m x = mem s x"
  shows "heap_ok (s\<lparr>mem := m\<rparr>) bs"
proof -
  have h: "chain (mem s) 0 HEAP_BASE bs" "top_of bs \<le> HEAP_END" using assms(1) by (auto simp: heap_ok_def)
  have "chain m 0 HEAP_BASE bs"
  proof (rule chain_cong [OF h(1)])
    fix x assume "x \<in> region HEAP_BASE (ext bs)"
    then have "\<not> outside x"
      using h(2) region_unat [of HEAP_BASE "ext bs"] by (auto simp: outside_def top_of_def HEAP_END_def)
    then show "m x = mem s x" by (rule assms(2))
  qed (use h(2) in \<open>simp add: top_of_def HEAP_END_def\<close>)
  moreover have "m x = 0" if "top_of bs \<le> unat x" "unat x < HEAP_END" for x
  proof -
    have "\<not> outside x" using that by (auto simp: outside_def top_of_def)
    then show ?thesis using assms that by (simp add: heap_ok_def)
  qed
  ultimately show ?thesis using assms(1) by (simp add: heap_ok_def)
qed

section \<open>Allocation\<close>

text \<open>
  A new object of \<open>n\<close> bytes at \<open>p\<close>: it is apart from the objects there were, and these
  stay. \<open>keeps\<close>: the contents of the blocks and the memory outside the heap stay.
\<close>

definition grows :: "ablock list \<Rightarrow> ablock list \<Rightarrow> addr \<Rightarrow> nat \<Rightarrow> bool" where
  "grows bs cs p n \<longleftrightarrow> owns cs p n \<and> unat p \<notin> fst ` live_set bs \<and> live_set bs \<subseteq> live_set cs
     \<and> top_of cs \<le> top_of bs + 16 + (n + 7) div 8 * 8
     \<and> (\<forall>t. packed bs t \<longrightarrow> packed cs (t + 16 + (n + 7) div 8 * 8))"

definition keeps :: "ablock list \<Rightarrow> mem \<Rightarrow> mem \<Rightarrow> bool" where
  "keeps bs m m' \<longleftrightarrow> (\<forall>(q, j) \<in> live_set bs. \<forall>x. within x q j \<longrightarrow> m' x = m x) \<and> (\<forall>x. outside x \<longrightarrow> m' x = m x)"

definition fits :: "ablock list \<Rightarrow> nat \<Rightarrow> bool" where
  "fits bs n \<longleftrightarrow> top_of bs + 16 + (n + 7) div 8 * 8 \<le> HEAP_END"

lemma keeps_refl [simp]: "keeps bs m m"
  by (simp add: keeps_def)

lemma keeps_trans: "keeps bs m m1 \<Longrightarrow> keeps cs m1 m2 \<Longrightarrow> live_set bs \<subseteq> live_set cs \<Longrightarrow> keeps bs m m2"
  unfolding keeps_def by fastforce

lemma keeps_owns: "heap_ok s bs \<Longrightarrow> owns bs p n \<Longrightarrow> keeps bs m m' \<Longrightarrow> x \<in> region p n \<Longrightarrow> m' x = m x"
  using owns_within [of s bs p n x] by (fastforce simp: keeps_def)

lemma keeps_outside: "keeps bs m m' \<Longrightarrow> outside x \<Longrightarrow> m' x = m x"
  by (simp add: keeps_def)

text \<open>A store into a new object keeps the objects there were.\<close>

lemma keeps_store:
  assumes "heap_ok s cs" "owns cs p n" "unat p \<notin> fst ` live_set bs" "live_set bs \<subseteq> live_set cs"
    "\<And>x. x \<notin> region p n \<Longrightarrow> m' x = m x"
  shows "keeps bs m m'"
proof -
  have "x \<notin> region p n" if q: "(q, j) \<in> live_set bs" "within x q j" for q j x
  proof
    assume "x \<in> region p n"
    from owns_within [OF assms(1,2) this] obtain k where k: "(unat p, k) \<in> live_set cs" "within x (unat p) k" by blast
    have "unat p \<noteq> q" using assms(3) q(1) by force
    then show False using kheap.live_disjoint [OF assms(1) k(1), of q j] k(2) q assms(4) by (auto simp: within_def)
  qed
  with assms(5) owns_outside [OF assms(1,2)] show ?thesis by (fastforce simp: keeps_def)
qed

lemma owns_mono: "owns bs p n \<Longrightarrow> live_set bs \<subseteq> live_set cs \<Longrightarrow> k \<le> n \<Longrightarrow> owns cs p k"
  unfolding owns_def by (meson order_trans subsetD)

lemma grows_owns: "grows bs cs p n \<Longrightarrow> owns bs q k \<Longrightarrow> owns cs q k \<and> q \<noteq> p"
  by (force simp: grows_def owns_def)

lemma wr_zeros: "x \<in> region p n \<Longrightarrow> n \<le> 2 ^ 32 \<Longrightarrow> wr m p (replicate n 0) x = 0"
  by (elim regionE) (simp add: wr_nth)

lemma kmalloc_zeroed:
  fixes s :: "'a heap_scheme"
  assumes ok: "heap_ok s bs" and sz: "sz \<noteq> 0" and fit: "fits bs (unat sz)"
  shows "\<exists>p m l cs. kmalloc s sz = Some (p, s\<lparr>log := l, mem := m\<rparr>)
    \<and> heap_ok (s\<lparr>log := l, mem := m\<rparr>) cs \<and> heap_ok (s\<lparr>log := l, mem := memset m p 0 sz\<rparr>) cs
    \<and> grows bs cs p (unat sz) \<and> keeps bs (mem s) m \<and> keeps bs (mem s) (memset m p 0 sz)
    \<and> (\<forall>x \<in> region p (unat sz). memset m p 0 sz x = 0)"
proof -
  let ?n = "unat sz"
  have b: "?n \<le> HEAP_END"
    using fit div_mult_mod_eq [of "?n + 7" 8] mod_less_divisor [of 8 "?n + 7"] unfolding fits_def by linarith
  have rm: "room bs sz" using fit b by (intro room_enough [OF ok sz]) (simp_all add: fits_def HEAP_END_def)
  obtain p m l cs k where f: "kmalloc s sz = Some (p, s\<lparr>log := l, mem := m\<rparr>)"
    "heap_ok (s\<lparr>log := l, mem := wr m p (replicate ?n 0)\<rparr>) cs" "?n \<le> k"
    "live_set cs = insert (unat p, k) (live_set bs)" "unat p \<notin> fst ` live_set bs"
    "\<forall>(q, j) \<in> live_set bs. \<forall>x. within x q j \<longrightarrow> wr m p (replicate ?n 0) x = mem s x"
    "\<forall>x. outside x \<longrightarrow> wr m p (replicate ?n 0) x = mem s x" "top_of cs \<le> top_of bs + 16 + (?n + 7) div 8 * 8"
    using kmalloc_fill [OF ok rm, of "replicate ?n 0"] by auto
  have o: "owns cs p ?n" using f(3,4) by (auto simp: owns_def)
  have out: "m x = wr m p (replicate ?n 0) x" if "x \<notin> region p ?n" for x
    using wr_frame [of x p "replicate ?n 0" m] that b by (simp add: HEAP_END_def)
  from owns_store [OF f(2) o, of m] out
  have ok': "heap_ok (s\<lparr>log := l, mem := m\<rparr>) cs" by simp
  have "packed cs (t + 16 + (?n + 7) div 8 * 8)" if "packed bs t" for t
    using kmalloc_packed [OF ok rm f(1) ok' that] by (simp add: packed_def)
  then have gr: "grows bs cs p ?n" using f(4-) o by (auto simp: grows_def)
  have k1: "keeps bs (mem s) (wr m p (replicate ?n 0))" using f(6,7) by (simp add: keeps_def)
  have "keeps bs (wr m p (replicate ?n 0)) m"
    using keeps_store [OF f(2) o f(5)] f(4) out by blast
  with k1 have k2: "keeps bs (mem s) m" by (rule keeps_trans) simp
  show ?thesis using f(1,2) ok' gr k1 k2 b wr_zeros [of _ p ?n m]
    by (intro exI [of _ p] exI [of _ m] exI [of _ l] exI [of _ cs]) (auto simp: memset_wr HEAP_END_def)
qed

end
