(* ===== verification/Pic.thy ===== *)
theory Pic
  imports Ports
begin

text \<open>
  The interrupt controllers of kernel/dev/pic.c. The mask register of a controller is read and
  written at its data port; the hypothesis \<open>latches\<close> says that it reads back what was written.
\<close>

text \<open>The port of an access, and a trace of accesses to some ports only.\<close>

fun port_of :: "io_event \<Rightarrow> u16" where
  "port_of (Outb p v) = p"
| "port_of (Outw p w) = p"
| "port_of (Outl p l) = p"
| "port_of (Inb p v) = p"
| "port_of (Inw p w) = p"
| "port_of (Inl p l) = p"

definition only :: "u16 set \<Rightarrow> io_event list \<Rightarrow> bool" where
  "only ps tr \<longleftrightarrow> list_all (\<lambda>x. port_of x \<in> ps) tr"

lemma only_append [simp]: "only ps (xs @ ys) \<longleftrightarrow> only ps xs \<and> only ps ys"
  by (simp add: only_def)

section \<open>pic.c\<close>

definition PIC1 :: byte where "PIC1 = 0x20"
definition PIC2 :: byte where "PIC2 = 0xA0"
definition PIC1_CMD :: u16 where "PIC1_CMD = 0x20"
definition PIC1_DATA :: u16 where "PIC1_DATA = 0x21"
definition PIC2_CMD :: u16 where "PIC2_CMD = 0xA0"
definition PIC2_DATA :: u16 where "PIC2_DATA = 0xA1"
definition pic_ports :: "u16 set" where "pic_ports = {0x20, 0x21, 0xA0, 0xA1}"

definition remap_msg :: "byte \<Rightarrow> byte \<Rightarrow> event" where
  "remap_msg o1 o2 = Serial_printf (''[pic] master pic offset=0x%x, slave pic offset=0x%x'' @ nl)
     [ArgW (ucast o1), ArgW (ucast o2)]"

definition pic_remap :: "hw \<Rightarrow> byte \<Rightarrow> byte \<Rightarrow> 'a machine_scheme \<Rightarrow> 'a machine_scheme" where
  "pic_remap hw offset1 offset2 s =
     (let s = say (remap_msg offset1 offset2) s;
          (mask1, s) = inb hw PIC1_DATA s;
          (mask2, s) = inb hw PIC2_DATA s;
          s = outb PIC1_CMD 0x11 s;
          s = outb PIC2_CMD 0x11 s;
          s = outb PIC1_DATA offset1 s;
          s = outb PIC2_DATA offset2 s;
          s = outb PIC1_DATA 4 s;
          s = outb PIC2_DATA 2 s;
          s = outb PIC1_DATA 1 s;
          s = outb PIC2_DATA 1 s;
          s = outb PIC1_DATA mask1 s
      in outb PIC2_DATA mask2 s)"

definition pic_send_eoi :: "byte \<Rightarrow> 'a machine_scheme \<Rightarrow> 'a machine_scheme" where
  "pic_send_eoi irq s =
     (let s = (if 8 \<le> irq then outb PIC2_CMD 0x20 s else s) in outb PIC1_CMD 0x20 s)"

text \<open>The data port \<open>pic+1\<close>, computed as an int and passed as a 16-bit port.\<close>

definition data_port :: "byte \<Rightarrow> u16" where
  "data_port pic = ucast pic + 1"

definition pic_mask :: "hw \<Rightarrow> byte \<Rightarrow> byte \<Rightarrow> 'a machine_scheme \<Rightarrow> 'a machine_scheme" where
  "pic_mask hw pic offset s =
     (let (v, s) = inb hw (data_port pic) s
      in outb (data_port pic) (ucast (ucast v OR push_bit (unat offset) (1 :: u32))) s)"

definition pic_unmask :: "hw \<Rightarrow> byte \<Rightarrow> byte \<Rightarrow> 'a machine_scheme \<Rightarrow> 'a machine_scheme" where
  "pic_unmask hw pic offset s =
     (let (v, s) = inb hw (data_port pic) s
      in outb (data_port pic) (ucast (ucast v AND NOT (push_bit (unat offset) (1 :: u32)))) s)"

definition pic_disable :: "'a machine_scheme \<Rightarrow> 'a machine_scheme" where
  "pic_disable s =
     (let s = outb PIC1_DATA 0xFF s; s = outb PIC2_DATA 0xFF s
      in say (Serial_printf (''[pic] disabled'' @ nl) []) s)"

section \<open>irq_enable and irq_disable (kernel/interrupt.c)\<close>

definition irq_disable :: "hw \<Rightarrow> byte \<Rightarrow> 'a machine_scheme \<Rightarrow> 'a machine_scheme" where
  "irq_disable hw no s = pic_mask hw (if no < 8 then PIC1 else PIC2) (no mod 8) s"

definition irq_enable :: "hw \<Rightarrow> byte \<Rightarrow> 'a machine_scheme \<Rightarrow> 'a machine_scheme" where
  "irq_enable hw no s = pic_unmask hw (if no < 8 then PIC1 else PIC2) (no mod 8) s"

section \<open>Specification\<close>

text \<open>
  The interrupt lines that are masked, by the last bytes written to the data ports; the
  registers held \<open>v1\<close> and \<open>v2\<close> at the start.
\<close>

definition masked :: "byte \<Rightarrow> byte \<Rightarrow> 'a machine_scheme \<Rightarrow> nat set" where
  "masked v1 v2 s = {n. n < 8 \<and> bit (last_written PIC1_DATA v1 (io s)) n}
     \<union> {n. 8 \<le> n \<and> n < 16 \<and> bit (last_written PIC2_DATA v2 (io s)) (n - 8)}"

section \<open>Lemmas\<close>

lemma pic_ports [simp]: "data_port PIC1 = PIC1_DATA" "data_port PIC2 = PIC2_DATA"
  "PIC1_DATA \<noteq> PIC2_DATA" "PIC2_DATA \<noteq> PIC1_DATA" "PIC1_CMD \<noteq> PIC1_DATA" "PIC1_CMD \<noteq> PIC2_DATA"
  "PIC2_CMD \<noteq> PIC1_DATA" "PIC2_CMD \<noteq> PIC2_DATA"
  by (simp_all add: data_port_def PIC1_def PIC2_def PIC1_DATA_def PIC2_DATA_def PIC1_CMD_def PIC2_CMD_def)

lemma bit_set_byte: "k < 8 \<Longrightarrow> j < 8 \<Longrightarrow>
  bit (ucast (ucast v OR push_bit k (1 :: u32)) :: byte) j \<longleftrightarrow> j = k \<or> bit v j" for v :: byte
  by (auto simp: bit_simps)

lemma bit_clear_byte: "k < 8 \<Longrightarrow> j < 8 \<Longrightarrow>
  bit (ucast (ucast v AND NOT (push_bit k (1 :: u32))) :: byte) j \<longleftrightarrow> j \<noteq> k \<and> bit v j" for v :: byte
  by (auto simp: bit_simps)

lemma last_mask:
  assumes "latches hw p v" "p = data_port pic"
  shows "last_written q w (io (pic_mask hw pic k s)) =
      (if q = p then ucast (ucast (last_written p v (io s)) OR push_bit (unat k) (1 :: u32)) else last_written q w (io s))"
    and "last_written q w (io (pic_unmask hw pic k s)) =
      (if q = p then ucast (ucast (last_written p v (io s)) AND NOT (push_bit (unat k) (1 :: u32))) else last_written q w (io s))"
  using assms by (simp_all add: pic_mask_def pic_unmask_def inb_eq latches_def)

lemma irq_line: "no < 16 \<Longrightarrow> unat (no mod 8) < 8 \<and> unat no = (if no < 8 then unat (no mod 8) else 8 + unat (no mod 8))"
  for no :: byte
  by (auto simp: word_less_nat_alt unat_mod mod_if)

lemma irq_masked:
  assumes "latches hw PIC1_DATA v1" "latches hw PIC2_DATA v2" "no < 16"
  shows "masked v1 v2 (irq_disable hw no s) = insert (unat no) (masked v1 v2 s)"
    and "masked v1 v2 (irq_enable hw no s) = masked v1 v2 s - {unat no}"
proof -
  note l = irq_line [OF assms(3)]
  note m1 = last_mask [OF assms(1), of PIC1, where s = s] and m2 = last_mask [OF assms(2), of PIC2, where s = s]
  show "masked v1 v2 (irq_disable hw no s) = insert (unat no) (masked v1 v2 s)"
    using l by (cases "no < 8") (auto simp: masked_def irq_disable_def bit_set_byte m1 m2 simp del: push_bit_of_1)
  show "masked v1 v2 (irq_enable hw no s) = masked v1 v2 s - {unat no}"
    using l by (cases "no < 8") (auto simp: masked_def irq_enable_def bit_clear_byte m1 m2 simp del: push_bit_of_1)
qed

section \<open>Properties\<close>

text \<open>
  C36: irq_disable and irq_enable change the mask of exactly one of the sixteen interrupt lines, on
  the controller that has the line.
\<close>

theorem irq_mask_ok:
  assumes "latches hw PIC1_DATA v1" and "latches hw PIC2_DATA v2" and "no < 16"
  shows "masked v1 v2 (irq_disable hw no s) = insert (unat no) (masked v1 v2 s)
    \<and> masked v1 v2 (irq_enable hw no s) = masked v1 v2 s - {unat no}"
  using irq_masked [OF assms] by blast

text \<open>Controllers that read back the masks written to them.\<close>

definition latch_hw :: hw where
  "latch_hw tr p = ucast (last_written p 0xFF tr)"

lemma latch_hw_latches: "latches latch_hw p 0xFF"
proof -
  have "ucast (ucast b :: u32) = b" for b :: byte by (rule bit_word_eqI) (simp add: bit_simps)
  then show ?thesis by (simp add: latches_def latch_hw_def)
qed

lemma masked_start: "masked 0xFF 0xFF \<lparr>mem = \<lambda>_. 0, errno = 0, log = [], io = []\<rparr> = {..<16}"
proof -
  have ff: "bit (0xFF :: byte) k \<longleftrightarrow> k < 8" for k
  proof -
    have "(0xFF :: byte) = mask 8" by (simp add: mask_eq_exp_minus_1)
    then have "bit (0xFF :: byte) k = bit (mask 8 :: byte) k" by (rule arg_cong)
    then show ?thesis by (simp only: bit_mask_iff possible_bit_word) auto
  qed
  show ?thesis unfolding masked_def machine.select_convs last_written_Nil ff by auto
qed

theorem irq_mask_ok_witness:
  "masked 0xFF 0xFF (irq_enable latch_hw 1 \<lparr>mem = \<lambda>_. 0, errno = 0, log = [], io = []\<rparr>) = {..<16} - {1}"
  using irq_mask_ok [OF latch_hw_latches latch_hw_latches, of 1 "\<lparr>mem = \<lambda>_. 0, errno = 0, log = [], io = []\<rparr>"]
    masked_start by simp

text \<open>
  pic_remap leaves both mask registers as it found them.
\<close>

lemma pic_remap_masks:
  assumes "latches hw PIC1_DATA v1" and "latches hw PIC2_DATA v2"
  shows "masked v1 v2 (pic_remap hw o1 o2 s) = masked v1 v2 s"
  using assms by (simp add: masked_def pic_remap_def inb_eq say_def latches_def)

end
