(* ===== verification/Interrupt.thy ===== *)
theory Interrupt
  imports Heap_Client Pic
begin

text \<open>
  Interrupts (kernel/interrupt.c, include/cpu/interrupt.h): the gates of the IDT and the table
  of handlers, both arrays in the heap, and the dispatch of a vector through the table. The
  code behind an address is the parameter \<open>call\<close>; the gates hold the addresses of the
  assembly stubs, which the linker chooses.
\<close>

section \<open>State\<close>

record registers =
  r_ds :: u32
  r_edi :: u32
  r_esi :: u32
  r_ebp :: u32
  r_junk :: u32
  r_ebx :: u32
  r_edx :: u32
  r_ecx :: u32
  r_eax :: u32
  r_int_no :: u32
  r_err_code :: u32
  r_eip :: u32
  r_cs :: u32
  r_eflags :: u32
  r_esp :: u32
  r_ss :: u32

record idt_desc =
  limit :: u16
  base :: addr

text \<open>The static variables of interrupt.c, and the register that lidt loads.\<close>

record intr = heap +
  entries :: addr
  handlers :: addr
  idtr :: idt_desc
  idt_reg :: idt_desc

definition CODESEG :: u16 where "CODESEG = 0x08"
definition entries_sz :: u32 where "entries_sz = 8 * 256"
definition handlers_sz :: u32 where "handlers_sz = 4 * 256"

section \<open>Operations\<close>

definition zero_division :: "registers \<Rightarrow> 'a machine_scheme \<Rightarrow> 'a machine_scheme fate" where
  "zero_division regs s = Hangs (say (Puts ''Zero division'') s)"

definition general_protection :: "registers \<Rightarrow> 'a machine_scheme \<Rightarrow> 'a machine_scheme fate" where
  "general_protection regs s =
     (let s = say (Printf (''General Protection Fault on Segment: %d'' @ nl) [ArgW (r_err_code regs)]) s;
          s = say (Printf (''Stack: 0x%x'' @ nl) [ArgW (r_esp regs)]) s;
          s = say (Printf (''At: 0x%x'' @ nl) [ArgW (r_eip regs)]) s;
          s = say (Printf (''DS: 0x%x'' @ nl) [ArgW (r_ds regs)]) s
      in Hangs s)"

text \<open>A gate is eight bytes: base_lo, segment, zero, flags, base_hi.\<close>

definition idt_hook :: "byte \<Rightarrow> addr \<Rightarrow> u16 \<Rightarrow> byte \<Rightarrow> 'a intr_scheme \<Rightarrow> 'a intr_scheme" where
  "idt_hook num fp segment flags s =
     (let p = entries s + 8 * ucast num;
          m = st16 (mem s) p (ucast (fp AND 0xFFFF));
          m = st16 m (p + 6) (ucast (drop_bit 16 fp AND 0xFFFF));
          m = st16 m (p + 2) segment;
          m = m(p + 4 := 0);
          m = m(p + 5 := flags)
      in s\<lparr>mem := m\<rparr>)"

definition int_hook_handler :: "byte \<Rightarrow> addr \<Rightarrow> 'a intr_scheme \<Rightarrow> 'a intr_scheme" where
  "int_hook_handler no handler s = s\<lparr>mem := st32 (mem s) (handlers s + 4 * ucast no) handler\<rparr>"

text \<open>The calls \<open>idt_hook(n,f n,CODESEG,0x8E)\<close> for a list of vectors.\<close>

definition hook_all :: "(nat \<Rightarrow> addr) \<Rightarrow> nat list \<Rightarrow> 'a intr_scheme \<Rightarrow> 'a intr_scheme" where
  "hook_all f ns s = fold (\<lambda>n. idt_hook (of_nat n) (f n) CODESEG 0x8E) ns s"

definition irq_init :: "hw \<Rightarrow> image \<Rightarrow> 'a intr_scheme \<Rightarrow> 'a intr_scheme" where
  "irq_init hw img s = hook_all (\<lambda>n. img (Irq_stub (n - 32))) [32..<48] (pic_remap hw 0x20 0x28 s)"

definition idt_alloc :: "'a intr_scheme \<Rightarrow> 'a intr_scheme option" where
  "idt_alloc s =
     (if entries s = 0
      then do {
        r \<leftarrow> kmalloc s entries_sz;
        let s = (snd r)\<lparr>entries := fst r\<rparr>;
        Some (s\<lparr>mem := memset (mem s) (entries s) 0 entries_sz\<rparr>)
      }
      else Some s)"

definition handlers_alloc :: "'a intr_scheme \<Rightarrow> 'a intr_scheme option" where
  "handlers_alloc s =
     (if handlers s = 0
      then do {
        r \<leftarrow> kmalloc s handlers_sz;
        let s = (snd r)\<lparr>handlers := fst r\<rparr>;
        Some (s\<lparr>mem := memset (mem s) (handlers s) 0 handlers_sz\<rparr>)
      }
      else Some s)"

definition idt_init :: "hw \<Rightarrow> image \<Rightarrow> 'a intr_scheme \<Rightarrow> 'a intr_scheme option" where
  "idt_init hw img s =
     do {
       s \<leftarrow> idt_alloc s;
       s \<leftarrow> handlers_alloc s;
       let s = s\<lparr>idtr := \<lparr>limit = ucast (entries_sz - 1), base = entries s\<rparr>\<rparr>;
       let s = hook_all (\<lambda>n. img (Int_stub n)) [0..<32] s;
       let s = irq_init hw img s;
       Some (s\<lparr>idt_reg := idtr s\<rparr>)
     }"

definition int_init :: "hw \<Rightarrow> image \<Rightarrow> 'a intr_scheme \<Rightarrow> 'a intr_scheme option" where
  "int_init hw img s =
     do {
       s \<leftarrow> idt_init hw img s;
       let s = int_hook_handler 0x00 (img Zero_division) s;
       Some (int_hook_handler 0x0D (img General_protection) s)
     }"

type_synonym 's code = "addr \<Rightarrow> registers \<Rightarrow> 's \<Rightarrow> 's fate option"

definition handler_at :: "'a intr_scheme \<Rightarrow> u32 \<Rightarrow> addr" where
  "handler_at s no = ld32 (mem s) (handlers s + 4 * no)"

definition int_handler ::
  "'a intr_scheme code \<Rightarrow> registers \<Rightarrow> 'a intr_scheme \<Rightarrow> 'a intr_scheme fate option" where
  "int_handler call regs s =
     (if handler_at s (r_int_no regs) \<noteq> 0 then call (handler_at s (r_int_no regs)) regs s
      else Some (Returns (say (Printf (''Unhandled interrupt 0x%x'' @ nl) [ArgW (r_int_no regs)]) s)))"

definition irq_handler ::
  "'a intr_scheme code \<Rightarrow> registers \<Rightarrow> 'a intr_scheme \<Rightarrow> 'a intr_scheme fate option" where
  "irq_handler call regs s =
     (let s = pic_send_eoi (ucast (r_int_no regs - 0x20)) s
      in if handler_at s (r_int_no regs) \<noteq> 0 then call (handler_at s (r_int_no regs)) regs s
         else Some (Returns s))"

section \<open>Specification\<close>

text \<open>What the processor reads from a gate.\<close>

record gate =
  g_base :: addr
  g_segment :: u16
  g_zero :: byte
  g_flags :: byte

definition gate_at :: "mem \<Rightarrow> addr \<Rightarrow> nat \<Rightarrow> gate" where
  "gate_at m e n =
     (let p = e + of_nat (n * 8)
      in \<lparr>g_base = ucast (ld16 m p) OR push_bit 16 (ucast (ld16 m (p + 6))),
          g_segment = ld16 m (p + 2), g_zero = m (p + 4), g_flags = m (p + 5)\<rparr>)"

definition kernel_gate :: "addr \<Rightarrow> gate" where
  "kernel_gate f = \<lparr>g_base = f, g_segment = CODESEG, g_zero = 0, g_flags = 0x8E\<rparr>"

definition no_gate :: gate where
  "no_gate = \<lparr>g_base = 0, g_segment = 0, g_zero = 0, g_flags = 0\<rparr>"

text \<open>The stub of a vector.\<close>

definition stub :: "image \<Rightarrow> nat \<Rightarrow> addr" where
  "stub img n = (if n < 32 then img (Int_stub n) else img (Irq_stub (n - 32)))"

section \<open>Lemmas\<close>

lemma vector_offset: "n < 256 \<Longrightarrow> (8 * ucast (of_nat n :: byte) :: u32) = of_nat (n * 8)"
  "n < 256 \<Longrightarrow> (4 * ucast (of_nat n :: byte) :: u32) = of_nat (n * 4)"
  by (simp_all add: unsigned_of_nat take_bit_nat_eq_self)

lemma word_halves: "ucast (ucast (w AND 0xFFFF) :: u16) OR push_bit 16 (ucast (ucast (drop_bit 16 w AND 0xFFFF) :: u16)) = w"
  for w :: u32
proof -
  have m: "(0xFFFF :: u32) = mask 16" by (simp add: mask_eq_exp_minus_1)
  show ?thesis unfolding m by (rule bit_word_eqI) (auto simp: bit_simps)
qed

lemma gate_cong:
  "(\<And>x. x \<in> region (e + of_nat (n * 8)) 8 \<Longrightarrow> m x = m' x) \<Longrightarrow> gate_at m e n = gate_at m' e n"
  unfolding gate_at_def Let_def mem_defs by (simp add: region_def add.assoc)

lemma hook_gate: "n < 256 \<Longrightarrow> e = entries s \<Longrightarrow>
  gate_at (mem (idt_hook (of_nat n) f seg fl s)) e n = \<lparr>g_base = f, g_segment = seg, g_zero = 0, g_flags = fl\<rparr>"
  using word16_of_bytes [of seg] word_halves [of f]
    word16_of_bytes [of "ucast (f AND 0xFFFF)"] word16_of_bytes [of "ucast (drop_bit 16 f AND 0xFFFF)"]
  by (simp add: gate_at_def idt_hook_def vector_offset Let_def mem_defs add.assoc del: of_nat_mult)

lemma hook_frame [frame]: "n < 256 \<Longrightarrow> x \<notin> region (entries s + of_nat (n * 8)) 8 \<Longrightarrow>
  mem (idt_hook (of_nat n) f seg fl s) x = mem s x"
  by (auto simp: idt_hook_def vector_offset Let_def mem_defs add.assoc region_def simp del: of_nat_mult)

lemma hook_rec: "\<exists>m. idt_hook n f seg fl s = s\<lparr>mem := m\<rparr>"
  unfolding idt_hook_def Let_def by blast

lemma gate_slots: "n < 256 \<Longrightarrow> k < 256 \<Longrightarrow> n \<noteq> k \<Longrightarrow>
  region (e + of_nat (n * 8)) 8 \<inter> region (e + of_nat (k * 8)) 8 = {}"
  by (intro sep_region array_slots) auto

lemma gate_in_table: "n < 256 \<Longrightarrow> region (e + of_nat (n * 8)) 8 \<subseteq> region e 2048"
  by (intro region_sub) auto

lemma hook_all_run:
  assumes "\<forall>n \<in> set ns. n < 256"
  shows "\<exists>m. hook_all f ns s = s\<lparr>mem := m\<rparr> \<and> (\<forall>x. x \<notin> region (entries s) 2048 \<longrightarrow> m x = mem s x)
    \<and> (\<forall>k < 256. gate_at m (entries s) k = (if k \<in> set ns then kernel_gate (f k) else gate_at (mem s) (entries s) k))"
  using assms
proof (induction ns arbitrary: s)
  case Nil
  then show ?case by (auto simp: hook_all_def intro!: exI [of _ "mem s"])
next
  case (Cons n ns)
  have n: "n < 256" using Cons.prems by simp
  let ?t = "idt_hook (of_nat n) (f n) CODESEG 0x8E s"
  obtain m1 where t: "?t = s\<lparr>mem := m1\<rparr>" using hook_rec by blast
  obtain m where m: "hook_all f ns ?t = ?t\<lparr>mem := m\<rparr>" "\<And>x. x \<notin> region (entries s) 2048 \<Longrightarrow> m x = m1 x"
    "\<And>k. k < 256 \<Longrightarrow> gate_at m (entries s) k = (if k \<in> set ns then kernel_gate (f k) else gate_at m1 (entries s) k)"
    using Cons.IH [of ?t] Cons.prems t by auto
  have m1: "m1 x = mem s x" if "x \<notin> region (entries s + of_nat (n * 8)) 8" for x
    using hook_frame [OF n that, of "f n" CODESEG "0x8E"] t by simp
  have g: "gate_at m1 (entries s) k = (if k = n then kernel_gate (f n) else gate_at (mem s) (entries s) k)" if "k < 256" for k
  proof (cases "k = n")
    case True
    then show ?thesis using hook_gate [OF n refl, where s = s and f = "f n" and seg = CODESEG and fl = "0x8E"] t by (simp add: kernel_gate_def)
  next
    case False
    with gate_slots [OF that n] m1 show ?thesis by (auto intro!: gate_cong simp del: of_nat_mult)
  qed
  have "hook_all f (n # ns) s = s\<lparr>mem := m\<rparr>" using m(1) t by (simp add: hook_all_def)
  moreover have "m x = mem s x" if "x \<notin> region (entries s) 2048" for x
    using m(2) [OF that] m1 [of x] gate_in_table [OF n, of "entries s"] that by auto
  moreover have "gate_at m (entries s) k = (if k \<in> set (n # ns) then kernel_gate (f k) else gate_at (mem s) (entries s) k)"
    if "k < 256" for k using m(3) [OF that] g [OF that] by auto
  ultimately show ?case by blast
qed

lemma hook_range:
  assumes "j \<le> 256"
  shows "\<exists>m. hook_all f [i..<j] s = s\<lparr>mem := m\<rparr> \<and> (\<forall>x. x \<notin> region (entries s) 2048 \<longrightarrow> m x = mem s x)
    \<and> (\<forall>k < 256. gate_at m (entries s) k = (if i \<le> k \<and> k < j then kernel_gate (f k) else gate_at (mem s) (entries s) k))"
  using hook_all_run [of "[i..<j]" f s] assms by auto

text \<open>The table of handlers.\<close>

lemma handler_hook:
  assumes "n < 256" "k < 256"
  shows "handler_at (int_hook_handler (of_nat n) h s) (of_nat k) = (if k = n then h else handler_at s (of_nat k))"
  using ld32_array [of n k "mem s" "handlers s" h] assms vector_offset(2) [OF assms(1)]
  by (auto simp: handler_at_def int_hook_handler_def mult.commute)

lemma handler_hook_frame [frame]:
  assumes "n < 256" "x \<notin> region (handlers s) 1024"
  shows "mem (int_hook_handler (of_nat n) h s) x = mem s x"
proof -
  have "region (handlers s + of_nat (n * 4)) 4 \<subseteq> region (handlers s) 1024" using assms(1) by (intro region_sub) auto
  with assms st32_frame [of x "handlers s + of_nat (n * 4)"] show ?thesis
    by (auto simp: int_hook_handler_def vector_offset simp del: of_nat_mult)
qed

text \<open>The two tables in the heap.\<close>

definition int_ok :: "'a intr_scheme \<Rightarrow> ablock list \<Rightarrow> bool" where
  "int_ok s bs \<longleftrightarrow> heap_ok s bs \<and> owns bs (entries s) 2048 \<and> owns bs (handlers s) 1024 \<and> entries s \<noteq> handlers s"

lemma int_ok_apart: "int_ok s bs \<Longrightarrow> region (entries s) 2048 \<inter> region (handlers s) 1024 = {}"
  unfolding int_ok_def using owns_apart [of s bs] by blast

lemma handlers_cong:
  assumes "\<And>x. x \<in> region (handlers s) 1024 \<Longrightarrow> mem s' x = mem s x" "handlers s' = handlers s" "k < 256"
  shows "handler_at s' (of_nat k) = handler_at s (of_nat k)"
proof -
  have "region (handlers s + of_nat (k * 4)) 4 \<subseteq> region (handlers s) 1024" using assms(3) by (intro region_sub) auto
  then have "ld32 (mem s') (handlers s + of_nat (k * 4)) = ld32 (mem s) (handlers s + of_nat (k * 4))"
    using assms(1) by (intro ld32_cong) blast
  then show ?thesis using assms(2) by (simp add: handler_at_def mult.commute)
qed

lemma handler_zero:
  assumes "\<forall>x \<in> region (handlers s) 1024. mem s x = 0" "k < 256"
  shows "handler_at s (of_nat k) = 0"
proof -
  have "region (handlers s + of_nat (k * 4)) 4 \<subseteq> region (handlers s) 1024" using assms(2) by (intro region_sub) auto
  then have "ld32 (mem s) (handlers s + of_nat (k * 4)) = 0" using assms(1) by (intro ld32_zero) blast
  then show ?thesis by (simp add: handler_at_def mult.commute)
qed

lemma zeroed_gate: "(\<And>x. x \<in> region e 2048 \<Longrightarrow> m x = 0) \<Longrightarrow> k < 256 \<Longrightarrow> gate_at m e k = no_gate"
proof -
  assume z: "\<And>x. x \<in> region e 2048 \<Longrightarrow> m x = 0" and k: "k < 256"
  have "gate_at m e k = gate_at (\<lambda>_. 0) e k"
    using z gate_in_table [OF k, of e] by (intro gate_cong) blast
  then show ?thesis by (simp add: gate_at_def Let_def no_gate_def mem_defs)
qed

lemma sizes [simp]: "entries_sz = 2048" "handlers_sz = 1024"
  by (simp_all add: entries_sz_def handlers_sz_def)

lemma idt_alloc_ok:
  fixes s :: "'a intr_scheme"
  assumes ok: "heap_ok s bs" and e: "entries s = 0" and fit: "fits bs 2048"
  shows "\<exists>p m l cs. idt_alloc s = Some (s\<lparr>log := l, mem := m, entries := p\<rparr>)
    \<and> heap_ok (s\<lparr>log := l, mem := m, entries := p\<rparr>) cs \<and> grows bs cs p 2048 \<and> keeps bs (mem s) m
    \<and> (\<forall>x \<in> region p 2048. m x = 0)"
proof -
  obtain p m l cs where "kmalloc s entries_sz = Some (p, s\<lparr>log := l, mem := m\<rparr>)"
    "heap_ok (s\<lparr>log := l, mem := memset m p 0 2048\<rparr>) cs" "grows bs cs p 2048"
    "keeps bs (mem s) (memset m p 0 2048)" "\<forall>x \<in> region p 2048. memset m p 0 2048 x = 0"
    using kmalloc_zeroed [OF ok, of entries_sz] fit by auto
  with e show ?thesis
    by (intro exI [of _ p] exI [of _ "memset m p 0 2048"] exI [of _ l] exI [of _ cs])
      (auto simp: idt_alloc_def heap_ok_def)
qed

lemma handlers_alloc_ok:
  fixes s :: "'a intr_scheme"
  assumes ok: "heap_ok s bs" and e: "handlers s = 0" and fit: "fits bs 1024"
  shows "\<exists>p m l cs. handlers_alloc s = Some (s\<lparr>log := l, mem := m, handlers := p\<rparr>)
    \<and> heap_ok (s\<lparr>log := l, mem := m, handlers := p\<rparr>) cs \<and> grows bs cs p 1024 \<and> keeps bs (mem s) m
    \<and> (\<forall>x \<in> region p 1024. m x = 0)"
proof -
  obtain p m l cs where "kmalloc s handlers_sz = Some (p, s\<lparr>log := l, mem := m\<rparr>)"
    "heap_ok (s\<lparr>log := l, mem := memset m p 0 1024\<rparr>) cs" "grows bs cs p 1024"
    "keeps bs (mem s) (memset m p 0 1024)" "\<forall>x \<in> region p 1024. memset m p 0 1024 x = 0"
    using kmalloc_zeroed [OF ok, of handlers_sz] fit by auto
  with e show ?thesis
    by (intro exI [of _ p] exI [of _ "memset m p 0 1024"] exI [of _ l] exI [of _ cs])
      (auto simp: handlers_alloc_def heap_ok_def)
qed

lemma pic_remap_rec: "\<exists>l tr. pic_remap hw a b s = s\<lparr>log := l, io := io s @ tr\<rparr> \<and> only pic_ports tr" for s :: "'a machine_scheme"
  by (simp add: pic_remap_def inb_eq outb_def say_def) (auto simp: only_def pic_ports_def PIC1_CMD_def PIC1_DATA_def PIC2_CMD_def PIC2_DATA_def intro!: exI)

text \<open>The hooks of idt_init and irq_init, from the zeroed tables on.\<close>

lemma hooks_ok:
  fixes s :: "'a intr_scheme"
  assumes ok: "int_ok s bs" and z: "\<And>x. x \<in> region (entries s) 2048 \<Longrightarrow> mem s x = 0"
  shows "\<exists>m l tr. irq_init hw img (hook_all (\<lambda>n. img (Int_stub n)) [0..<32] s) = s\<lparr>log := l, io := io s @ tr, mem := m\<rparr>
    \<and> only pic_ports tr \<and> int_ok (s\<lparr>log := l, io := io s @ tr, mem := m\<rparr>) bs \<and> (\<forall>x. x \<notin> region (entries s) 2048 \<longrightarrow> m x = mem s x)
    \<and> (\<forall>n < 256. gate_at m (entries s) n = (if n < 48 then kernel_gate (stub img n) else no_gate))"
proof -
  obtain m1 where m1: "hook_all (\<lambda>n. img (Int_stub n)) [0..<32] s = s\<lparr>mem := m1\<rparr>"
    "\<And>x. x \<notin> region (entries s) 2048 \<Longrightarrow> m1 x = mem s x"
    "\<And>k. k < 256 \<Longrightarrow> gate_at m1 (entries s) k = (if k < 32 then kernel_gate (img (Int_stub k)) else gate_at (mem s) (entries s) k)"
    using hook_range [of 32 "\<lambda>n. img (Int_stub n)" 0 s] by (auto simp del: upt_rec_numeral)
  obtain l tr where p: "pic_remap hw 0x20 0x28 (s\<lparr>mem := m1\<rparr>) = s\<lparr>mem := m1, log := l, io := io s @ tr\<rparr>" "only pic_ports tr"
    using pic_remap_rec [of hw "0x20" "0x28" "s\<lparr>mem := m1\<rparr>"] by auto
  let ?s = "s\<lparr>mem := m1, log := l, io := io s @ tr\<rparr>"
  obtain m where m: "hook_all (\<lambda>n. img (Irq_stub (n - 32))) [32..<48] ?s = ?s\<lparr>mem := m\<rparr>"
    "\<And>x. x \<notin> region (entries s) 2048 \<Longrightarrow> m x = m1 x"
    "\<And>k. k < 256 \<Longrightarrow> gate_at m (entries s) k =
       (if 32 \<le> k \<and> k < 48 then kernel_gate (img (Irq_stub (k - 32))) else gate_at m1 (entries s) k)"
    using hook_range [of 48 "\<lambda>n. img (Irq_stub (n - 32))" 32 ?s] by (auto simp del: upt_rec_numeral)
  have fr: "m x = mem s x" if "x \<notin> region (entries s) 2048" for x using m(2) m1(2) that by simp
  have "heap_ok (s\<lparr>mem := m\<rparr>) bs"
    using ok fr by (auto simp: int_ok_def intro!: owns_store [of s bs "entries s" 2048])
  then have "int_ok (s\<lparr>log := l, io := io s @ tr, mem := m\<rparr>) bs" using ok by (simp add: int_ok_def heap_ok_def)
  moreover have "gate_at m (entries s) k = (if k < 48 then kernel_gate (stub img k) else no_gate)" if "k < 256" for k
    using m(3) [OF that] m1(3) [OF that] zeroed_gate [OF z that] by (auto simp: stub_def)
  ultimately show ?thesis using m(1) m1(1) p fr
    by (intro exI [of _ m] exI [of _ l] exI [of _ tr]) (auto simp: irq_init_def simp del: upt_rec_numeral)
qed

lemma handler_store_ok:
  assumes "int_ok s bs" "n < 256"
  shows "int_ok (int_hook_handler (of_nat n) h s) bs"
proof -
  have "heap_ok (s\<lparr>mem := mem (int_hook_handler (of_nat n) h s)\<rparr>) bs"
    using assms handler_hook_frame [OF assms(2), of _ s h]
    by (auto simp: int_ok_def intro!: owns_store [of s bs "handlers s" 1024])
  then show ?thesis using assms(1) by (simp add: int_ok_def int_hook_handler_def)
qed

lemma idt_init_run:
  fixes s :: "'a intr_scheme"
  assumes ok: "heap_ok s bs" and nul: "entries s = 0" "handlers s = 0" and top: "top_of bs + 3104 \<le> HEAP_END"
  shows "\<exists>s' cs. idt_init hw img s = Some s' \<and> int_ok s' cs \<and> keeps bs (mem s) (mem s')
    \<and> live_set bs \<subseteq> live_set cs \<and> unat (handlers s') \<notin> fst ` live_set bs
    \<and> (\<forall>x \<in> region (handlers s') 1024. mem s' x = 0)
    \<and> (\<forall>n < 256. gate_at (mem s') (entries s') n = (if n < 48 then kernel_gate (stub img n) else no_gate))
    \<and> idt_reg s' = \<lparr>limit = 2047, base = entries s'\<rparr> \<and> (\<forall>t. packed bs t \<longrightarrow> packed cs (t + 3104))
    \<and> (\<exists>l m h e i r tr. s' = s\<lparr>log := l, mem := m, entries := e, handlers := h, idtr := i, idt_reg := r, io := io s @ tr\<rparr> \<and> only pic_ports tr)"
proof -
  obtain e m1 l1 b1 where a: "idt_alloc s = Some (s\<lparr>log := l1, mem := m1, entries := e\<rparr>)"
    "heap_ok (s\<lparr>log := l1, mem := m1, entries := e\<rparr>) b1" "grows bs b1 e 2048" "keeps bs (mem s) m1"
    "\<forall>x \<in> region e 2048. m1 x = 0"
    using idt_alloc_ok [OF ok nul(1)] top by (auto simp: fits_def)
  let ?s1 = "s\<lparr>log := l1, mem := m1, entries := e\<rparr>"
  have "fits b1 1024" using a(3) top by (simp add: fits_def grows_def)
  from handlers_alloc_ok [OF a(2) _ this] nul obtain h m2 l2 cs where
    b: "handlers_alloc ?s1 = Some (?s1\<lparr>log := l2, mem := m2, handlers := h\<rparr>)"
    "heap_ok (?s1\<lparr>log := l2, mem := m2, handlers := h\<rparr>) cs" "grows b1 cs h 1024" "keeps b1 m1 m2"
    "\<forall>x \<in> region h 1024. m2 x = 0" by auto
  let ?s2 = "?s1\<lparr>log := l2, mem := m2, handlers := h, idtr := \<lparr>limit = 2047, base = e\<rparr>\<rparr>"
  have e: "owns b1 e 2048" using a(3) by (simp add: grows_def)
  have h: "owns cs h 1024" "live_set b1 \<subseteq> live_set cs" using b(3) by (simp_all add: grows_def)
  have io2: "int_ok ?s2 cs" using b(2) grows_owns [OF b(3) e] h by (auto simp: int_ok_def heap_ok_def)
  have "mem ?s2 x = 0" if "x \<in> region (entries ?s2) 2048" for x
    using keeps_owns [OF a(2) e b(4)] a(5) that by simp
  from hooks_ok [OF io2 this, of hw img] obtain m l tr where
    k: "irq_init hw img (hook_all (\<lambda>n. img (Int_stub n)) [0..<32] ?s2) = ?s2\<lparr>log := l, io := io s @ tr, mem := m\<rparr>"
    "int_ok (?s2\<lparr>log := l, io := io s @ tr, mem := m\<rparr>) cs" "\<And>x. x \<notin> region e 2048 \<Longrightarrow> m x = m2 x"
    "\<forall>n < 256. gate_at m e n = (if n < 48 then kernel_gate (stub img n) else no_gate)" "only pic_ports tr" by auto
  let ?s' = "?s2\<lparr>log := l, io := io s @ tr, mem := m, idt_reg := \<lparr>limit = 2047, base = e\<rparr>\<rparr>"
  have run: "idt_init hw img s = Some ?s'" using a(1) b(1) k(1) by (simp add: idt_init_def Let_def del: upt_rec_numeral)
  have sub: "live_set bs \<subseteq> live_set b1" using a(3) by (simp add: grows_def)
  have k2: "keeps bs m2 m"
    using keeps_store [OF b(2), of e 2048 bs m m2] grows_owns [OF b(3) e] a(3) h k(3) by (auto simp: grows_def)
  have "keeps bs (mem s) m" using keeps_trans [OF keeps_trans [OF a(4) b(4) sub] k2] by simp
  moreover have "m x = 0" if "x \<in> region h 1024" for x
    using k(3) [of x] b(5) that int_ok_apart [OF io2] by auto
  moreover have "int_ok ?s' cs" using k(2) by (simp add: int_ok_def heap_ok_def)
  moreover have "unat h \<notin> fst ` live_set bs" using b(3) sub by (auto simp: grows_def)
  moreover have "packed cs (t + 3104)" if "packed bs t" for t
  proof -
    have "packed b1 (t + 16 + (2048 + 7) div 8 * 8)" using a(3) that unfolding grows_def by blast
    then have "packed cs (t + 16 + (2048 + 7) div 8 * 8 + 16 + (1024 + 7) div 8 * 8)" using b(3) unfolding grows_def by blast
    then show ?thesis by (simp add: add.assoc)
  qed
  moreover have "\<exists>l m h e i r tr. ?s' = s\<lparr>log := l, mem := m, entries := e, handlers := h, idtr := i, idt_reg := r, io := io s @ tr\<rparr> \<and> only pic_ports tr"
    using k(5) by (intro exI [of _ l] exI [of _ m] exI [of _ h] exI [of _ e] exI [of _ "\<lparr>limit = 2047, base = e\<rparr>"] exI [of _ tr]) simp
  ultimately show ?thesis using run k(4) sub h(2) by (intro exI [of _ ?s'] exI [of _ cs]) auto
qed

text \<open>int_init, with what its callers need besides.\<close>

lemma int_init_run:
  fixes s :: "'a intr_scheme"
  assumes ok: "heap_ok s bs" and nul: "entries s = 0" "handlers s = 0" and top: "top_of bs + 3104 \<le> HEAP_END"
  shows "\<exists>s' cs. int_init hw img s = Some s' \<and> int_ok s' cs \<and> keeps bs (mem s) (mem s')
    \<and> idt_reg s' = \<lparr>limit = 2047, base = entries s'\<rparr>
    \<and> (\<forall>n < 256. gate_at (mem s') (entries s') n = (if n < 48 then kernel_gate (stub img n) else no_gate))
    \<and> (\<forall>n < 256. handler_at s' (of_nat n) =
         (if n = 0 then img Zero_division else if n = 13 then img General_protection else 0))
    \<and> live_set bs \<subseteq> live_set cs \<and> unat (handlers s') \<notin> fst ` live_set bs \<and> (\<forall>t. packed bs t \<longrightarrow> packed cs (t + 3104))
    \<and> (\<exists>l m h e i r tr. s' = s\<lparr>log := l, mem := m, entries := e, handlers := h, idtr := i, idt_reg := r, io := io s @ tr\<rparr> \<and> only pic_ports tr)"
proof -
  obtain s1 cs where i: "idt_init hw img s = Some s1" "int_ok s1 cs" "keeps bs (mem s) (mem s1)"
    "live_set bs \<subseteq> live_set cs" "unat (handlers s1) \<notin> fst ` live_set bs" "\<forall>x \<in> region (handlers s1) 1024. mem s1 x = 0"
    "\<forall>n < 256. gate_at (mem s1) (entries s1) n = (if n < 48 then kernel_gate (stub img n) else no_gate)"
    "idt_reg s1 = \<lparr>limit = 2047, base = entries s1\<rparr>" "\<forall>t. packed bs t \<longrightarrow> packed cs (t + 3104)"
    "\<exists>l m h e i r tr. s1 = s\<lparr>log := l, mem := m, entries := e, handlers := h, idtr := i, idt_reg := r, io := io s @ tr\<rparr> \<and> only pic_ports tr"
    using idt_init_run [OF assms, of hw img] by blast
  let ?s2 = "int_hook_handler (of_nat 0) (img Zero_division) s1"
  let ?s3 = "int_hook_handler (of_nat 13) (img General_protection) ?s2"
  have run: "int_init hw img s = Some ?s3" using i(1) by (simp add: int_init_def)
  have same: "handlers ?s2 = handlers s1" "entries ?s3 = entries s1" "idt_reg ?s3 = idt_reg s1"
    by (simp_all add: int_hook_handler_def)
  have fr: "mem ?s3 x = mem s1 x" if "x \<notin> region (handlers s1) 1024" for x
    using handler_hook_frame [of 13 x ?s2] handler_hook_frame [of 0 x s1] that same by simp
  have "int_ok ?s3 cs" by (intro handler_store_ok i(2)) simp_all
  moreover have "keeps bs (mem s) (mem ?s3)"
    using keeps_store [of s1 cs "handlers s1" 1024 bs "mem ?s3" "mem s1"] i(2,4,5) fr
    by (intro keeps_trans [OF i(3), where cs = bs]) (auto simp: int_ok_def)
  moreover have "gate_at (mem ?s3) (entries s1) n = gate_at (mem s1) (entries s1) n" if "n < 256" for n
    using int_ok_apart [OF i(2)] gate_in_table [OF that, of "entries s1"] by (intro gate_cong fr) blast
  moreover have "handler_at s1 (of_nat n) = 0" if "n < 256" for n
    using handler_zero [OF i(6) that] .
  moreover have "handler_at ?s3 (of_nat n) =
      (if n = 13 then img General_protection else if n = 0 then img Zero_division else handler_at s1 (of_nat n))" if "n < 256" for n
    using that by (simp only: handler_hook if_cancel)
  moreover have "\<exists>l m h e i r tr. ?s3 = s\<lparr>log := l, mem := m, entries := e, handlers := h, idtr := i, idt_reg := r, io := io s @ tr\<rparr> \<and> only pic_ports tr"
  proof -
    obtain l m h e i r tr where "s1 = s\<lparr>log := l, mem := m, entries := e, handlers := h, idtr := i, idt_reg := r, io := io s @ tr\<rparr>" "only pic_ports tr"
      using i(10) by blast
    then show ?thesis
      by (intro exI [of _ l] exI [of _ "mem ?s3"] exI [of _ h] exI [of _ e] exI [of _ i] exI [of _ r] exI [of _ tr]) (simp add: int_hook_handler_def)
  qed
  moreover have "unat (handlers ?s3) \<notin> fst ` live_set bs" using i(5) by (simp add: int_hook_handler_def)
  ultimately show ?thesis using run i(4,7,8,9) same by (intro exI [of _ ?s3] exI [of _ cs]) auto
qed

section \<open>Properties\<close>

text \<open>
  C13: int_init. From a heap with room for the two tables, the call ends; the processor has the
  table of 256 gates, gates 0 to 47 lead to their stubs as present kernel interrupt gates and the
  others are absent; the handlers of vectors 0 and 13 are registered and no others; the tables are
  two objects of the heap, whose invariant holds, and every other object keeps its contents.
\<close>

theorem int_init_ok:
  fixes s :: "'a intr_scheme"
  assumes ok: "heap_ok s bs" and nul: "entries s = 0" "handlers s = 0" and top: "top_of bs + 3104 \<le> HEAP_END"
  shows "\<exists>s' cs. int_init hw img s = Some s' \<and> int_ok s' cs \<and> keeps bs (mem s) (mem s')
    \<and> idt_reg s' = \<lparr>limit = 2047, base = entries s'\<rparr>
    \<and> (\<forall>n < 256. gate_at (mem s') (entries s') n = (if n < 48 then kernel_gate (stub img n) else no_gate))
    \<and> (\<forall>n < 256. handler_at s' (of_nat n) =
         (if n = 0 then img Zero_division else if n = 13 then img General_protection else 0))"
  using int_init_run [OF assms, of hw img] by blast

text \<open>The machine at the start of the kernel: zeroed memory and no tables.\<close>

definition boot_state :: intr where
  "boot_state = \<lparr>mem = \<lambda>_. 0, errno = 0, log = [], io = [], serial_enabled = 0, root = HEAP_BASE, entries = 0, handlers = 0,
     idtr = \<lparr>limit = 0, base = 0\<rparr>, idt_reg = \<lparr>limit = 0, base = 0\<rparr>\<rparr>"

lemma boot_heap: "heap_ok boot_state [(False, 0)]"
  by (rule heap_ok_init) (simp_all add: boot_state_def)

theorem int_init_ok_witness:
  "\<exists>s' cs. int_init latch_hw (\<lambda>f. case f of Int_stub n \<Rightarrow> 0x1000 + of_nat n | _ \<Rightarrow> 0x2000) boot_state = Some s' \<and> int_ok s' cs
     \<and> gate_at (mem s') (entries s') 14 = kernel_gate 0x100E \<and> handler_at s' 13 = 0x2000"
proof -
  let ?img = "\<lambda>f. case f of Int_stub n \<Rightarrow> 0x1000 + of_nat n | _ \<Rightarrow> 0x2000"
  obtain s' cs where r: "int_init latch_hw ?img boot_state = Some s'" "int_ok s' cs"
    "\<forall>n < 256. gate_at (mem s') (entries s') n = (if n < 48 then kernel_gate (stub ?img n) else no_gate)"
    "\<forall>n < 256. handler_at s' (of_nat n) =
         (if n = 0 then ?img Zero_division else if n = 13 then ?img General_protection else 0)"
    using int_init_ok [OF boot_heap, of latch_hw ?img]
    by (auto simp: boot_state_def top_of_def HEAP_BASE_def HEAP_END_def)
  from r(3) [rule_format, of 14] r(4) [rule_format, of 13] r(1,2) show ?thesis by (auto simp: stub_def)
qed

text \<open>
  C37: Dispatch. After int_hook_handler has registered a handler for a vector, int_handler runs that
  handler for this vector, and for every other vector what was registered before, or it reports
  an unhandled interrupt.
\<close>

theorem int_dispatch:
  assumes "n < 256" and "k < 256" and "h \<noteq> 0" and "r_int_no regs = of_nat k"
    and "s' = int_hook_handler (of_nat n) h s"
  shows "int_handler call regs s' =
    (if k = n then call h regs s'
     else if handler_at s (of_nat k) \<noteq> 0 then call (handler_at s (of_nat k)) regs s'
     else Some (Returns (say (Printf (''Unhandled interrupt 0x%x'' @ nl) [ArgW (of_nat k)]) s')))"
  using assms handler_hook [OF assms(1,2), of h s] by (cases "k = n") (simp_all add: int_handler_def)

definition vector_regs :: "u32 \<Rightarrow> registers" where
  "vector_regs n = \<lparr>r_ds = 0x10, r_edi = 0, r_esi = 0, r_ebp = 0, r_junk = 0, r_ebx = 0, r_edx = 0, r_ecx = 0, r_eax = 0,
     r_int_no = n, r_err_code = 0, r_eip = 0, r_cs = 8, r_eflags = 0, r_esp = 0, r_ss = 0x10\<rparr>"

theorem int_dispatch_witness:
  "int_handler (\<lambda>a regs s. Some (Hangs s)) (vector_regs 14) (int_hook_handler 14 0x2000 (boot_state\<lparr>handlers := 0x400010\<rparr>))
   = Some (Hangs (int_hook_handler 14 0x2000 (boot_state\<lparr>handlers := 0x400010\<rparr>)))"
  using int_dispatch [of 14 14 "0x2000" "vector_regs 14" _ "boot_state\<lparr>handlers := 0x400010\<rparr>" "\<lambda>a regs s. Some (Hangs s)"]
  by (simp add: vector_regs_def)

text \<open>
  C38: irq_handler acknowledges the interrupt, at the second controller too when the line is one of
  its lines, and then runs the registered handler; a line without a handler is only acknowledged.
\<close>

theorem irq_dispatch:
  assumes "no < 16" and "r_int_no regs = of_nat (32 + no)"
  shows "irq_handler call regs s =
    (let s' = s\<lparr>io := io s @ (if 8 \<le> no then [Outb PIC2_CMD 0x20] else []) @ [Outb PIC1_CMD 0x20]\<rparr>
     in if handler_at s (of_nat (32 + no)) \<noteq> 0 then call (handler_at s (of_nat (32 + no))) regs s' else Some (Returns s'))"
proof -
  have "r_int_no regs - 0x20 = of_nat no" using assms(2) by simp
  then have "ucast (r_int_no regs - 0x20) = (of_nat no :: byte)" using assms(1) by (simp add: unsigned_of_nat take_bit_nat_eq_self)
  moreover have "(8 :: byte) \<le> of_nat no \<longleftrightarrow> 8 \<le> no" using assms(1) by (simp add: word_le_nat_alt unat_of_nat)
  ultimately show ?thesis using assms(2) by (simp add: irq_handler_def pic_send_eoi_def handler_at_def outb_def Let_def)
qed

theorem irq_dispatch_witness:
  "irq_handler (\<lambda>a regs s. None) (vector_regs 42) boot_state =
     Some (Returns (boot_state\<lparr>io := [Outb PIC2_CMD 0x20, Outb PIC1_CMD 0x20]\<rparr>))"
  using irq_dispatch [of 10 "vector_regs 42" "\<lambda>a regs s. None" boot_state]
  by (simp add: vector_regs_def handler_at_def boot_state_def ld32_def)

end
