(* ===== verification/Bitset.thy ===== *)
theory Bitset
  imports Prelude
begin

text \<open>
  The interface of a set of small numbers kept in a state: membership, insertion and removal,
  and the search for the least number that is not in the set. The frame bitmap of
  kernel/pmem.c is the instance.
\<close>

text \<open>The search: numbers are tested in order.\<close>

function least_free :: "(nat \<Rightarrow> bool) \<Rightarrow> nat \<Rightarrow> nat \<Rightarrow> nat option" where
  "least_free t n i = (if i < n then if \<not> t i then Some i else least_free t n (Suc i) else None)"
  by pat_completeness auto
termination by (relation "measure (\<lambda>(t, n, i). n - i)") auto

declare least_free.simps [simp del]

locale bitset =
  fixes inv :: "'s \<Rightarrow> bool"
    and elems :: "'s \<Rightarrow> nat set"
    and bound :: nat
    and ins :: "nat \<Rightarrow> 's \<Rightarrow> 's"
    and del :: "nat \<Rightarrow> 's \<Rightarrow> 's"
    and mem_test :: "nat \<Rightarrow> 's \<Rightarrow> bool"
  assumes ins_law: "inv s \<Longrightarrow> k < bound \<Longrightarrow> inv (ins k s) \<and> elems (ins k s) = insert k (elems s)"
    and del_law: "inv s \<Longrightarrow> k < bound \<Longrightarrow> inv (del k s) \<and> elems (del k s) = elems s - {k}"
    and test_law: "inv s \<Longrightarrow> k < bound \<Longrightarrow> mem_test k s \<longleftrightarrow> k \<in> elems s"
begin

lemma ins_all:
  "inv s \<Longrightarrow> \<forall>k \<in> set ks. k < bound \<Longrightarrow>
   inv (fold ins ks s) \<and> elems (fold ins ks s) = set ks \<union> elems s"
  by (induction ks arbitrary: s) (auto simp: ins_law)

lemma ins_del: "inv s \<Longrightarrow> k < bound \<Longrightarrow> k \<notin> elems s \<Longrightarrow> elems (del k (ins k s)) = elems s"
  using ins_law [of s k] del_law [of "ins k s" k] by auto

lemma test_ins: "inv s \<Longrightarrow> k < bound \<Longrightarrow> j < bound \<Longrightarrow> mem_test j (ins k s) \<longleftrightarrow> j = k \<or> mem_test j s"
  using ins_law [of s k] test_law by auto

text \<open>A search for a free number that tests the numbers in order finds the least one.\<close>

lemma search_least:
  assumes "inv s"
  shows "n \<le> bound \<Longrightarrow> case least_free (\<lambda>k. mem_test k s) n i of None \<Rightarrow> \<forall>j. i \<le> j \<and> j < n \<longrightarrow> j \<in> elems s
    | Some k \<Rightarrow> i \<le> k \<and> k < n \<and> k \<notin> elems s \<and> (\<forall>j. i \<le> j \<and> j < k \<longrightarrow> j \<in> elems s)"
proof (induction "\<lambda>k. mem_test k s" n i rule: least_free.induct)
  case (1 n i)
  have t: "i < n \<Longrightarrow> mem_test i s \<longleftrightarrow> i \<in> elems s" using test_law [OF assms] 1(2) by simp
  show ?case
  proof (cases "i < n \<and> mem_test i s")
    case False
    then show ?thesis using t by (subst least_free.simps) (auto simp: not_less)
  next
    case True
    moreover have "i \<le> j \<longleftrightarrow> j = i \<or> Suc i \<le> j" for j by auto
    ultimately show ?thesis using 1 t
      by (subst least_free.simps) (auto split: option.splits)
  qed
qed

end

end
