(* ===== verification/Pmem.thy ===== *)
theory Pmem
  imports Interrupt Bitset
begin

text \<open>
  The physical frame allocator of kernel/pmem.c: a bitmap of one page in the heap, one bit for
  each frame of 4096 bytes.
\<close>

section \<open>State and operations\<close>

definition MAPPED_MEMORY :: u32 where "MAPPED_MEMORY = 0x1000000"
definition PAGE_SIZE :: u32 where "PAGE_SIZE = 0x1000"
definition P_PRESENT :: u32 where "P_PRESENT = 1"
definition P_WRITABLE :: u32 where "P_WRITABLE = 2"

record pmem = intr +
  frame_set :: addr

text \<open>The address of the word \<open>frame_set[BIT_INDEX(frame)]\<close>.\<close>

definition frame_word :: "'a pmem_scheme \<Rightarrow> u32 \<Rightarrow> addr" where
  "frame_word s frame = frame_set s + 4 * (frame div 32)"

definition frame_bit :: "u32 \<Rightarrow> u32" where
  "frame_bit frame = push_bit (unat (frame mod 32)) 1"

definition pmem_set :: "addr \<Rightarrow> 'a pmem_scheme \<Rightarrow> 'a pmem_scheme" where
  "pmem_set addr s =
     (let frame = addr div PAGE_SIZE; p = frame_word s frame
      in s\<lparr>mem := st32 (mem s) p (ld32 (mem s) p OR frame_bit frame)\<rparr>)"

definition pmem_clear :: "addr \<Rightarrow> 'a pmem_scheme \<Rightarrow> 'a pmem_scheme" where
  "pmem_clear addr s =
     (let frame = addr div PAGE_SIZE; p = frame_word s frame
      in s\<lparr>mem := st32 (mem s) p (ld32 (mem s) p AND NOT (frame_bit frame))\<rparr>)"

definition pmem_test :: "addr \<Rightarrow> 'a pmem_scheme \<Rightarrow> u32" where
  "pmem_test addr s =
     (let frame = addr div PAGE_SIZE in ld32 (mem s) (frame_word s frame) AND frame_bit frame)"

definition pmem_init :: "'a pmem_scheme \<Rightarrow> 'a pmem_scheme option" where
  "pmem_init s =
     do {
       r \<leftarrow> kmalloc s PAGE_SIZE;
       let s = (snd r)\<lparr>frame_set := fst r\<rparr>;
       Some (s\<lparr>mem := memset (mem s) (frame_set s) 0 PAGE_SIZE\<rparr>)
     }"

function get_free_loop :: "'a pmem_scheme \<Rightarrow> addr \<Rightarrow> addr" where
  "get_free_loop s addr =
     (if addr < MAPPED_MEMORY
      then if pmem_test addr s = 0 then addr else get_free_loop s (addr + PAGE_SIZE)
      else 0)"
  by pat_completeness auto
termination
proof (relation "measure (\<lambda>(s, addr). 0x1000000 - unat addr)", goal_cases)
  case (2 s addr)
  then have "unat addr < 0x1000000" by (simp add: MAPPED_MEMORY_def word_less_nat_alt)
  moreover from this have "unat (addr + PAGE_SIZE) = unat addr + 0x1000"
    using unat_plus32 [of addr PAGE_SIZE] by (simp add: PAGE_SIZE_def)
  ultimately show ?case by simp
qed simp

definition pmem_get_free :: "'a pmem_scheme \<Rightarrow> addr" where
  "pmem_get_free s = get_free_loop s 0"

definition pmem_map :: "addr \<Rightarrow> addr \<Rightarrow> u32 \<Rightarrow> 'a pmem_scheme \<Rightarrow> 'a pmem_scheme" where
  "pmem_map pg physaddr flags s =
     (let physaddr = (if physaddr = 0 then pmem_get_free s else physaddr);
          s = s\<lparr>mem := st32 (mem s) pg (ld32 (mem s) pg OR (physaddr OR P_PRESENT OR flags))\<rparr>
      in pmem_set physaddr s)"

section \<open>The set of used frames\<close>

definition NFRAMES :: nat where "NFRAMES = 32768"

definition frames :: "'a pmem_scheme \<Rightarrow> nat set" where
  "frames s = {f. f < NFRAMES \<and> bit (ld32 (mem s) (frame_set s + 4 * of_nat (f div 32))) (f mod 32)}"

text \<open>The address of a frame.\<close>

definition frame_addr :: "nat \<Rightarrow> addr" where
  "frame_addr f = of_nat f * PAGE_SIZE"

declare get_free_loop.simps [simp del]

text \<open>A state with given heap blocks and the bitmap at a given address.\<close>

definition pmem_of :: "ablock list \<Rightarrow> addr \<Rightarrow> pmem" where
  "pmem_of bs p = \<lparr>mem = mem (heap_of bs), errno = 0, log = [], io = [], serial_enabled = 0, root = HEAP_BASE, entries = 0, handlers = 0,
     idtr = \<lparr>limit = 0, base = 0\<rparr>, idt_reg = \<lparr>limit = 0, base = 0\<rparr>, frame_set = p\<rparr>"

section \<open>Lemmas\<close>

lemma unat_frame_addr: "f < NFRAMES \<Longrightarrow> unat (frame_addr f) = f * 4096"
proof -
  assume "f < NFRAMES"
  then have "f * 4096 < 2 ^ 32" by (simp add: NFRAMES_def)
  then have "unat (of_nat (f * 4096) :: u32) = f * 4096" by (rule unat_of_nat32)
  then show ?thesis by (simp add: frame_addr_def PAGE_SIZE_def)
qed

lemma frame_of_addr: "f < NFRAMES \<Longrightarrow> frame_addr f div PAGE_SIZE = of_nat f"
  using unat_frame_addr [of f] by (simp add: word_unat_eq_iff unat_div PAGE_SIZE_def unat_of_nat32 NFRAMES_def)

lemma frame_word_of: "f < NFRAMES \<Longrightarrow> frame_word s (of_nat f) = frame_set s + 4 * of_nat (f div 32)"
proof -
  assume "f < NFRAMES"
  then have "unat (of_nat f div 32 :: u32) = f div 32" by (simp add: unat_div unat_of_nat32 NFRAMES_def)
  moreover have "unat (of_nat (f div 32) :: u32) = f div 32" using \<open>f < NFRAMES\<close> by (intro unat_of_nat32) (simp add: NFRAMES_def)
  ultimately have "(of_nat f div 32 :: u32) = of_nat (f div 32)" by (simp add: word_unat_eq_iff)
  then show ?thesis by (simp add: frame_word_def)
qed

lemma frame_bit_of: "f < NFRAMES \<Longrightarrow> frame_bit (of_nat f) = push_bit (f mod 32) 1"
  by (simp add: frame_bit_def unat_mod unat_of_nat32 NFRAMES_def)

lemma word_slots:
  assumes "i < 8192" "j < 8192" "i \<noteq> j"
  shows "sep (p + 4 * of_nat i) 4 (p + 4 * of_nat j) 4"
proof -
  have *: "sep (p + 4 * of_nat i) 4 (p + 4 * of_nat j) 4" if "i < j" "j < 8192" for i j
  proof -
    have "p + 4 * of_nat j = p + 4 * of_nat i + of_nat (4 * (j - i))"
      using that by (simp add: of_nat_diff algebra_simps)
    moreover have "sep (p + 4 * of_nat i) (4 * (j - i)) (p + 4 * of_nat i + of_nat (4 * (j - i))) 4"
      using that by (intro sep_adjacent) auto
    ultimately show ?thesis using that by (auto intro: sep_mono)
  qed
  show ?thesis using * [of i j] * [of j i] assms sep_sym by (cases "i < j") auto
qed

lemma frames_upd:
  assumes f: "f < NFRAMES" and w: "\<And>k. k < 32 \<Longrightarrow> bit w k \<longleftrightarrow> P (f div 32 * 32 + k)"
    and P: "\<And>g. g < NFRAMES \<Longrightarrow> g div 32 \<noteq> f div 32 \<Longrightarrow> P g \<longleftrightarrow> g \<in> frames s"
  shows "frames (s\<lparr>mem := st32 (mem s) (frame_set s + 4 * of_nat (f div 32)) w\<rparr>) = {g. g < NFRAMES \<and> P g}"
proof -
  let ?m = "st32 (mem s) (frame_set s + 4 * of_nat (f div 32)) w"
  have "bit (ld32 ?m (frame_set s + 4 * of_nat (g div 32))) (g mod 32) \<longleftrightarrow> P g" if g: "g < NFRAMES" for g
  proof (cases "g div 32 = f div 32")
    case True
    have "g = f div 32 * 32 + g mod 32" using True div_mult_mod_eq [of g 32] by simp
    then show ?thesis using True w [of "g mod 32"] by (simp add: ld32_st32)
  next
    case False
    have "sep (frame_set s + 4 * of_nat (g div 32)) 4 (frame_set s + 4 * of_nat (f div 32)) 4"
      using f g False by (intro word_slots) (auto simp: NFRAMES_def)
    then show ?thesis using P [OF g False] g by (simp add: ld32_st32_other frames_def)
  qed
  then show ?thesis by (auto simp: frames_def)
qed

lemma frame_div_mod: "f div 32 * 32 + k = g \<Longrightarrow> k < 32 \<Longrightarrow> g div 32 = f div 32 \<and> g mod 32 = k" for f k g :: nat
  by auto

lemma frame_eq: "k < 32 \<Longrightarrow> f div 32 * 32 + k = f \<longleftrightarrow> k = f mod 32" for f k :: nat
  by (metis add_left_cancel div_mult_mod_eq)

lemma frames_word:
  assumes "f < NFRAMES" and "k < 32"
  shows "bit (ld32 (mem s) (frame_set s + 4 * of_nat (f div 32))) k \<longleftrightarrow> f div 32 * 32 + k \<in> frames s"
proof -
  have "f div 32 \<le> 1023" using assms(1) by (simp add: NFRAMES_def)
  then have "f div 32 * 32 + k < NFRAMES" using assms(2) by (simp add: NFRAMES_def)
  then show ?thesis using frame_div_mod [OF refl assms(2)] by (simp add: frames_def)
qed

lemma frames_set:
  assumes f: "f < NFRAMES"
  shows "frames (pmem_set (frame_addr f) s) = insert f (frames s)"
proof -
  let ?p = "frame_set s + 4 * of_nat (f div 32)"
  have "frames (pmem_set (frame_addr f) s) = {g. g < NFRAMES \<and> (g = f \<or> g \<in> frames s)}"
    unfolding pmem_set_def Let_def frame_of_addr [OF f] frame_word_of [OF f] frame_bit_of [OF f]
  proof (rule frames_upd [OF f])
    show "bit (ld32 (mem s) ?p OR push_bit (f mod 32) 1) k \<longleftrightarrow> f div 32 * 32 + k = f \<or> f div 32 * 32 + k \<in> frames s"
      if "k < 32" for k
      using frames_word [OF f that, of s] that by (auto simp: bit_or_iff bit_push_bit_iff bit_exp_iff frame_eq)
  qed auto
  then show ?thesis using f by (auto simp: frames_def)
qed

lemma frames_clear:
  assumes f: "f < NFRAMES"
  shows "frames (pmem_clear (frame_addr f) s) = frames s - {f}"
proof -
  let ?p = "frame_set s + 4 * of_nat (f div 32)"
  have "frames (pmem_clear (frame_addr f) s) = {g. g < NFRAMES \<and> (g \<noteq> f \<and> g \<in> frames s)}"
    unfolding pmem_clear_def Let_def frame_of_addr [OF f] frame_word_of [OF f] frame_bit_of [OF f]
  proof (rule frames_upd [OF f])
    show "bit (ld32 (mem s) ?p AND NOT (push_bit (f mod 32) 1)) k \<longleftrightarrow> f div 32 * 32 + k \<noteq> f \<and> f div 32 * 32 + k \<in> frames s"
      if "k < 32" for k
      using frames_word [OF f that, of s] that
      by (auto simp: bit_and_iff bit_not_iff bit_push_bit_iff bit_exp_iff frame_eq)
  qed auto
  then show ?thesis by (auto simp: frames_def)
qed

lemma pmem_test_iff: "f < NFRAMES \<Longrightarrow> pmem_test (frame_addr f) s \<noteq> 0 \<longleftrightarrow> f \<in> frames s"
  unfolding pmem_test_def Let_def
  by (simp add: frame_of_addr frame_word_of frame_bit_of and_exp_eq_0_iff_not_bit frames_def)

interpretation frame_pool: bitset "\<lambda>s. True" frames NFRAMES "\<lambda>f. pmem_set (frame_addr f)"
  "\<lambda>f. pmem_clear (frame_addr f)" "\<lambda>f s. pmem_test (frame_addr f) s \<noteq> 0"
  by unfold_locales (auto simp: frames_set frames_clear pmem_test_iff)

text \<open>The search of pmem_get_free.\<close>

lemma frame_addr_Suc: "frame_addr (Suc f) = frame_addr f + PAGE_SIZE"
  by (simp add: frame_addr_def algebra_simps)

lemma frame_addr_less: "f \<le> 4096 \<Longrightarrow> frame_addr f < MAPPED_MEMORY \<longleftrightarrow> f < 4096"
  using unat_frame_addr [of f] by (simp add: word_less_nat_alt MAPPED_MEMORY_def NFRAMES_def)

lemma get_free_least:
  "f \<le> 4096 \<Longrightarrow> get_free_loop s (frame_addr f) =
     (case least_free (\<lambda>f. pmem_test (frame_addr f) s \<noteq> 0) 4096 f of None \<Rightarrow> 0 | Some k \<Rightarrow> frame_addr k)"
proof (induction "\<lambda>f. pmem_test (frame_addr f) s \<noteq> 0" "4096 :: nat" f rule: least_free.induct)
  case (1 f)
  then show ?case
    by (subst get_free_loop.simps, subst least_free.simps) (auto simp: frame_addr_less frame_addr_Suc)
qed

lemma pmem_get_free_spec:
  "(\<exists>f < 4096. f \<notin> frames s \<and> (\<forall>g < f. g \<in> frames s) \<and> pmem_get_free s = frame_addr f)
   \<or> (\<forall>f < 4096. f \<in> frames s) \<and> pmem_get_free s = 0"
proof -
  have "pmem_get_free s =
    (case least_free (\<lambda>f. pmem_test (frame_addr f) s \<noteq> 0) 4096 0 of None \<Rightarrow> 0 | Some k \<Rightarrow> frame_addr k)"
    using get_free_least [of 0 s] by (simp add: pmem_get_free_def frame_addr_def)
  then show ?thesis
    using frame_pool.search_least [where s = s and n = 4096 and i = 0] by (auto simp: NFRAMES_def split: option.splits)
qed

text \<open>Initialisation.\<close>

lemma pmem_init_ok:
  fixes s :: "'a pmem_scheme"
  assumes ok: "heap_ok s bs" and rm: "room bs PAGE_SIZE"
  shows "\<exists>s' cs l. pmem_init s = Some s' \<and> heap_ok s' cs \<and> frames s' = {}
    \<and> live_set cs = insert (unat (frame_set s'), l) (live_set bs) \<and> 4096 \<le> l"
proof -
  have "unat PAGE_SIZE = length (replicate 4096 (0 :: byte))" by (simp add: PAGE_SIZE_def)
  from kheap.alloc_fill [OF ok rm this] obtain p s1 cs l where
    a: "kmalloc s PAGE_SIZE = Some (p, s1)" "heap_ok (s1\<lparr>mem := wr (mem s1) p (replicate 4096 0)\<rparr>) cs"
    "4096 \<le> l" "live_set cs = insert (unat p, l) (live_set bs)" by auto
  let ?m = "wr (mem s1) p (replicate 4096 0)"
  let ?s = "s1\<lparr>frame_set := p, mem := ?m\<rparr>"
  have run: "pmem_init s = Some ?s"
    using a(1) by (simp add: pmem_init_def memset_wr PAGE_SIZE_def Let_def)
  have "ld32 ?m (p + 4 * of_nat i) = 0" if "i < 1024" for i
  proof (rule ld32_zero)
    fix x assume x: "x \<in> region (p + 4 * of_nat i) 4"
    have "region (p + of_nat (4 * i)) 4 \<subseteq> region p 4096" using that by (intro region_sub) auto
    with x have "x \<in> region p 4096" by auto
    then obtain j where "j < 4096" "x = p + of_nat j" by (auto elim: regionE)
    then show "?m x = 0" by (simp add: wr_nth)
  qed
  then have "frames ?s = {}" by (auto simp: frames_def NFRAMES_def)
  moreover have "heap_ok ?s cs" using a(2) by (simp add: heap_ok_def)
  ultimately show ?thesis using run a(3,4) by (intro exI [of _ ?s] exI [of _ cs] exI [of _ l]) simp
qed

lemma frames_zeroed:
  assumes "\<forall>x \<in> region (frame_set s) 4096. mem s x = 0"
  shows "frames s = {}"
proof -
  have "ld32 (mem s) (frame_set s + 4 * of_nat i) = 0" if "i < 1024" for i
  proof -
    have "region (frame_set s + of_nat (4 * i)) 4 \<subseteq> region (frame_set s) 4096" using that by (intro region_sub) auto
    then show ?thesis using assms by (intro ld32_zero) auto
  qed
  then show ?thesis by (auto simp: frames_def NFRAMES_def)
qed

lemma pmem_init_run:
  fixes s :: "'a pmem_scheme"
  assumes "heap_ok s bs" "fits bs 4096"
  shows "\<exists>p m l cs. pmem_init s = Some (s\<lparr>log := l, mem := m, frame_set := p\<rparr>)
    \<and> heap_ok (s\<lparr>log := l, mem := m, frame_set := p\<rparr>) cs \<and> grows bs cs p 4096 \<and> keeps bs (mem s) m
    \<and> frames (s\<lparr>log := l, mem := m, frame_set := p\<rparr>) = {}"
proof -
  have z: "PAGE_SIZE = 4096" by (simp add: PAGE_SIZE_def)
  obtain p m l cs where k: "kmalloc s 4096 = Some (p, s\<lparr>log := l, mem := m\<rparr>)"
    "heap_ok (s\<lparr>log := l, mem := memset m p 0 4096\<rparr>) cs" "grows bs cs p 4096"
    "keeps bs (mem s) (memset m p 0 4096)" "\<forall>x \<in> region p 4096. memset m p 0 4096 x = 0"
    using kmalloc_zeroed [OF assms(1), of 4096] assms(2) by auto
  let ?s = "s\<lparr>log := l, mem := memset m p 0 4096, frame_set := p\<rparr>"
  have "pmem_init s = Some ?s" using k(1) by (simp add: pmem_init_def z)
  moreover have "frames ?s = {}" using k(5) by (intro frames_zeroed) simp
  moreover have "heap_ok ?s cs" using k(2) by (simp add: heap_ok_def)
  ultimately show ?thesis using k(3,4) by blast
qed

lemma word_in_map: "f < NFRAMES \<Longrightarrow> region (frame_set s + 4 * of_nat (f div 32)) 4 \<subseteq> region (frame_set s) 4096"
proof -
  assume "f < NFRAMES"
  then have "4 * (f div 32) + 4 \<le> 4096" by (simp add: NFRAMES_def)
  then have "region (frame_set s + of_nat (4 * (f div 32))) 4 \<subseteq> region (frame_set s) 4096"
    by (intro region_sub) auto
  then show ?thesis by simp
qed

lemma pmem_set_frame:
  assumes "f < NFRAMES" and "a \<notin> region (frame_set s) 4096"
  shows "mem (pmem_set (frame_addr f) s) a = mem s a"
  using assms word_in_map [OF assms(1), of s]
  by (auto simp: pmem_set_def Let_def frame_of_addr frame_word_of intro!: st32_frame)

lemma frames_cong:
  assumes "\<And>a. a \<in> region (frame_set s) 4096 \<Longrightarrow> m a = mem s a"
  shows "frames (s\<lparr>mem := m\<rparr>) = frames s"
proof -
  have "ld32 m (frame_set s + 4 * of_nat (f div 32)) = ld32 (mem s) (frame_set s + 4 * of_nat (f div 32))"
    if "f < NFRAMES" for f
    using assms word_in_map [OF that, of s] by (intro ld32_cong) blast
  then show ?thesis by (auto simp: frames_def)
qed

lemma pmem_map_frame:
  assumes f: "f < NFRAMES" and dj: "region pg 4 \<inter> region (frame_set s) 4096 = {}"
    and phys: "(if physaddr = 0 then pmem_get_free s else physaddr) = frame_addr f"
  shows "frames (pmem_map pg physaddr flags s) = insert f (frames s)"
    and "ld32 (mem (pmem_map pg physaddr flags s)) pg = ld32 (mem s) pg OR (frame_addr f OR P_PRESENT OR flags)"
proof -
  let ?w = "ld32 (mem s) pg OR (frame_addr f OR P_PRESENT OR flags)"
  let ?s = "s\<lparr>mem := st32 (mem s) pg ?w\<rparr>"
  have run: "pmem_map pg physaddr flags s = pmem_set (frame_addr f) ?s"
    using phys by (simp add: pmem_map_def Let_def)
  have "frames ?s = frames s" using dj by (intro frames_cong st32_frame) auto
  then show "frames (pmem_map pg physaddr flags s) = insert f (frames s)"
    unfolding run by (simp add: frames_set [OF f])
  have "ld32 (mem (pmem_set (frame_addr f) ?s)) pg = ld32 (mem ?s) pg"
    using dj pmem_set_frame [OF f, of _ ?s] by (intro ld32_cong) auto
  then show "ld32 (mem (pmem_map pg physaddr flags s)) pg = ?w" unfolding run by (simp add: ld32_st32)
qed

lemma heap_ok_pmem_of: "heap_ok (heap_of bs) bs \<Longrightarrow> heap_ok (pmem_of bs p) bs"
  by (simp add: heap_ok_def pmem_of_def)

lemma frames_fresh:
  assumes "heap_ok (heap_of bs) bs" "owns bs (frame_set s) 4096" "mem s = mem (heap_of bs)"
  shows "frames s = {}"
proof -
  have z: "mem s x = 0" if x: "x \<in> region (frame_set s) 4096" for x
  proof -
    obtain k where "(unat (frame_set s), k) \<in> live_set bs" "within x (unat (frame_set s)) k"
      using owns_within [OF assms(1,2) x] by blast
    then have "x \<notin> hdrs HEAP_BASE bs"
      using hdrs_live [of "unat (frame_set s)" k HEAP_BASE bs x] assms(1)
      by (auto simp: live_set_def within_def heap_ok_def top_of_def HEAP_END_def)
    then show ?thesis using assms(3) by (simp add: heap_of_def mk_chain_frame)
  qed
  have "ld32 (mem s) (frame_set s + 4 * of_nat (f div 32)) = 0" if "f < NFRAMES" for f
    using z word_in_map [OF that, of s] by (intro ld32_zero) auto
  then show ?thesis by (auto simp: frames_def)
qed

lemma frames_pmem_of: "frames (pmem_of [(True, 4096)] 0x400010) = {}"
  by (rule frames_fresh [of "[(True, 4096)]"]) (auto simp: heap_eval pmem_of_def owns_def)

section \<open>Properties\<close>

text \<open>
  C33: pmem_get_free gives the first frame of the mapped memory that is not in use, and NULL when
  all are in use; as frame 0 has the address NULL, the caller cannot tell the two apart when
  frame 0 is free.
\<close>

theorem pmem_get_free_least:
  "(\<exists>f < 4096. f \<notin> frames s \<and> (\<forall>g < f. g \<in> frames s) \<and> pmem_get_free s = frame_addr f)
   \<or> (\<forall>f < 4096. f \<in> frames s) \<and> pmem_get_free s = 0"
  by (rule pmem_get_free_spec)

theorem pmem_get_free_least_witness:
  "pmem_get_free (pmem_set (frame_addr 0) (pmem_of [(True, 4096)] 0x400010)) = 0x1000"
proof -
  let ?s = "pmem_set (frame_addr 0) (pmem_of [(True, 4096)] 0x400010)"
  have fr: "frames ?s = {0}"
    using frame_pool.ins_law [of 0 "pmem_of [(True, 4096)] 0x400010"] frames_pmem_of by (simp add: NFRAMES_def)
  have not: "\<not> (\<forall>f < 4096. f \<in> frames ?s)" unfolding fr by (auto intro!: exI [of _ 1])
  from pmem_get_free_least [of ?s] not obtain f where f: "f \<notin> frames ?s" "\<forall>g < f. g \<in> frames ?s" "pmem_get_free ?s = frame_addr f"
    by blast
  have "\<not> 1 < f" using f(2) unfolding fr by auto
  moreover have "f \<noteq> 0" using f(1) unfolding fr by simp
  ultimately have "f = 1" by simp
  then show ?thesis using f(3) by (simp add: frame_addr_def PAGE_SIZE_def)
qed

text \<open>
  C34: pmem_set and pmem_clear put exactly the frame of an address into the set of used frames and
  take it out, and pmem_test tells whether it is in the set, for the addresses the bitmap covers.
\<close>

theorem pmem_bitmap:
  assumes "f < NFRAMES"
  shows "frames (pmem_set (frame_addr f) s) = insert f (frames s)
    \<and> frames (pmem_clear (frame_addr f) s) = frames s - {f}
    \<and> (pmem_test (frame_addr f) s \<noteq> 0 \<longleftrightarrow> f \<in> frames s)"
  using frame_pool.ins_law [of f s] frame_pool.del_law [of f s] frame_pool.test_law [of f s] assms by simp

theorem pmem_bitmap_witness:
  "frames (pmem_set (frame_addr 35) (pmem_of [(True, 4096)] 0x400010)) = {35}"
  using pmem_bitmap [of 35 "pmem_of [(True, 4096)] 0x400010"] frames_pmem_of by (simp add: NFRAMES_def)

end
