(* ===== verification/Pages.thy ===== *)
theory Pages
  imports Heap_Client
begin

text \<open>
  Page-aligned blocks of the heap, the way the page directory and the page tables get them:
  kmalloca with the alignment of a page, in a heap without free blocks.
\<close>

definition PAGE_ALIGN_SHIFT :: u32 where "PAGE_ALIGN_SHIFT = 12"

lemma pad_page: "pad 12 t \<le> 4080"
proof -
  have "t = t div 4096 * 4096 + t mod 4096" by simp
  moreover have "t mod 4096 < 4096" by simp
  ultimately show ?thesis unfolding pad_def by (auto simp: algebra_simps)
qed

lemma kmalloca_page:
  fixes s :: "'a heap_scheme"
  assumes ok: "heap_ok s bs" and used: "list_all fst bs" and pd: "pad_ok 12 (top_of bs)" and top: "top_of bs + 8192 \<le> HEAP_END"
  shows "\<exists>p m l cs. kmalloca s 4096 PAGE_ALIGN_SHIFT = Some (p, s\<lparr>log := l, mem := m\<rparr>)
    \<and> heap_ok (s\<lparr>log := l, mem := m\<rparr>) cs \<and> list_all fst cs \<and> owns cs p 4096 \<and> unat p \<notin> fst ` live_set bs
    \<and> (\<forall>q n. owns bs q n \<longrightarrow> owns cs q n) \<and> 4096 dvd unat p \<and> 4096 dvd top_of cs \<and> top_of cs \<le> top_of bs + 8192
    \<and> keeps bs (mem s) m \<and> (\<forall>x \<in> region p 4096. m x = 0)"
proof -
  let ?t = "top_of bs" and ?d = "pad 12 (top_of bs)"
  obtain pre sz where bs: "bs = pre @ [(True, sz)]" "list_all fst pre" "list_all (\<lambda>b. 0 < snd b) (pre @ [(True, sz)])"
    using used_split [OF ok used] by blast
  let ?cs = "pre @ [(True, sz + ?d), (True, 4096)]" and ?p = "?t + ?d + 16"
  have t: "?t = unat HEAP_BASE + ext pre + 16 + sz" by (simp add: bs(1) top_of_def)
  have tc: "top_of ?cs = ?p + 4096" using t by (simp add: top_of_def)
  have tb: "top_of ?cs \<le> ?t + 8192" using tc pad_page [of ?t] by simp
  have k: "unat PAGE_ALIGN_SHIFT = 12" and r8: "round8 4096 = 4096"
    by (simp_all add: PAGE_ALIGN_SHIFT_def round8_def)
  have pad: "pad_ok (unat PAGE_ALIGN_SHIFT) ?t" using pd k by simp
  have run: "aalloc (unat PAGE_ALIGN_SHIFT) (unat (round8 4096)) (unat HEAP_BASE) bs = (?t + ?d, ?cs)"
    using aalloc_all_used [OF bs(2,3) t, of 12 4096] by (simp add: bs(1) k r8)
  have room: "top_of ?cs \<le> HEAP_END" using tb top by simp
  have nf: "bs \<noteq> [(False, 0)]" using used by auto
  obtain m l where r: "kmalloca s 4096 PAGE_ALIGN_SHIFT = Some (of_nat ?p, s\<lparr>log := l, mem := m\<rparr>)"
    "heap_ok (s\<lparr>log := l, mem := m\<rparr>) ?cs" "\<And>x. x \<notin> hdrs HEAP_BASE ?cs \<Longrightarrow> m x = mem s x"
    using kmalloca_refines [OF ok _ _ _ _ _ run room] pad nf k by auto
  have up: "unat (of_nat ?p :: addr) = ?p" using tc room by (intro unat_of_nat32) (simp add: HEAP_END_def)
  have lv: "live_set bs = insert (unat HEAP_BASE + ext pre + 16, sz) (set (live (unat HEAP_BASE) pre))"
    "live_set ?cs = insert (unat HEAP_BASE + ext pre + 16, sz + ?d) (insert (?p, 4096) (set (live (unat HEAP_BASE) pre)))"
    using t by (simp_all add: live_set_def bs(1) add.assoc)
  have "owns ?cs (of_nat ?p) 4096" using lv(2) up unfolding owns_def by auto
  moreover have "?p \<notin> fst ` live_set bs"
    using live_range [of _ _ "unat HEAP_BASE" bs] t by (force simp: live_set_def top_of_def)
  moreover have "owns ?cs q n" if "owns bs q n" for q n
    using that lv unfolding owns_def by (auto intro: trans_le_add1)
  moreover have "4096 dvd ?p" using pad_aligned [OF pd] by (simp add: aligned_def)
  moreover have "4096 dvd top_of ?cs" unfolding tc using dvd_add [OF calculation(4), of 4096] by simp
  moreover have "m x = mem s x" if q: "(q, j) \<in> live_set bs" "within x q j" for q j x
  proof -
    have "\<exists>j' \<ge> j. (q, j') \<in> live_set ?cs"
      using q(1) unfolding lv by (intro exI [of _ "if (q, j) \<in> set (live (unat HEAP_BASE) pre) then j else sz + ?d"]) auto
    then obtain j' where "j \<le> j'" "(q, j') \<in> live_set ?cs" by blast
    with q(2) live_frame [OF room, of m "mem s" q j' x] r(3) show ?thesis by (auto simp: within_def)
  qed
  moreover have "m x = mem s x" if "outside x" for x
  proof -
    have "x \<notin> region HEAP_BASE (ext ?cs)"
      using that room by (subst region_unat) (auto simp: outside_def top_of_def HEAP_END_def)
    moreover have "ext ?cs \<le> 2 ^ 32" using room by (simp add: top_of_def HEAP_END_def)
    ultimately show ?thesis using r(3) hdrs_region [of ?cs HEAP_BASE] by blast
  qed
  moreover have "m x = 0" if x: "x \<in> region (of_nat ?p) 4096" for x
  proof -
    have x': "?p \<le> unat x \<and> unat x < ?p + 4096"
      using x up region_unat [of "of_nat ?p" 4096] tc room by (auto simp: HEAP_END_def)
    have "m x = mem s x" using live_frame [OF room, of m "mem s" ?p 4096 x] r(3) lv(2) x' by auto
    moreover have "mem s x = 0" using ok x' tc room by (auto simp: heap_ok_def)
    ultimately show ?thesis by simp
  qed
  ultimately show ?thesis using r(1,2) tb up bs(2)
    by (intro exI [of _ "of_nat ?p"] exI [of _ m] exI [of _ l] exI [of _ ?cs]) (auto simp: keeps_def)
qed

end
