(* ===== verification/Vmem.thy ===== *)
theory Vmem
  imports Pmem Pages
begin

text \<open>
  Paging (kernel/vmem.c, pmem_mapaddr of kernel/pmem.c, vmem_enable of kernel/asm.S) and the
  stack trace of kernel/debug.c. The page directory and the page tables are page-aligned
  blocks of the heap; the registers cr0, cr2 and cr3 are part of the state.
\<close>

section \<open>State and operations\<close>

record vmem = pmem +
  tables :: addr
  cr0 :: u32
  cr2 :: addr
  cr3 :: addr

definition TABLE_SIZE :: u32 where "TABLE_SIZE = 1024 * 4"
definition DIR_SIZE :: u32 where "DIR_SIZE = 1024 * 4"

text \<open>A frame is the saved \<open>ebp\<close> and the return address; \<open>frm\<close> is the frame pointer.\<close>

partial_function (option) stack_trace_loop :: "addr \<Rightarrow> nat \<Rightarrow> 'a machine_scheme \<Rightarrow> 'a machine_scheme option" where
  "stack_trace_loop frm i s =
     (if ld32 (mem s) frm \<noteq> 0
      then let s = say (Serial_print ''[trace] '') s;
               s = fold say (replicate i (Serial_send 0x09)) s;
               s = say (Serial_printf (CHR 0x5C # ''-- frame 0x%x'' @ nl) [ArgW (ld32 (mem s) (frm + 4))]) s
           in stack_trace_loop (ld32 (mem s) frm) (i + 1) s
      else Some s)"

definition do_stack_trace :: "addr \<Rightarrow> 'a machine_scheme \<Rightarrow> 'a machine_scheme option" where
  "do_stack_trace ebp s = stack_trace_loop ebp 0 s"

definition page_fault :: "addr \<Rightarrow> registers \<Rightarrow> 'a vmem_scheme \<Rightarrow> 'a vmem_scheme fate option" where
  "page_fault ebp regs s =
     (let present = r_err_code regs AND 1;
          write = r_err_code regs AND 2;
          user = r_err_code regs AND 4;
          s = say (Printf (''Page fault occurs while %s on a%s page at 0x%x'' @ nl)
            [ArgS (if write \<noteq> 0 then ''writing'' else ''reading''),
             ArgS (if present \<noteq> 0 then '''' else '' non-present''), ArgW (cr2 s)]) s;
          s = (if user \<noteq> 0 then say (Printf (''By the way, you accessed a kernel page'' @ nl) []) s else s)
      in do { s \<leftarrow> do_stack_trace ebp s; Some (Hangs s) })"

definition vmem_get :: "addr \<Rightarrow> addr \<Rightarrow> 'a vmem_scheme \<Rightarrow> (addr \<times> 'a vmem_scheme) option" where
  "vmem_get addr dirptr s =
     (let dir = (if dirptr = 0 then cr3 s else dirptr);
          tmp = addr div PAGE_SIZE;
          table_i = tmp div 1024;
          offset = tmp mod 1024;
          entry = ld32 (mem s) (dir + 4 * table_i);
          table = entry AND push_bit (unat PAGE_ALIGN_SHIFT) 0xFFFFFFFF
      in if entry AND P_PRESENT = 0 \<or> table = 0
         then do {
           r \<leftarrow> kmalloca (say (Serial_printf (''[mem] creating table for 0x%x'' @ nl) [ArgW table]) s) TABLE_SIZE PAGE_ALIGN_SHIFT;
           let table = fst r;
           let s = snd r;
           Some (table + 4 * offset, s\<lparr>mem := st32 (mem s) (dir + 4 * table_i) (table OR P_PRESENT OR P_WRITABLE)\<rparr>)
         }
         else Some (table + 4 * offset, s))"

definition pmem_mapaddr :: "addr \<Rightarrow> addr \<Rightarrow> u32 \<Rightarrow> addr \<Rightarrow> 'a vmem_scheme \<Rightarrow> 'a vmem_scheme option" where
  "pmem_mapaddr virtaddr physaddr flags dir s =
     do { r \<leftarrow> vmem_get virtaddr dir s; Some (pmem_map (fst r) physaddr flags (snd r)) }"

definition vmem_enable :: "addr \<Rightarrow> 'a vmem_scheme \<Rightarrow> 'a vmem_scheme" where
  "vmem_enable dir s = s\<lparr>cr3 := dir, cr0 := cr0 s OR 0x80000000\<rparr>"

primrec map_pages :: "nat list \<Rightarrow> 'a vmem_scheme \<Rightarrow> 'a vmem_scheme option" where
  "map_pages [] s = Some s"
| "map_pages (i # is) s =
     do { s \<leftarrow> pmem_mapaddr (of_nat i * PAGE_SIZE) 0 P_WRITABLE (tables s) s; map_pages is s }"

definition dir_alloc :: "'a vmem_scheme \<Rightarrow> 'a vmem_scheme option" where
  "dir_alloc s =
     (if tables s = 0
      then do {
        r \<leftarrow> kmalloca s DIR_SIZE PAGE_ALIGN_SHIFT;
        let s = (snd r)\<lparr>tables := fst r\<rparr>;
        let s = s\<lparr>mem := memset (mem s) (tables s) 0 DIR_SIZE\<rparr>;
        Some (s\<lparr>cr3 := tables s\<rparr>)
      }
      else Some s)"

definition vmem_init :: "image \<Rightarrow> 'a vmem_scheme \<Rightarrow> 'a vmem_scheme option" where
  "vmem_init img s =
     do {
       s \<leftarrow> dir_alloc s;
       s \<leftarrow> map_pages [0..<4096] s;
       let s = int_hook_handler 0x0E (img Page_fault) s;
       Some (vmem_enable (tables s) s)
     }"

section \<open>Specification\<close>

text \<open>What the processor makes of an address, with the directory at \<open>dir\<close>.\<close>

definition translate :: "mem \<Rightarrow> addr \<Rightarrow> addr \<Rightarrow> addr option" where
  "translate m dir a =
     (let pde = ld32 m (dir + 4 * drop_bit 22 a);
          pte = ld32 m ((pde AND NOT (mask 12)) + 4 * (drop_bit 12 a AND mask 10))
      in if \<not> bit pde 0 \<or> \<not> bit pte 0 then None else Some ((pte AND NOT (mask 12)) + (a AND mask 12)))"

text \<open>
  What the paging code leaves alone on its way from the tables \<open>ts\<close> to \<open>us\<close>: the other objects of the
  heap and the memory outside it; each new table costs two pages at most.
\<close>

definition vm_step :: "'a vmem_scheme \<Rightarrow> ablock list \<Rightarrow> addr list \<Rightarrow> 'a vmem_scheme \<Rightarrow> ablock list \<Rightarrow> addr list \<Rightarrow> bool" where
  "vm_step s bs ts s' cs us \<longleftrightarrow> (\<exists>m l. s' = s\<lparr>log := l, mem := m\<rparr>) \<and> (\<forall>x. outside x \<longrightarrow> mem s' x = mem s x)
     \<and> (\<forall>q k. owns bs q k \<longrightarrow> q \<notin> set (frame_set s # tables s # ts) \<longrightarrow>
          owns cs q k \<and> q \<notin> set us \<and> (\<forall>x \<in> region q k. mem s' x = mem s x))
     \<and> top_of cs + 8192 * length ts \<le> top_of bs + 8192 * length us"

text \<open>
  The first \<open>n\<close> pages are mapped to the frames with the same numbers through the page tables
  \<open>ts\<close>; all other entries of these tables and of the directory are empty.
\<close>

definition vm_ok :: "'a vmem_scheme \<Rightarrow> ablock list \<Rightarrow> addr list \<Rightarrow> nat \<Rightarrow> bool" where
  "vm_ok s bs ts n \<longleftrightarrow> heap_ok s bs \<and> list_all fst bs \<and> 4096 dvd top_of bs
     \<and> length ts \<le> 4 \<and> top_of bs + 8192 * (4 - length ts) \<le> HEAP_END \<and> n \<le> 1024 * length ts
     \<and> distinct (frame_set s # tables s # ts) \<and> (\<forall>t \<in> set (frame_set s # tables s # ts). owns bs t 4096)
     \<and> owns bs (handlers s) 1024 \<and> handlers s \<notin> set (frame_set s # tables s # ts)
     \<and> (\<forall>t \<in> set ts. 4096 dvd unat t) \<and> frames s = {..<n}
     \<and> (\<forall>j < 1024. ld32 (mem s) (tables s + of_nat (j * 4)) = (if j < length ts then ts ! j OR 3 else 0))
     \<and> (\<forall>j < length ts. \<forall>k < 1024. ld32 (mem s) (ts ! j + of_nat (k * 4)) =
          (if j * 1024 + k < n then frame_addr (j * 1024 + k) OR 3 else 0))"

section \<open>Lemmas\<close>

subsection \<open>Entries\<close>

lemma page_bits: "4096 dvd unat t \<Longrightarrow> i < 12 \<Longrightarrow> \<not> bit t i" for t :: u32
proof -
  assume d: "4096 dvd unat t" "i < 12"
  then have "take_bit 12 (unat t) = 0" by (simp add: take_bit_eq_mod)
  then have "\<not> bit (take_bit 12 (unat t)) i" by simp
  with d(2) show ?thesis by (simp add: bit_simps)
qed

lemma low_bits: "bit (3 :: u32) i \<longleftrightarrow> i < 2"
proof -
  have "(3 :: u32) = mask 2" by (simp add: mask_eq_exp_minus_1)
  then have "bit (3 :: u32) i = bit (mask 2 :: u32) i" by (rule arg_cong)
  then show ?thesis by (simp only: bit_mask_iff possible_bit_word) auto
qed

lemma entry_page: "4096 dvd unat t \<Longrightarrow> (t OR 3) AND NOT (mask 12) = t" for t :: u32
proof (rule bit_word_eqI)
  fix n assume d: "4096 dvd unat t"
  show "bit ((t OR 3) AND NOT (mask 12)) n \<longleftrightarrow> bit t n"
    using page_bits [OF d, of n] bit_imp_le_length [of t n] low_bits [of n]
    by (cases "n < 12") (auto simp only: bit_and_iff bit_or_iff bit_not_iff bit_mask_iff possible_bit_word)
qed

lemma entry_present: "bit (t OR 3) 0" for t :: u32
  by (simp add: bit_or_iff low_bits)

lemma entry_flag: "(t OR 3) AND P_PRESENT \<noteq> 0" for t :: u32
  using entry_present [of t] by (simp add: P_PRESENT_def and_one_eq) (metis bit_0 odd_iff_mod_2_eq_one zero_neq_one)

lemma flags_3: "t OR P_PRESENT OR P_WRITABLE = t OR 3" for t :: u32
  by (simp add: P_PRESENT_def P_WRITABLE_def or.assoc)

lemma of_nat_div32: "n < 2 ^ 32 \<Longrightarrow> 0 < k \<Longrightarrow> k < 2 ^ 32 \<Longrightarrow> (of_nat n :: u32) div of_nat k = of_nat (n div k)"
  by (simp add: word_unat_eq_iff unat_div unat_of_nat32 less_imp_diff_less div_le_dividend le_less_trans [OF div_le_dividend])

lemma of_nat_mod32: "n < 2 ^ 32 \<Longrightarrow> 0 < k \<Longrightarrow> k < 2 ^ 32 \<Longrightarrow> (of_nat n :: u32) mod of_nat k = of_nat (n mod k)"
  by (simp add: word_unat_eq_iff unat_mod unat_of_nat32 le_less_trans [OF mod_less_eq_dividend])

lemma page_index:
  assumes "n < 4096"
  shows "frame_addr n div PAGE_SIZE div 1024 = of_nat (n div 1024)" "frame_addr n div PAGE_SIZE mod 1024 = of_nat (n mod 1024)"
  using of_nat_div32 [of n 1024] of_nat_mod32 [of n 1024] frame_of_addr [of n] assms by (simp_all add: NFRAMES_def)

subsection \<open>One page\<close>

lemma word_in_page: "k < 1024 \<Longrightarrow> region (t + of_nat (k * 4)) 4 \<subseteq> region t 4096"
  by (intro region_sub) auto

lemma vm_okD:
  assumes "vm_ok s bs ts n"
  shows "heap_ok s bs" "list_all fst bs" "4096 dvd top_of bs" "length ts \<le> 4"
    "top_of bs + 8192 * (4 - length ts) \<le> HEAP_END" "n \<le> 1024 * length ts"
    "distinct (frame_set s # tables s # ts)" "\<forall>t \<in> set (frame_set s # tables s # ts). owns bs t 4096"
    "\<forall>t \<in> set ts. 4096 dvd unat t" "frames s = {..<n}"
    "j < 1024 \<Longrightarrow> ld32 (mem s) (tables s + of_nat (j * 4)) = (if j < length ts then ts ! j OR 3 else 0)"
    "i < length ts \<Longrightarrow> k < 1024 \<Longrightarrow> ld32 (mem s) (ts ! i + of_nat (k * 4)) =
       (if i * 1024 + k < n then frame_addr (i * 1024 + k) OR 3 else 0)"
    "owns bs (handlers s) 1024" "handlers s \<notin> set (frame_set s # tables s # ts)"
  using assms unfolding vm_ok_def by blast+

lemma pages_apart:
  assumes "vm_ok s bs ts n" "t \<in> set (frame_set s # tables s # ts)" "u \<in> set (frame_set s # tables s # ts)" "t \<noteq> u"
  shows "region t 4096 \<inter> region u 4096 = {}"
  using assms by (intro owns_apart [of s bs]) (auto simp: vm_ok_def)

lemma pmem_map_rec: "\<exists>m. pmem_map pg pa fl s = s\<lparr>mem := m\<rparr>"
  unfolding pmem_map_def pmem_set_def Let_def by (auto intro!: exI)

lemma pmem_map_other:
  assumes "f < NFRAMES" "(if pa = 0 then pmem_get_free s else pa) = frame_addr f"
    and "a \<notin> region pg 4" "a \<notin> region (frame_set s) 4096"
  shows "mem (pmem_map pg pa fl s) a = mem s a"
  using assms pmem_set_frame [OF assms(1), of a "s\<lparr>mem := st32 (mem s) pg (ld32 (mem s) pg OR (frame_addr f OR P_PRESENT OR fl))\<rparr>"]
  by (simp add: pmem_map_def Let_def frame)

lemma first_free: "frames s = {..<n} \<Longrightarrow> n < 4096 \<Longrightarrow> pmem_get_free s = frame_addr n"
  using pmem_get_free_spec [of s] by (metis lessThan_iff nat_neq_iff)

lemma map_next:
  fixes s :: "'a vmem_scheme"
  assumes ok: "vm_ok s bs ts n" and n: "n < 1024 * length ts"
    and pg: "pg = ts ! (n div 1024) + of_nat (n mod 1024 * 4)"
  shows "vm_ok (pmem_map pg 0 P_WRITABLE s) bs ts (Suc n)"
proof -
  let ?j = "n div 1024" and ?k = "n mod 1024" and ?F = "frame_set s"
  note D = vm_okD [OF ok]
  have jk: "?j < length ts" "?k < 1024" "?j * 1024 + ?k = n" using n by (auto simp: less_mult_imp_div_less mult.commute)
  have n4: "n < 4096" using n D(4) by simp
  then have nf: "n < NFRAMES" by (simp add: NFRAMES_def)
  have fa: "(if (0 :: addr) = 0 then pmem_get_free s else 0) = frame_addr n" using first_free [OF D(10) n4] by simp
  obtain m where m: "pmem_map pg 0 P_WRITABLE s = s\<lparr>mem := m\<rparr>" using pmem_map_rec by blast
  have tj: "ts ! ?j \<in> set ts" using jk(1) by simp
  then have neF: "ts ! ?j \<noteq> ?F" "ts ! ?j \<noteq> tables s" using D(7) by (metis distinct.simps(2) list.set_intros(2))+
  have sub: "region pg 4 \<subseteq> region (ts ! ?j) 4096" unfolding pg by (rule word_in_page [OF jk(2)])
  have dF: "region pg 4 \<inter> region ?F 4096 = {}"
    using pages_apart [OF ok _ _ neF(1)] tj sub by auto
  have own: "owns bs ?F 4096" "owns bs (ts ! ?j) 4096" using D(8) tj by auto
  have fr: "m x = mem s x" if "x \<notin> region pg 4" "x \<notin> region ?F 4096" for x
    using pmem_map_other [OF nf fa that, of P_WRITABLE] m by simp
  have fs: "frames (s\<lparr>mem := m\<rparr>) = {..<Suc n}"
    using pmem_map_frame(1) [OF nf dF fa, of P_WRITABLE] m D(10) by auto
  have e0: "ld32 (mem s) pg = 0" using D(12) [OF jk(1,2)] jk(3) by (simp add: pg)
  have en: "ld32 m pg = frame_addr n OR 3"
    using pmem_map_frame(2) [OF nf dF fa, of P_WRITABLE] m e0 by (simp add: flags_3)
  have other: "ld32 m q = ld32 (mem s) q" if "region q 4 \<inter> region pg 4 = {}" "region q 4 \<inter> region ?F 4096 = {}" for q
    using that fr by (intro ld32_cong) blast
  have h: "heap_ok (s\<lparr>mem := m\<rparr>) bs" using owns_store2 [OF D(1) own, of m] fr sub by blast
  have dir: "ld32 m (tables s + of_nat (j * 4)) = ld32 (mem s) (tables s + of_nat (j * 4))" if "j < 1024" for j
  proof (rule other)
    show "region (tables s + of_nat (j * 4)) 4 \<inter> region pg 4 = {}"
      using pages_apart [OF ok _ _ neF(2)] tj sub word_in_page [OF that, of "tables s"] by auto
    show "region (tables s + of_nat (j * 4)) 4 \<inter> region ?F 4096 = {}"
      using pages_apart [OF ok, of ?F "tables s"] D(7) word_in_page [OF that, of "tables s"] by auto
  qed
  have tab: "ld32 m (ts ! j + of_nat (k * 4)) = ld32 (mem s) (ts ! j + of_nat (k * 4))"
    if jk': "j < length ts" "k < 1024" "(j, k) \<noteq> (?j, ?k)" for j k
  proof (rule other)
    show "region (ts ! j + of_nat (k * 4)) 4 \<inter> region pg 4 = {}"
    proof (cases "j = ?j")
      case True
      then show ?thesis unfolding pg using jk' jk(2) by (intro sep_region) (auto intro!: array_slots simp del: of_nat_mult)
    next
      case False
      then have "ts ! j \<noteq> ts ! ?j" using jk' jk(1) D(7) by (simp add: nth_eq_iff_index_eq)
      then show ?thesis using pages_apart [OF ok, of "ts ! j" "ts ! ?j"] jk' tj sub word_in_page [OF jk'(2), of "ts ! j"] by auto
    qed
    have "ts ! j \<noteq> ?F" using jk' D(7) nth_mem by fastforce
    then show "region (ts ! j + of_nat (k * 4)) 4 \<inter> region ?F 4096 = {}"
      using pages_apart [OF ok, of "ts ! j" ?F] jk' word_in_page [OF jk'(2), of "ts ! j"] by auto
  qed
  have "ld32 m (ts ! j + of_nat (k * 4)) = (if j * 1024 + k < Suc n then frame_addr (j * 1024 + k) OR 3 else 0)"
    if jk': "j < length ts" "k < 1024" for j k
  proof (cases "(j, k) = (?j, ?k)")
    case True
    then show ?thesis using en jk(3) by (simp add: pg)
  next
    case False
    then have "j * 1024 + k \<noteq> n" using jk'(2) by auto
    then show ?thesis using tab [OF jk' False] D(12) [OF jk'] by simp
  qed
  then show ?thesis unfolding m vm_ok_def using h fs dir D n by simp
qed

lemma vm_step_refl: "vm_step s bs ts s bs ts"
  by (auto simp: vm_step_def intro!: exI [of _ "mem s"] exI [of _ "log s"])

lemma vm_step_trans:
  assumes "vm_step s bs ts s1 cs us" "vm_step s1 cs us s2 ds vs"
  shows "vm_step s bs ts s2 ds vs"
proof -
  obtain m l where s1: "s1 = s\<lparr>log := l, mem := m\<rparr>" using assms(1) unfolding vm_step_def by blast
  obtain m' l' where s2: "s2 = s1\<lparr>log := l', mem := m'\<rparr>" using assms(2) unfolding vm_step_def by blast
  have "s2 = s\<lparr>log := l', mem := m'\<rparr>" by (simp add: s1 s2)
  moreover have "owns ds q k \<and> q \<notin> set vs \<and> (\<forall>x \<in> region q k. mem s2 x = mem s x)"
    if "owns bs q k" "q \<notin> set (frame_set s # tables s # ts)" for q k
  proof -
    have a: "owns cs q k" "q \<notin> set us" "\<forall>x \<in> region q k. mem s1 x = mem s x" using assms(1) that unfolding vm_step_def by blast+
    have "q \<notin> set (frame_set s1 # tables s1 # us)" using a(2) that(2) by (simp add: s1)
    with a assms(2) show ?thesis unfolding vm_step_def by fastforce
  qed
  ultimately show ?thesis using assms unfolding vm_step_def by auto
qed

lemma map_next_step:
  fixes s :: "'a vmem_scheme"
  assumes ok: "vm_ok s bs ts n" and n: "n < 1024 * length ts"
    and pg: "pg = ts ! (n div 1024) + of_nat (n mod 1024 * 4)"
  shows "vm_step s bs ts (pmem_map pg 0 P_WRITABLE s) bs ts"
proof -
  let ?t = "ts ! (n div 1024)" and ?F = "frame_set s"
  note D = vm_okD [OF ok]
  have t: "?t \<in> set ts" using n by (auto simp: less_mult_imp_div_less mult.commute)
  have n4: "n < 4096" using n D(4) by simp
  then have nf: "n < NFRAMES" by (simp add: NFRAMES_def)
  have fa: "(if (0 :: addr) = 0 then pmem_get_free s else 0) = frame_addr n" using first_free [OF D(10) n4] by simp
  have sub: "region pg 4 \<subseteq> region ?t 4096" unfolding pg by (rule word_in_page) simp
  have own: "owns bs ?F 4096" "owns bs ?t 4096" using D(8) t by auto
  obtain m where m: "pmem_map pg 0 P_WRITABLE s = s\<lparr>mem := m\<rparr>" using pmem_map_rec by blast
  have fr: "m x = mem s x" if "x \<notin> region ?t 4096" "x \<notin> region ?F 4096" for x
    using pmem_map_other [OF nf fa, of x pg P_WRITABLE] that sub m by auto
  have "m x = mem s x" if "outside x" for x using owns_outside [OF D(1) _ that] own by (intro fr) auto
  moreover have "m x = mem s x" if "owns bs q k" "q \<notin> set (frame_set s # tables s # ts)" "x \<in> region q k" for q k x
    using that owns_apart [OF D(1) that(1) own(1)] owns_apart [OF D(1) that(1) own(2)] t by (intro fr) auto
  moreover have "\<exists>m' l. s\<lparr>mem := m\<rparr> = s\<lparr>log := l, mem := m'\<rparr>" by (intro exI [of _ m] exI [of _ "log s"]) simp
  ultimately show ?thesis unfolding m vm_step_def by auto
qed

lemma mask_shift: "push_bit (unat PAGE_ALIGN_SHIFT) 0xFFFFFFFF = NOT (mask 12 :: u32)"
  using push_bit_ones [of 12] by (simp add: PAGE_ALIGN_SHIFT_def)

lemma dir_nonnull: "heap_ok s bs \<Longrightarrow> owns bs p n \<Longrightarrow> p \<noteq> 0"
  using owns_range [of s bs p n] by (auto simp: HEAP_BASE_def)

lemma get_present:
  assumes ok: "vm_ok s bs ts n" and n: "n < 1024 * length ts"
  shows "vmem_get (frame_addr n) (tables s) s = Some (ts ! (n div 1024) + of_nat (n mod 1024 * 4), s)"
proof -
  note D = vm_okD [OF ok]
  let ?t = "ts ! (n div 1024)"
  have j: "n div 1024 < length ts" "n < 4096" using n D(4) by (auto simp: less_mult_imp_div_less mult.commute)
  have e: "ld32 (mem s) (tables s + 4 * of_nat (n div 1024)) = ?t OR 3"
    using D(11) [of "n div 1024"] j by (simp add: mult.commute)
  have t: "4096 dvd unat ?t" "?t \<noteq> 0" using D(1,8,9) j(1) dir_nonnull [of s bs ?t 4096] by auto
  have "tables s \<noteq> 0" using dir_nonnull [OF D(1)] D(8) by auto
  then show ?thesis unfolding vmem_get_def Let_def page_index [OF j(2)] mask_shift
    using e entry_page [OF t(1)] entry_flag [of ?t] t(2) by (simp add: mult.commute)
qed

lemma get_creates:
  fixes s :: "'a vmem_scheme"
  assumes ok: "vm_ok s bs ts n" and n: "n = 1024 * length ts" and l: "length ts < 4"
  shows "\<exists>t s' cs. vmem_get (frame_addr n) (tables s) s = Some (t, s') \<and> vm_ok s' cs (ts @ [t]) n
    \<and> handlers s' = handlers s \<and> tables s' = tables s \<and> vm_step s bs ts s' cs (ts @ [t])"
proof -
  note D = vm_okD [OF ok]
  let ?L = "length ts" and ?e = "tables s + of_nat (length ts * 4)"
  have tn: "tables s \<noteq> 0" using dir_nonnull [OF D(1)] D(8) by auto
  have e: "ld32 (mem s) ?e = 0" using D(11) [of ?L] l by simp
  define s0 where "s0 = say (Serial_printf (''[mem] creating table for 0x%x'' @ nl) [ArgW 0]) s"
  have h0: "heap_ok s0 bs" using D(1) by (simp add: s0_def say_def heap_ok_def)
  have "pad_ok 12 (top_of bs)" using D(3) by (auto simp: pad_ok_def)
  moreover have "top_of bs + 8192 \<le> HEAP_END" using D(5) l by linarith
  ultimately obtain t m l' cs where k: "kmalloca s0 4096 PAGE_ALIGN_SHIFT = Some (t, s0\<lparr>log := l', mem := m\<rparr>)"
    "heap_ok (s0\<lparr>log := l', mem := m\<rparr>) cs" "list_all fst cs" "owns cs t 4096" "unat t \<notin> fst ` live_set bs"
    "\<forall>q n. owns bs q n \<longrightarrow> owns cs q n" "4096 dvd unat t" "4096 dvd top_of cs" "top_of cs \<le> top_of bs + 8192"
    "keeps bs (mem s) m" "\<forall>x \<in> region t 4096. m x = 0"
    using kmalloca_page [OF h0 D(2)] by (auto simp: s0_def say_def)
  let ?m = "st32 m ?e (t OR 3)"
  let ?s = "s\<lparr>log := l', mem := ?m\<rparr>"
  have n4: "n < 4096" "n div 1024 = ?L" "n mod 1024 = 0" using n l by auto
  have run: "vmem_get (frame_addr n) (tables s) s = Some (t, ?s)"
    using k(1) e tn unfolding vmem_get_def Let_def page_index [OF n4(1)] n4(2,3)
    by (simp add: mult.commute TABLE_SIZE_def flags_3 s0_def say_def)
  have new: "t \<notin> set (frame_set s # tables s # ts)" "t \<noteq> handlers s" using k(5) D(8,13) by (force simp: owns_def)+
  have own: "\<forall>p \<in> set (frame_set s # tables s # ts @ [t]). owns cs p 4096" using D(8) k(4,6) by auto
  have sub: "region ?e 4 \<subseteq> region (tables s) 4096" using l by (intro word_in_page) simp
  have hm: "heap_ok (s\<lparr>log := l', mem := m\<rparr>) cs" using k(2) by (simp add: s0_def say_def)
  have h: "heap_ok ?s cs"
    using owns_store [OF hm, of "tables s" 4096 ?m] own sub st32_frame [of _ ?e m] by auto
  have apart: "region p 4096 \<inter> region q 4096 = {}" if "p \<in> set (frame_set s # tables s # ts @ [t])"
    "q \<in> set (frame_set s # tables s # ts @ [t])" "p \<noteq> q" for p q
    using owns_apart [OF hm] own that by blast
  have kept: "?m x = mem s x" if "p \<in> set (frame_set s # ts)" "x \<in> region p 4096" for p x
  proof -
    have "p \<noteq> tables s" using that(1) D(7) by auto
    then have "x \<notin> region ?e 4" using apart [of p "tables s"] that sub by auto
    then show ?thesis using keeps_owns [OF D(1) _ k(10) that(2)] D(8) that(1) by (auto simp: st32_frame)
  qed
  have "frames ?s = frames s"
    using frames_cong [of s ?m] kept [of "frame_set s"] by (simp add: frames_def)
  moreover have "ld32 ?m (tables s + of_nat (j * 4)) = (if j < length (ts @ [t]) then (ts @ [t]) ! j OR 3 else 0)" if j: "j < 1024" for j
  proof -
    have "ld32 m (tables s + of_nat (j * 4)) = ld32 (mem s) (tables s + of_nat (j * 4))"
      using keeps_owns [OF D(1) _ k(10), of "tables s" 4096] D(8) word_in_page [OF j, of "tables s"] by (intro ld32_cong) auto
    then show ?thesis using ld32_array [of ?L j m "tables s" "t OR 3"] D(11) [OF j] j l by (auto simp: nth_append simp del: of_nat_mult)
  qed
  moreover have "ld32 ?m ((ts @ [t]) ! j + of_nat (i * 4)) = (if j * 1024 + i < n then frame_addr (j * 1024 + i) OR 3 else 0)"
    if j: "j < length (ts @ [t])" "i < 1024" for j i
  proof (cases "j < ?L")
    case True
    have "ld32 ?m (ts ! j + of_nat (i * 4)) = ld32 (mem s) (ts ! j + of_nat (i * 4))"
      using kept [of "ts ! j"] True word_in_page [OF j(2), of "ts ! j"] by (intro ld32_cong) auto
    then show ?thesis using D(12) [OF True j(2)] True by (simp add: nth_append)
  next
    case False
    have "?m x = 0" if "x \<in> region t 4096" for x
      using apart [of t "tables s"] new sub that k(11) st32_frame [of x ?e m] by auto
    then have "ld32 ?m (t + of_nat (i * 4)) = 0" using word_in_page [OF j(2), of t] by (intro ld32_zero) auto
    then show ?thesis using False j n by (simp add: nth_append less_Suc_eq)
  qed
  moreover have "top_of cs + 8192 * (4 - length (ts @ [t])) \<le> HEAP_END" using D(5) k(9) l by simp
  ultimately have "vm_ok ?s cs (ts @ [t]) n"
    unfolding vm_ok_def using h k(3,6,7,8) l n D own new by auto
  moreover have "vm_step s bs ts ?s cs (ts @ [t])"
  proof -
    have "?m x = mem s x" if "outside x" for x
    proof -
      have "x \<notin> region (tables s) 4096" using owns_outside [OF hm _ that] own by simp
      then have "x \<notin> region ?e 4" using sub by blast
      then show ?thesis using keeps_outside [OF k(10) that] by (simp add: st32_frame)
    qed
    moreover have "q \<noteq> t" "?m x = mem s x" if q: "owns bs q i" "q \<notin> set (frame_set s # tables s # ts)" "x \<in> region q i" for q i x
    proof -
      show "q \<noteq> t" using k(5) q(1) by (force simp: owns_def)
      have "x \<notin> region ?e 4" using owns_apart [OF D(1) q(1), of "tables s" 4096] D(8) q(2,3) sub by auto
      then show "?m x = mem s x" using keeps_owns [OF D(1) q(1) k(10) q(3)] by (simp add: st32_frame)
    qed
    moreover have "q \<noteq> t" if "owns bs q i" for q i using k(5) that by (force simp: owns_def)
    ultimately show ?thesis using k(6,9) unfolding vm_step_def by auto
  qed
  ultimately show ?thesis using run by (intro exI [of _ t] exI [of _ ?s] exI [of _ cs]) simp
qed

subsection \<open>All pages\<close>

lemma map_page:
  fixes s :: "'a vmem_scheme"
  assumes ok: "vm_ok s bs ts n" and n: "n < 4096"
  shows "\<exists>s' cs us. pmem_mapaddr (of_nat n * PAGE_SIZE) 0 P_WRITABLE (tables s) s = Some s' \<and> vm_ok s' cs us (Suc n) \<and> vm_step s bs ts s' cs us"
proof -
  have le: "n \<le> 1024 * length ts" using vm_okD(6) [OF ok] .
  have fa: "of_nat n * PAGE_SIZE = frame_addr n" by (simp add: frame_addr_def)
  show ?thesis
  proof (cases "n < 1024 * length ts")
    case True
    with map_next [OF ok True refl] map_next_step [OF ok True refl] get_present [OF ok True] show ?thesis
      unfolding pmem_mapaddr_def fa by fastforce
  next
    case False
    with le n have nl: "n = 1024 * length ts" "length ts < 4" by auto
    from get_creates [OF ok this] obtain t s1 cs where c: "vmem_get (frame_addr n) (tables s) s = Some (t, s1)"
      "vm_ok s1 cs (ts @ [t]) n" "vm_step s bs ts s1 cs (ts @ [t])" by blast
    have "n < 1024 * length (ts @ [t])" using nl(1) by simp
    from map_next [OF c(2) this refl] vm_step_trans [OF c(3) map_next_step [OF c(2) this refl]] nl(1) c(1) show ?thesis
      unfolding pmem_mapaddr_def fa by (auto simp: nth_append)
  qed
qed

lemma map_pages_ok:
  fixes s :: "'a vmem_scheme"
  shows "n \<le> 4096 \<Longrightarrow> vm_ok s bs ts n \<Longrightarrow> \<exists>s' cs us. map_pages [n..<4096] s = Some s' \<and> vm_ok s' cs us 4096 \<and> vm_step s bs ts s' cs us"
proof (induction "4096 - n" arbitrary: n s bs ts)
  case 0
  then show ?case using vm_step_refl [of s bs ts] by (intro exI [of _ s] exI [of _ bs] exI [of _ ts]) simp
next
  case (Suc d)
  then have n: "n < 4096" by simp
  obtain s1 cs us where s1: "pmem_mapaddr (of_nat n * PAGE_SIZE) 0 P_WRITABLE (tables s) s = Some s1" "vm_ok s1 cs us (Suc n)"
    "vm_step s bs ts s1 cs us"
    using map_page [OF Suc.prems(2) n] by blast
  have "\<exists>s' ds vs. map_pages [Suc n..<4096] s1 = Some s' \<and> vm_ok s' ds vs 4096 \<and> vm_step s1 cs us s' ds vs"
    using Suc.hyps(2) n by (intro Suc.hyps(1) [OF _ _ s1(2)]) auto
  then obtain s' ds vs where r: "map_pages [Suc n..<4096] s1 = Some s'" "vm_ok s' ds vs 4096" "vm_step s1 cs us s' ds vs" by blast
  have "map_pages [n..<4096] s = Some s'" using s1(1) r(1) n by (simp add: upt_conv_Cons del: upt_rec_numeral)
  then show ?case using r(2) vm_step_trans [OF s1(3) r(3)] by blast
qed

lemma vm_ok_store:
  assumes ok: "vm_ok s bs ts n" and fr: "\<And>x. x \<notin> region (handlers s) 1024 \<Longrightarrow> m x = mem s x"
  shows "vm_ok (s\<lparr>mem := m\<rparr>) bs ts n"
proof -
  note D = vm_okD [OF ok]
  have same: "m x = mem s x" if "t \<in> set (frame_set s # tables s # ts)" "x \<in> region t 4096" for t x
  proof -
    have "owns bs t 4096" "t \<noteq> handlers s" using D(8,14) that(1) by auto
    with owns_apart [OF D(1) _ D(13), of t 4096] that(2) fr [of x] show ?thesis by auto
  qed
  have w: "ld32 m (t + of_nat (k * 4)) = ld32 (mem s) (t + of_nat (k * 4))" if "t \<in> set (frame_set s # tables s # ts)" "k < 1024" for t k
    using same [OF that(1)] word_in_page [OF that(2), of t] by (intro ld32_cong) auto
  have "heap_ok (s\<lparr>mem := m\<rparr>) bs" by (rule owns_store [OF D(1) D(13) fr])
  moreover have "frames (s\<lparr>mem := m\<rparr>) = frames s" using same [of "frame_set s"] by (intro frames_cong) simp
  ultimately show ?thesis using D w [of "tables s"] w [of "ts ! _"] by (simp add: vm_ok_def)
qed

subsection \<open>Translation\<close>

lemma translate_identity:
  assumes ok: "vm_ok s bs ts n" and a: "unat a div 4096 < n"
  shows "translate (mem s) (tables s) a = Some a"
proof -
  note D = vm_okD [OF ok]
  let ?p = "unat a div 4096"
  let ?j = "?p div 1024" and ?k = "?p mod 1024"
  have p: "?p < 4096" "?j < length ts" using a D(4,6) by (auto simp: less_mult_imp_div_less mult.commute)
  have s: "?j < 2 ^ 32" "?k < 2 ^ 32" using p by simp_all
  have "unat (drop_bit 22 a) = ?j" unfolding unat_drop_bit_eq by (simp add: drop_bit_eq_div flip: div_mult2_eq)
  then have j: "drop_bit 22 a = of_nat ?j" using unat_of_nat32 [OF s(1)] by (simp add: word_unat_eq_iff)
  have "unat (drop_bit 12 a AND mask 10) = ?k"
    unfolding take_bit_eq_mask [symmetric] unsigned_take_bit_eq unat_drop_bit_eq by (simp add: drop_bit_eq_div take_bit_eq_mod)
  then have k: "drop_bit 12 a AND mask 10 = of_nat ?k" using unat_of_nat32 [OF s(2)] by (simp add: word_unat_eq_iff)
  have "?j < 1024" using p by simp
  then have pde: "ld32 (mem s) (tables s + 4 * drop_bit 22 a) = ts ! ?j OR 3"
    using D(11) [of ?j] p(2) unfolding j by (simp add: mult.commute)
  have t: "4096 dvd unat (ts ! ?j)" using D(9) p(2) by simp
  have f: "?p < NFRAMES" using p(1) by (simp add: NFRAMES_def)
  have pte: "ld32 (mem s) (ts ! ?j + 4 * (drop_bit 12 a AND mask 10)) = frame_addr ?p OR 3"
    using D(12) [OF p(2), of ?k] a unfolding k by (simp add: mult.commute)
  have uf: "unat (frame_addr ?p) = ?p * 4096" by (rule unat_frame_addr [OF f])
  have fp: "(frame_addr ?p OR 3) AND NOT (mask 12) = frame_addr ?p" using uf by (intro entry_page) simp
  have ul: "unat (a AND mask 12) = unat a mod 4096" unfolding take_bit_eq_mask [symmetric] unsigned_take_bit_eq by (simp add: take_bit_eq_mod)
  have "unat (frame_addr ?p + (a AND mask 12)) = unat a"
    using uf ul unat_lt32 [of a] by (subst unat_plus32) (auto simp: div_mult_mod_eq)
  then have "frame_addr ?p + (a AND mask 12) = a" by (simp add: word_unat_eq_iff)
  then show ?thesis unfolding translate_def Let_def pde entry_page [OF t] pte fp by (simp add: entry_present)
qed

subsection \<open>Initialisation\<close>

lemma dir_alloc_ok:
  fixes s :: "'a vmem_scheme"
  assumes ok: "heap_ok s bs" "list_all fst bs" "pad_ok 12 (top_of bs)" "top_of bs + 40960 \<le> HEAP_END"
    and own: "owns bs (frame_set s) 4096" "owns bs (handlers s) 1024" "frame_set s \<noteq> handlers s"
    and st: "tables s = 0" "frames s = {}"
  shows "\<exists>s' cs. dir_alloc s = Some s' \<and> vm_ok s' cs [] 0 \<and> (\<exists>l m t. s' = s\<lparr>log := l, mem := m, tables := t, cr3 := t\<rparr>)
    \<and> (\<forall>x. outside x \<longrightarrow> mem s' x = mem s x) \<and> top_of cs \<le> top_of bs + 8192
    \<and> (\<forall>q k. owns bs q k \<longrightarrow> q \<noteq> frame_set s \<longrightarrow> owns cs q k \<and> q \<noteq> tables s' \<and> (\<forall>x \<in> region q k. mem s' x = mem s x))"
proof -
  have "top_of bs + 8192 \<le> HEAP_END" using ok(4) by simp
  from kmalloca_page [OF ok(1-3) this] obtain t m l cs where
    k: "kmalloca s 4096 PAGE_ALIGN_SHIFT = Some (t, s\<lparr>log := l, mem := m\<rparr>)"
    "heap_ok (s\<lparr>log := l, mem := m\<rparr>) cs" "list_all fst cs" "owns cs t 4096" "unat t \<notin> fst ` live_set bs"
    "\<forall>q n. owns bs q n \<longrightarrow> owns cs q n" "4096 dvd top_of cs" "top_of cs \<le> top_of bs + 8192"
    "keeps bs (mem s) m" by blast
  have tF: "t \<noteq> frame_set s" "t \<noteq> handlers s" using k(5) own by (force simp: owns_def)+
  have oF: "owns cs (frame_set s) 4096" "owns cs (handlers s) 1024" using k(6) own by auto
  let ?m = "wr m t (replicate 4096 0)"
  let ?s = "s\<lparr>log := l, mem := ?m, tables := t, cr3 := t\<rparr>"
  have run: "dir_alloc s = Some ?s" using k(1) st(1) by (simp add: dir_alloc_def DIR_SIZE_def memset_wr Let_def)
  have fr: "?m x = m x" if "x \<notin> region t 4096" for x using wr_frame [of x t "replicate 4096 0" m] that by simp
  have "heap_ok (s\<lparr>log := l, mem := ?m\<rparr>) cs" using owns_store [OF k(2,4), of ?m] fr by simp
  then have h: "heap_ok ?s cs" by (simp add: heap_ok_def)
  have "?m x = mem s x" if "x \<in> region (frame_set s) 4096" for x
    using owns_apart [OF h k(4) oF(1)] tF that fr [of x] keeps_owns [OF ok(1) own(1) k(9) that] by auto
  then have "frames ?s = {}" using frames_cong [of s ?m] st(2) by (simp add: frames_def)
  moreover have "ld32 ?m (t + of_nat (j * 4)) = 0" if "j < 1024" for j
    using word_in_page [OF that, of t] wr_zeros [of _ t 4096 m] by (intro ld32_zero) auto
  ultimately have "vm_ok ?s cs [] 0"
    unfolding vm_ok_def using h k(3,4,7,8) ok(4) tF own(3) oF by auto
  moreover have "?m x = mem s x" if "outside x" for x
    using owns_outside [OF h k(4) that] fr keeps_outside [OF k(9) that] by simp
  moreover have "q \<noteq> t" if "owns bs q i" for q i using k(5) that by (force simp: owns_def)
  moreover have "?m x = mem s x" if q: "owns bs q i" "x \<in> region q i" for q i x
  proof -
    have "x \<notin> region t 4096" using owns_apart [OF h _ k(4), of q i] k(6) q calculation(3) [OF q(1)] by blast
    then show ?thesis using fr keeps_owns [OF ok(1) q(1) k(9) q(2)] by simp
  qed
  moreover have "\<exists>l' m' t'. ?s = s\<lparr>log := l', mem := m', tables := t', cr3 := t'\<rparr>" by blast
  ultimately show ?thesis using run k(6,8) by (intro exI [of _ ?s] exI [of _ cs]) simp
qed

lemma paging_bit: "bit (w OR 0x80000000) 31" for w :: u32
proof -
  have "(0x80000000 :: u32) = 2 ^ 31" by simp
  moreover have "bit (2 ^ 31 :: u32) 31" by (simp only: bit_exp_iff possible_bit_word) simp
  ultimately have "bit (0x80000000 :: u32) 31" by metis
  then show ?thesis by (simp only: bit_or_iff) simp
qed

text \<open>vmem_init, with what its callers need besides.\<close>

lemma vmem_init_run:
  fixes s :: "'a vmem_scheme"
  assumes "heap_ok s bs" and "list_all fst bs" and "pad_ok 12 (top_of bs)" and "top_of bs + 40960 \<le> HEAP_END"
    and "owns bs (frame_set s) 4096" and "owns bs (handlers s) 1024" and "frame_set s \<noteq> handlers s"
    and "tables s = 0" and "frames s = {}"
  shows "\<exists>s' cs. vmem_init img s = Some s' \<and> heap_ok s' cs \<and> bit (cr0 s') 31
    \<and> (\<forall>a < 0x1000000. translate (mem s') (cr3 s') a = Some a)
    \<and> frames s' = {..<4096} \<and> handler_at s' 14 = img Page_fault
    \<and> list_all fst cs \<and> top_of cs \<le> top_of bs + 40960 \<and> owns cs (handlers s) 1024
    \<and> (\<forall>n < 256. n \<noteq> 14 \<longrightarrow> handler_at s' (of_nat n) = handler_at s (of_nat n))
    \<and> (\<forall>x. outside x \<longrightarrow> mem s' x = mem s x)
    \<and> (\<forall>q k. owns bs q k \<longrightarrow> q \<notin> {frame_set s, handlers s} \<longrightarrow> owns cs q k \<and> (\<forall>x \<in> region q k. mem s' x = mem s x))
    \<and> (\<exists>ts. vm_ok s' cs ts 4096) \<and> (\<exists>l m t c. s' = s\<lparr>log := l, mem := m, tables := t, cr3 := t, cr0 := c\<rparr>)"
proof -
  obtain s1 c1 where d: "dir_alloc s = Some s1" "vm_ok s1 c1 [] 0" "\<exists>l m t. s1 = s\<lparr>log := l, mem := m, tables := t, cr3 := t\<rparr>"
    "\<forall>x. outside x \<longrightarrow> mem s1 x = mem s x" "top_of c1 \<le> top_of bs + 8192"
    "\<forall>q k. owns bs q k \<longrightarrow> q \<noteq> frame_set s \<longrightarrow> owns c1 q k \<and> q \<noteq> tables s1 \<and> (\<forall>x \<in> region q k. mem s1 x = mem s x)"
    using dir_alloc_ok [OF assms] by blast
  obtain s2 cs ts where m: "map_pages [0..<4096] s1 = Some s2" "vm_ok s2 cs ts 4096" "vm_step s1 c1 [] s2 cs ts"
    using map_pages_ok [OF _ d(2)] by blast
  obtain l1 m1 t1 where s1: "s1 = s\<lparr>log := l1, mem := m1, tables := t1, cr3 := t1\<rparr>" using d(3) by blast
  obtain m2 l2 where s2: "s2 = s1\<lparr>log := l2, mem := m2\<rparr>" using m(3) unfolding vm_step_def by blast
  let ?s3 = "int_hook_handler (of_nat 14) (img Page_fault) s2"
  let ?H = "region (handlers s) 1024"
  have fs: "frame_set s1 = frame_set s" "handlers s1 = handlers s" "handlers s2 = handlers s" by (simp_all add: s1 s2)
  have fr: "mem ?s3 x = mem s2 x" if "x \<notin> ?H" for x using handler_hook_frame [of 14 x s2 "img Page_fault"] that fs by simp
  have s3: "?s3 = s2\<lparr>mem := mem ?s3\<rparr>" by (simp add: int_hook_handler_def)
  have "vm_ok (s2\<lparr>mem := mem ?s3\<rparr>) cs ts 4096" using fr fs by (intro vm_ok_store [OF m(2)]) simp
  then have v: "vm_ok ?s3 cs ts 4096" using s3 by metis
  note D = vm_okD [OF v]
  have hs: "handlers ?s3 = handlers s" by (simp add: int_hook_handler_def fs)
  let ?s' = "vmem_enable (tables ?s3) ?s3"
  have run: "vmem_init img s = Some ?s'" using d(1) m(1) by (simp add: vmem_init_def Let_def del: upt_rec_numeral)
  have two: "owns cs q k \<and> (\<forall>x \<in> region q k. mem s2 x = mem s x)" if "owns bs q k" "q \<noteq> frame_set s" for q k
  proof -
    have "owns c1 q k" "q \<noteq> tables s1" "\<forall>x \<in> region q k. mem s1 x = mem s x" using d(6) that by blast+
    moreover from this that fs have "owns cs q k \<and> (\<forall>x \<in> region q k. mem s2 x = mem s1 x)" using m(3) unfolding vm_step_def by auto
    ultimately show ?thesis by simp
  qed
  have H: "owns cs (handlers s) 1024" "\<forall>x \<in> ?H. mem s2 x = mem s x" using two [OF assms(6)] assms(7) by auto
  have "owns cs q k \<and> (\<forall>x \<in> region q k. mem ?s' x = mem s x)" if q: "owns bs q k" "q \<notin> {frame_set s, handlers s}" for q k
  proof -
    have "region q k \<inter> ?H = {}" using owns_apart [OF D(1) _ H(1), of q k] two [OF q(1)] q(2) by auto
    then have "mem ?s' x = mem s2 x" if "x \<in> region q k" for x using fr [of x] that by (auto simp: vmem_enable_def)
    then show ?thesis using two [OF q(1)] q(2) by simp
  qed
  moreover have "mem ?s' x = mem s x" if "outside x" for x
    using owns_outside [OF D(1) H(1) that] fr m(3) d(4) that by (auto simp: vmem_enable_def vm_step_def)
  moreover have "heap_ok ?s' cs" "frames ?s' = {..<4096}" using D(1,10) by (simp_all add: vmem_enable_def heap_ok_def frames_def)
  moreover have "bit (cr0 ?s') 31" using paging_bit by (simp add: vmem_enable_def int_hook_handler_def)
  moreover have hk: "handler_at ?s' (of_nat n) = (if n = 14 then img Page_fault else handler_at s (of_nat n))" if "n < 256" for n
  proof -
    have "handler_at s2 (of_nat n) = handler_at s (of_nat n)" using H(2) fs that by (intro handlers_cong) auto
    moreover have "handler_at ?s' (of_nat n) = handler_at ?s3 (of_nat n)" by (simp add: vmem_enable_def handler_at_def)
    ultimately show ?thesis using handler_hook [of 14 n "img Page_fault" s2] that by simp
  qed
  moreover have "handler_at ?s' 14 = img Page_fault" using hk [of 14] by simp
  moreover have "translate (mem ?s') (cr3 ?s') a = Some a" if "a < 0x1000000" for a
    using translate_identity [OF v, of a] that by (simp add: vmem_enable_def word_less_nat_alt)
  moreover have "top_of cs \<le> top_of bs + 40960" using m(3) d(5) D(4) by (simp add: vm_step_def)
  moreover have "\<exists>ts. vm_ok ?s' cs ts 4096"
    using v by (intro exI [of _ ts]) (simp add: vm_ok_def vmem_enable_def heap_ok_def frames_def)
  moreover have "\<exists>l m t c. ?s' = s\<lparr>log := l, mem := m, tables := t, cr3 := t, cr0 := c\<rparr>"
    by (intro exI [of _ l2] exI [of _ "mem ?s3"] exI [of _ t1] exI [of _ "cr0 ?s'"])
      (simp add: vmem_enable_def int_hook_handler_def s2 s1)
  ultimately show ?thesis using run H(1) D(2) by (intro exI [of _ ?s'] exI [of _ cs]) simp
qed

section \<open>Properties\<close>

text \<open>
  C7: vmem_init. In a heap without free blocks and with room for a page directory and four page
  tables, and with no frame in use, the call ends with paging on: every address below 16 MB is
  translated to itself, the first 4096 frames are in use, and the page fault handler is registered.
\<close>

theorem vmem_init_identity:
  fixes s :: "'a vmem_scheme"
  assumes "heap_ok s bs" and "list_all fst bs" and "pad_ok 12 (top_of bs)" and "top_of bs + 40960 \<le> HEAP_END"
    and "owns bs (frame_set s) 4096" and "owns bs (handlers s) 1024" and "frame_set s \<noteq> handlers s"
    and "tables s = 0" and "frames s = {}"
  shows "\<exists>s' cs. vmem_init img s = Some s' \<and> heap_ok s' cs \<and> bit (cr0 s') 31
    \<and> (\<forall>a < 0x1000000. translate (mem s') (cr3 s') a = Some a)
    \<and> frames s' = {..<4096} \<and> handler_at s' 14 = img Page_fault"
  using vmem_init_run [OF assms, of img] by blast

text \<open>A heap with the interrupt tables and an empty frame bitmap.\<close>

definition vmem_of :: "ablock list \<Rightarrow> addr \<Rightarrow> addr \<Rightarrow> vmem" where
  "vmem_of bs h f = \<lparr>mem = mem (heap_of bs), errno = 0, log = [], io = [], serial_enabled = 0, root = HEAP_BASE, entries = 0, handlers = h,
     idtr = \<lparr>limit = 0, base = 0\<rparr>, idt_reg = \<lparr>limit = 0, base = 0\<rparr>, frame_set = f, tables = 0, cr0 = 0x11, cr2 = 0, cr3 = 0\<rparr>"

theorem vmem_init_identity_witness:
  "\<exists>s'. vmem_init (\<lambda>_. 0x1234) (vmem_of [(True, 4096), (True, 1024)] 0x401020 0x400010) = Some s'
     \<and> translate (mem s') (cr3 s') 0xB8000 = Some 0xB8000 \<and> handler_at s' 14 = 0x1234"
proof -
  let ?bs = "[(True, 4096), (True, 1024)]" and ?s = "vmem_of [(True, 4096), (True, 1024)] 0x401020 0x400010"
  have "heap_ok (heap_of ?bs) ?bs" by (simp add: heap_eval)
  then have h: "heap_ok ?s ?bs" by (simp add: heap_ok_def vmem_of_def)
  have f: "frames ?s = {}" by (rule frames_fresh [of ?bs]) (auto simp: heap_eval vmem_of_def owns_def)
  obtain s' where "vmem_init (\<lambda>_. 0x1234) ?s = Some s'" "\<forall>a < 0x1000000. translate (mem s') (cr3 s') a = Some a" "handler_at s' 14 = 0x1234"
    using vmem_init_identity [OF h _ _ _ _ _ _ _ f, of "\<lambda>_. 0x1234"]
    by (auto simp: heap_eval vmem_of_def owns_def)
  then show ?thesis by (intro exI [of _ s']) auto
qed

end
