(* ===== verification/Pit.thy ===== *)
theory Pit
  imports Vmem
begin

text \<open>
  The timer (kernel/dev/pit.c) and the loops that wait for an interrupt. A loop like
  \<open>while(busy);\<close> makes progress only by the interrupts that arrive meanwhile: the model takes
  them as a list, handles one after the other until the condition holds, and never returns when
  the list ends before.
\<close>

section \<open>Waiting\<close>

fun wait_until :: "('s \<Rightarrow> bool) \<Rightarrow> ('e \<Rightarrow> 's \<Rightarrow> 's fate option) \<Rightarrow> 'e list \<Rightarrow> 's \<Rightarrow> ('s \<times> 'e list) option" where
  "wait_until P step [] s = (if P s then Some (s, []) else None)"
| "wait_until P step (e # es) s =
     (if P s then Some (s, e # es)
      else case step e s of Some (Returns s) \<Rightarrow> wait_until P step es s | _ \<Rightarrow> None)"

section \<open>pit.c\<close>

record pit = vmem +
  busy :: byte
  ticks :: u32

definition PIT_DATA0 :: u16 where "PIT_DATA0 = 0x40"
definition PIT_CMD :: u16 where "PIT_CMD = 0x43"
definition PIT_CHANNEL0 :: byte where "PIT_CHANNEL0 = 0x00"
definition PIT_LOHIBYTE :: byte where "PIT_LOHIBYTE = 0x30"
definition PIT_MODE3 :: byte where "PIT_MODE3 = 0x06"
definition EBUSY :: u32 where "EBUSY = 16"

definition pit_delay ::
  "('e \<Rightarrow> 'a pit_scheme \<Rightarrow> 'a pit_scheme fate option) \<Rightarrow> 'e list \<Rightarrow> u32 \<Rightarrow> 'a pit_scheme \<Rightarrow> (u32 \<times> 'a pit_scheme \<times> 'e list) option" where
  "pit_delay step evs n s =
     (if busy s \<noteq> 0 then let s = s\<lparr>errno := EBUSY\<rparr> in Some (- errno s, s, evs)
      else do {
        r \<leftarrow> wait_until (\<lambda>s. busy s = 0) step evs (s\<lparr>busy := 1, ticks := n\<rparr>);
        Some (0, r)
      })"

definition pit_irq :: "registers \<Rightarrow> 'a pit_scheme \<Rightarrow> 'a pit_scheme" where
  "pit_irq regs s = (if busy s \<noteq> 0 \<and> 0 < ticks s then s\<lparr>ticks := ticks s - 1\<rparr> else s\<lparr>busy := 0\<rparr>)"

text \<open>A division by zero is interrupt 0, whose handler spins.\<close>

definition pit_init :: "image \<Rightarrow> u32 \<Rightarrow> 'a pit_scheme \<Rightarrow> (u32 \<times> 'a pit_scheme) option" where
  "pit_init img freq s =
     (if freq = 0 then None
      else let divisor = 1193180 div freq;
               low = ucast (divisor AND 0xFF);
               high = ucast (drop_bit 8 divisor AND 0xFF);
               s = int_hook_handler 0x20 (img Pit_irq) s;
               s = outb PIT_CMD (PIT_CHANNEL0 OR PIT_MODE3 OR PIT_LOHIBYTE) s;
               s = outb PIT_DATA0 low s;
               s = outb PIT_DATA0 high s
           in Some (0, s))"

section \<open>Lemmas\<close>

text \<open>The timer interrupt, with \<open>pit_irq\<close> registered for vector 32.\<close>

lemma irq_timer:
  fixes s :: "'a pit_scheme"
  assumes "handler_at s 32 = a" "a \<noteq> 0" "call a = (\<lambda>regs t. Some (Returns (pit_irq regs t)))" "r_int_no regs = 32"
  shows "irq_handler call regs s = Some (Returns (pit_irq regs (s\<lparr>io := io s @ [Outb PIC1_CMD 0x20]\<rparr>)))"
  using assms by (simp add: irq_handler_def pic_send_eoi_def outb_def handler_at_def Let_def)

lemma delay_loop:
  fixes s :: "'a pit_scheme"
  assumes h: "a \<noteq> 0" "call a = (\<lambda>regs t. Some (Returns (pit_irq regs t)))"
  shows "handler_at s 32 = a \<Longrightarrow> busy s \<noteq> 0 \<Longrightarrow> list_all (\<lambda>r. r_int_no r = 32) evs \<Longrightarrow>
    wait_until (\<lambda>s. busy s = 0) (irq_handler call) evs s =
      (if unat (ticks s) < length evs
       then Some (s\<lparr>io := io s @ replicate (Suc (unat (ticks s))) (Outb PIC1_CMD 0x20), busy := 0, ticks := 0\<rparr>,
         drop (Suc (unat (ticks s))) evs)
       else None)"
proof (induction evs arbitrary: s)
  case (Cons e evs)
  let ?s = "s\<lparr>io := io s @ [Outb PIC1_CMD 0x20]\<rparr>"
  have step: "irq_handler call e s = Some (Returns (pit_irq e ?s))"
    using irq_timer [of s a call e] Cons.prems(1,3) h by simp
  have same: "handler_at (pit_irq e ?s) 32 = a" using Cons.prems(1) by (simp add: pit_irq_def handler_at_def)
  show ?case
  proof (cases "ticks s = 0")
    case True
    then show ?thesis using step Cons.prems by (cases evs) (simp_all add: pit_irq_def)
  next
    case False
    then have t: "pit_irq e ?s = ?s\<lparr>ticks := ticks s - 1\<rparr>" "unat (ticks s) = Suc (unat (ticks s - 1))"
      using Cons.prems by (simp_all add: pit_irq_def word_greater_zero_iff unat_pred32 unat_gt_0)
    have "handler_at (?s\<lparr>ticks := ticks s - 1\<rparr>) 32 = a" "busy (?s\<lparr>ticks := ticks s - 1\<rparr>) \<noteq> 0"
      using same t(1) Cons.prems(2) by simp_all
    from Cons.IH [OF this] step t Cons.prems(2,3) show ?thesis by auto
  qed
qed simp

section \<open>Properties\<close>

text \<open>
  C14: pit_delay. With the timer registered for vector 32, a delay of n ticks returns with the
  timer free again after exactly n + 1 timer interrupts, and not before (without that many it does
  not return); while a delay runs, another call fails with EBUSY and changes nothing else.
\<close>

theorem pit_delay_ticks:
  fixes s :: "'a pit_scheme"
  assumes "handler_at s 32 = a" and "a \<noteq> 0" and "call a = (\<lambda>regs t. Some (Returns (pit_irq regs t)))"
    and "list_all (\<lambda>r. r_int_no r = 32) evs"
  shows "pit_delay (irq_handler call) evs n s =
    (if busy s \<noteq> 0 then Some (- EBUSY, s\<lparr>errno := EBUSY\<rparr>, evs)
     else if unat n < length evs
     then Some (0, s\<lparr>io := io s @ replicate (Suc (unat n)) (Outb PIC1_CMD 0x20), busy := 0, ticks := 0\<rparr>, drop (Suc (unat n)) evs)
     else None)"
proof -
  have "handler_at (s\<lparr>busy := 1, ticks := n\<rparr>) 32 = a" using assms(1) by (simp add: handler_at_def)
  with delay_loop [of a call "s\<lparr>busy := 1, ticks := n\<rparr>" evs] assms show ?thesis by (simp add: pit_delay_def Let_def)
qed

definition pit_of :: "mem \<Rightarrow> addr \<Rightarrow> pit" where
  "pit_of m h = \<lparr>mem = m, errno = 0, log = [], io = [], serial_enabled = 0, root = HEAP_BASE, entries = 0, handlers = h,
     idtr = \<lparr>limit = 0, base = 0\<rparr>, idt_reg = \<lparr>limit = 0, base = 0\<rparr>, frame_set = 0, tables = 0, cr0 = 0x11, cr2 = 0, cr3 = 0,
     busy = 0, ticks = 0\<rparr>"

theorem pit_delay_ticks_witness:
  "\<exists>s'. pit_delay (irq_handler (\<lambda>a regs s. Some (Returns (pit_irq regs s)))) (replicate 5 (vector_regs 32)) 3
     (pit_of (st32 (\<lambda>_. 0) 0x1080 0x2000) 0x1000) = Some (0, s', [vector_regs 32]) \<and> length (io s') = 4"
proof -
  let ?s = "pit_of (st32 (\<lambda>_. 0) 0x1080 0x2000) 0x1000"
  have "handler_at ?s 32 = 0x2000" "busy ?s = 0" "io ?s = []" "r_int_no (vector_regs 32) = 32"
    by (simp_all add: pit_of_def handler_at_def vector_regs_def)
  with pit_delay_ticks [of ?s "0x2000" "\<lambda>a regs s. Some (Returns (pit_irq regs s))" "replicate 5 (vector_regs 32)" 3]
  show ?thesis by (simp add: list_all_iff)
qed

text \<open>
  pit_init. The two bytes written to the data port are the divisor of the base frequency,
  low byte first, for every frequency that a 16-bit divisor can express; the timer is registered.
\<close>

lemma pit_init_divisor:
  assumes "19 \<le> freq"
  shows "\<exists>s' lo hi. pit_init img freq s = Some (0, s') \<and> handler_at s' 32 = img Pit_irq
    \<and> io s' = io s @ [Outb PIT_CMD 0x36, Outb PIT_DATA0 lo, Outb PIT_DATA0 hi]
    \<and> 256 * unat hi + unat lo = 1193180 div unat freq"
proof -
  let ?d = "1193180 div freq"
  have f: "freq \<noteq> 0" "19 \<le> unat freq" using assms by (auto simp: word_le_nat_alt)
  have ff: "(0xFF :: u32) = mask 8" by (simp add: mask_eq_exp_minus_1)
  have d: "unat ?d = 1193180 div unat freq" by (simp add: unat_div)
  have "1193180 div unat freq \<le> 1193180 div 19" by (rule div_le_mono2) (use f in simp_all)
  then have d16: "unat ?d < 65536" using d by simp
  have lo: "unat (ucast (?d AND 0xFF) :: byte) = unat ?d mod 256"
    unfolding ff take_bit_eq_mask [symmetric] unsigned_ucast_eq unsigned_take_bit_eq by (simp add: take_bit_eq_mod)
  have hi: "unat (ucast (drop_bit 8 ?d AND 0xFF) :: byte) = unat ?d div 256"
    unfolding ff take_bit_eq_mask [symmetric] unsigned_ucast_eq unsigned_take_bit_eq unat_drop_bit_eq
    using d16 by (simp add: drop_bit_eq_div take_bit_eq_mod)
  have "handler_at (int_hook_handler 0x20 (img Pit_irq) s) 32 = img Pit_irq"
    using handler_hook [of 32 32 "img Pit_irq" s] by simp
  then show ?thesis using f(1) lo hi d
    by (auto simp: pit_init_def Let_def outb_def handler_at_def int_hook_handler_def PIT_CHANNEL0_def PIT_MODE3_def PIT_LOHIBYTE_def
      simp del: unsigned_ucast_eq)
qed

end
