(* ===== verification/Vga.thy ===== *)
theory Vga
  imports Pit Libc_Conv
begin

text \<open>
  The output half of the terminal (kernel/dev/tty.c, include/dev/tty.h): the text buffer of the
  VGA adapter at 0xB8000, the hardware cursor behind the ports of the CRT controller, and the
  structure of a terminal, a packed object in memory.
\<close>

section \<open>State\<close>

record tty = pit +
  current_tty :: addr
  tty_initialised :: byte

definition VGA_CMD :: u16 where "VGA_CMD = 0x3D4"
definition VGA_DATA :: u16 where "VGA_DATA = VGA_CMD + 1"
definition VGA_BASE :: addr where "VGA_BASE = 0xB8000"
definition VGA_WIDTH :: int where "VGA_WIDTH = 80"
definition VGA_HEIGHT :: int where "VGA_HEIGHT = 25"
definition VGA_COORD :: "int \<Rightarrow> int \<Rightarrow> int" where "VGA_COORD x y = y * VGA_WIDTH + x"

text \<open>The address of a cell: \<open>VGA_BASE+VGA_COORD(x,y)\<close> on a pointer to 16-bit cells.\<close>

definition vga_cell :: "int \<Rightarrow> addr" where "vga_cell i = VGA_BASE + 2 * word_of_int i"

text \<open>Offsets in struct tty.\<close>

definition tty_color :: "addr \<Rightarrow> addr" where "tty_color p = p"
definition tty_cursor :: "addr \<Rightarrow> addr" where "tty_cursor p = p + 1"
definition tty_last :: "addr \<Rightarrow> addr" where "tty_last p = p + 2"
definition tty_buf :: "addr \<Rightarrow> addr" where "tty_buf p = p + 3"
definition tty_bufptr :: "addr \<Rightarrow> addr" where "tty_bufptr p = p + 515"
definition tty_tmp :: "addr \<Rightarrow> addr" where "tty_tmp p = p + 519"
definition tty_kbd :: "addr \<Rightarrow> addr" where "tty_kbd p = p + 523"
definition sizeof_tty :: u32 where "sizeof_tty = 524"

section \<open>The cursor\<close>

definition tty_enable_cursor :: "hw \<Rightarrow> byte \<Rightarrow> byte \<Rightarrow> 'a machine_scheme \<Rightarrow> 'a machine_scheme" where
  "tty_enable_cursor hw start finish s =
     (let s = outb VGA_CMD 0xA s;
          (v, s) = inb hw VGA_DATA s;
          s = outb VGA_DATA ((v AND 0xC0) OR start) s;
          s = outb VGA_CMD 0xB s;
          (v, s) = inb hw VGA_DATA s
      in outb VGA_DATA ((v AND 0xE0) OR finish) s)"

definition tty_disable_cursor :: "'a machine_scheme \<Rightarrow> 'a machine_scheme" where
  "tty_disable_cursor s = outb VGA_DATA 0x20 (outb VGA_DATA 0xA s)"

definition tty_get_cursor :: "hw \<Rightarrow> 'a machine_scheme \<Rightarrow> u16 \<times> 'a machine_scheme" where
  "tty_get_cursor hw s =
     (let s = outb VGA_CMD 0xE s;
          (hi, s) = inb hw VGA_DATA s;
          ret = push_bit 8 (ucast hi);
          s = outb VGA_CMD 0xF s;
          (lo, s) = inb hw VGA_DATA s
      in (ret + ucast lo, s))"

text \<open>The macro CHECK_TTY: a NULL pointer stands for the last used terminal.\<close>

definition check_tty :: "addr \<Rightarrow> 'a tty_scheme \<Rightarrow> addr \<times> 'a tty_scheme" where
  "check_tty a s = (let a = (if a = 0 then current_tty s else a) in (a, s\<lparr>current_tty := a\<rparr>))"

definition tty_update_cursor :: "addr \<Rightarrow> u16 \<Rightarrow> 'a tty_scheme \<Rightarrow> 'a tty_scheme" where
  "tty_update_cursor ptr offset s =
     (let (ptr, s) = check_tty ptr s;
          s = outb VGA_CMD 0xF s;
          s = outb VGA_DATA (ucast (offset AND 0xFF)) s;
          s = outb VGA_CMD 0xE s;
          s = outb VGA_DATA (ucast (drop_bit 8 offset AND 0xFF)) s
      in s\<lparr>mem := (mem s)(tty_cursor ptr := ucast offset)\<rparr>)"

section \<open>Output\<close>

text \<open>The two loops that scroll the screen: lines 1 to 24 move up, the last one is cleared.\<close>

fun move_lines :: "nat list \<Rightarrow> mem \<Rightarrow> mem" where
  "move_lines [] m = m"
| "move_lines (i # is) m =
     move_lines is (memcpy m (vga_cell (VGA_COORD 0 (int i - 1))) (vga_cell (VGA_COORD 0 (int i))) (word_of_int (VGA_WIDTH * 2)))"

fun clear_cells :: "nat list \<Rightarrow> addr \<Rightarrow> mem \<Rightarrow> mem" where
  "clear_cells [] p m = m"
| "clear_cells (i # is) p m = clear_cells is p (st16 m (p + 2 * of_nat i) 0x0720)"

definition scroll :: "mem \<Rightarrow> mem" where
  "scroll m = clear_cells [0..<80] (vga_cell (VGA_COORD 0 24)) (move_lines [1..<25] m)"

text \<open>
  The switch on the character: the new memory and coordinates. The characters are the C escapes
  LF, CR, HT and BS; a cell gets the color and the sign-extended character.
\<close>

definition put_glyph :: "addr \<Rightarrow> byte \<Rightarrow> u16 \<Rightarrow> int \<Rightarrow> int \<Rightarrow> mem \<Rightarrow> mem \<times> int \<times> int" where
  "put_glyph ptty c current x y m =
     (let ptr = VGA_BASE + 2 * ucast current
      in if c = 0x0A then (m, 0, y + 1)
         else if c = 0x0D then (m, 0, y)
         else if c = 0x09 then (m, (x + 8) AND NOT 7, y)
         else if c = 0x08 then (st16 m (ptr - 2) 0x0720, x - 1, y)
         else (st16 m ptr (ucast (push_bit 8 (ucast (m (tty_color ptty))) + promote c)), x + 1, y))"

definition wrap_line :: "int \<times> int \<Rightarrow> int \<times> int" where
  "wrap_line xy =
     (let (x, y) = xy;
          (x, y) = (if 80 \<le> x then (0, y + 1) else (x, y))
      in if x < 0 then (x + 80, y - 1) else (x, y))"

definition tty_writechar :: "hw \<Rightarrow> addr \<Rightarrow> byte \<Rightarrow> 'a tty_scheme \<Rightarrow> 'a tty_scheme" where
  "tty_writechar hw ptty c s =
     (let (current, s) = tty_get_cursor hw s;
          (m, xy) = put_glyph ptty c current (uint current mod VGA_WIDTH) (uint current div VGA_WIDTH) (mem s);
          (x, y) = wrap_line xy;
          (m, y) = (if VGA_HEIGHT \<le> y then (scroll m, VGA_HEIGHT - 1) else (m, y));
          s = tty_update_cursor ptty (word_of_int (VGA_COORD x y)) (s\<lparr>mem := m\<rparr>)
      in if c \<noteq> 0x08 then s\<lparr>mem := (mem s)(tty_last ptty := c)\<rparr> else s)"

function tty_write_loop :: "hw \<Rightarrow> addr \<Rightarrow> addr \<Rightarrow> u32 \<Rightarrow> u32 \<Rightarrow> 'a tty_scheme \<Rightarrow> u32 \<times> 'a tty_scheme" where
  "tty_write_loop hw ptty data len i s =
     (if i < len then tty_write_loop hw ptty data len (i + 1) (tty_writechar hw ptty (mem s (data + i)) s) else (i, s))"
  by pat_completeness auto
termination
proof (relation "measure (\<lambda>(hw, ptty, data, len, i, s). unat len - unat i)", goal_cases)
  case (2 hw ptty data len i s)
  then have "unat i < unat len" by (simp add: word_less_nat_alt)
  moreover from this have "unat (i + 1) = unat i + 1" using unat_lt32 [of len] by (simp add: unat_Suc32)
  ultimately show ?case by simp
qed simp

definition tty_write :: "hw \<Rightarrow> addr \<Rightarrow> addr \<Rightarrow> u32 \<Rightarrow> 'a tty_scheme \<Rightarrow> u32 \<times> 'a tty_scheme" where
  "tty_write hw ptty data len s = tty_write_loop hw ptty data len 0 s"

partial_function (option) tty_writestring_loop :: "hw \<Rightarrow> addr \<Rightarrow> addr \<Rightarrow> 'a tty_scheme \<Rightarrow> (addr \<times> 'a tty_scheme) option" where
  "tty_writestring_loop hw ptty str s =
     (let s = tty_writechar hw ptty (mem s str) s; str = str + 1
      in if mem s str \<noteq> 0 then tty_writestring_loop hw ptty str s else Some (str, s))"

definition tty_writestring :: "hw \<Rightarrow> addr \<Rightarrow> addr \<Rightarrow> 'a tty_scheme \<Rightarrow> (u32 \<times> 'a tty_scheme) option" where
  "tty_writestring hw ptty string s =
     do { r \<leftarrow> tty_writestring_loop hw ptty string s; Some (fst r - string, snd r) }"

text \<open>
  The loop of tty_clear runs down from the end of the screen; its test lets the pointer go below
  the first cell, but only after the last store.
\<close>

definition tty_clear :: "addr \<Rightarrow> 'a tty_scheme \<Rightarrow> 'a tty_scheme" where
  "tty_clear ptty s =
     tty_update_cursor ptty 0 (s\<lparr>mem := clear_cells (rev [0..<2000]) VGA_BASE (mem s)\<rparr>)"

section \<open>Specification\<close>

text \<open>
  The CRT controller: an index register and data registers behind one port; \<open>is_crtc\<close> says
  that the data port reads back the selected register. The cursor is in registers 14 and 15.
\<close>

type_synonym crtc = "byte \<times> (byte \<Rightarrow> byte)"

fun crtc_step :: "io_event \<Rightarrow> crtc \<Rightarrow> crtc" where
  "crtc_step (Outb p v) (i, r) =
     (if p = VGA_CMD then (v, r) else if p = VGA_DATA then (i, r(i := v)) else (i, r))"
| "crtc_step _ c = c"

definition crtc_of :: "crtc \<Rightarrow> io_event list \<Rightarrow> crtc" where
  "crtc_of c tr = fold crtc_step tr c"

definition is_crtc :: "hw \<Rightarrow> crtc \<Rightarrow> bool" where
  "is_crtc hw c \<longleftrightarrow> (\<forall>tr. ucast (hw tr VGA_DATA) = (case crtc_of c tr of (i, r) \<Rightarrow> r i))"

definition cursor_at :: "crtc \<Rightarrow> io_event list \<Rightarrow> u16" where
  "cursor_at c tr = (case crtc_of c tr of (i, r) \<Rightarrow> push_bit 8 (ucast (r 0xE)) + ucast (r 0xF))"

text \<open>How often a trace reads a port.\<close>

fun inputs :: "u16 \<Rightarrow> io_event list \<Rightarrow> nat" where
  "inputs p [] = 0"
| "inputs p (Inb q v # tr) = (if q = p then Suc (inputs p tr) else inputs p tr)"
| "inputs p (_ # tr) = inputs p tr"

text \<open>The screen as a list of 2000 cells, and an abstract terminal that prints on it.\<close>

definition screen :: "mem \<Rightarrow> u16 list" where
  "screen m = map (\<lambda>i. ld16 m (VGA_BASE + of_nat (i * 2))) [0..<2000]"

definition glyph :: "byte \<Rightarrow> byte \<Rightarrow> u16" where
  "glyph color c = ucast (push_bit 8 (ucast color) + promote c :: u32)"

definition vt_cells :: "byte \<Rightarrow> byte \<Rightarrow> u16 list \<Rightarrow> nat \<Rightarrow> u16 list" where
  "vt_cells color c cells p =
     (if c \<in> {0x0A, 0x0D, 0x09} then cells
      else if c = 0x08 then cells[p - 1 := 0x0720] else cells[p := glyph color c])"

definition vt_next :: "byte \<Rightarrow> nat \<Rightarrow> nat" where
  "vt_next c p =
     (if c = 0x0A then (p div 80 + 1) * 80
      else if c = 0x0D then p div 80 * 80
      else if c = 0x09 then p div 80 * 80 + (p mod 80 div 8 + 1) * 8
      else if c = 0x08 then p - 1 else p + 1)"

definition vt_put :: "byte \<Rightarrow> byte \<Rightarrow> u16 list \<times> nat \<Rightarrow> u16 list \<times> nat" where
  "vt_put color c = (\<lambda>(cells, p).
     let cells = vt_cells color c cells p; p = vt_next c p
     in if 2000 \<le> p then (drop 80 cells @ replicate 80 0x0720, p - 80) else (cells, p))"

section \<open>Lemmas\<close>

subsection \<open>Scrolling\<close>

lemma move_lines_append: "move_lines (xs @ ys) m = move_lines ys (move_lines xs m)"
  by (induction xs arbitrary: m) auto

lemma line_addr: "vga_cell (VGA_COORD 0 (int i)) = VGA_BASE + of_nat (i * 160)"
  by (simp add: vga_cell_def VGA_COORD_def VGA_WIDTH_def)

lemma unat_numeral_160: "unat (160 :: u32) = 160"
  by simp

lemma move_line:
  assumes "i < 25"
  shows "memcpy m (vga_cell (VGA_COORD 0 (int (Suc i) - 1))) (vga_cell (VGA_COORD 0 (int (Suc i)))) (word_of_int (VGA_WIDTH * 2)) x
    = (if x \<in> region (VGA_BASE + of_nat (i * 160)) 160 then m (x + 160) else m x)"
proof -
  let ?d = "VGA_BASE + of_nat (i * 160)" and ?s = "VGA_BASE + of_nat (Suc i * 160)"
  have d: "vga_cell (VGA_COORD 0 (int (Suc i) - 1)) = ?d" using line_addr [of i] by simp
  have s: "vga_cell (VGA_COORD 0 (int (Suc i))) = ?s" by (rule line_addr)
  have w: "(word_of_int (VGA_WIDTH * 2) :: u32) = 160" by (simp add: VGA_WIDTH_def)
  have "?d - ?s = - 160" "?s - ?d = 160" by simp_all
  moreover have "unat (160 :: u32) \<le> unat (- 160 :: u32)" by simp
  ultimately show ?thesis using memcpy_at [of 160 ?d ?s m x] unfolding d s w by (simp only: unat_numeral_160)
qed

lemma in_vga: "n \<le> 2 ^ 16 \<Longrightarrow> x \<in> region (VGA_BASE + of_nat k) n \<longleftrightarrow> unat VGA_BASE + k \<le> unat x \<and> unat x < unat VGA_BASE + k + n"
  if "k < 2 ^ 16"
proof -
  assume n: "n \<le> 2 ^ 16"
  have "unat (VGA_BASE + of_nat k) = unat VGA_BASE + k" using that by (intro unat_add_of_nat32) (simp add: VGA_BASE_def)
  moreover have "unat (VGA_BASE + of_nat k) + n \<le> 2 ^ 32" using calculation n that by (simp add: VGA_BASE_def)
  ultimately show ?thesis using region_unat [of "VGA_BASE + of_nat k" n] by auto
qed

lemma move_lines_upto: "k \<le> 24 \<Longrightarrow>
  move_lines [1..<Suc k] m x = (if x \<in> region VGA_BASE (k * 160) then m (x + 160) else m x)"
proof (induction k arbitrary: x)
  case (Suc k)
  let ?m = "move_lines [1..<Suc k] m"
  let ?D = "region (VGA_BASE + of_nat (k * 160)) 160"
  have r: "x \<in> ?D \<longleftrightarrow> unat VGA_BASE + k * 160 \<le> unat x \<and> unat x < unat VGA_BASE + k * 160 + 160" for x
    using Suc.prems by (intro in_vga) auto
  have r': "x \<in> region VGA_BASE (j * 160) \<longleftrightarrow> unat VGA_BASE \<le> unat x \<and> unat x < unat VGA_BASE + j * 160" if "j \<le> 24" for j x
    using in_vga [of 0 "j * 160" x] that by simp
  have up: "unat (x + 160) = unat x + 160" if "x \<in> ?D" using that r [of x] Suc.prems by (intro unat_plus32 [of x 160, simplified]) (simp add: VGA_BASE_def)
  have "[1..<Suc (Suc k)] = [1..<Suc k] @ [Suc k]" by simp
  then have "move_lines [1..<Suc (Suc k)] m x = (if x \<in> ?D then ?m (x + 160) else ?m x)"
    using move_line [of k ?m x] Suc.prems by (simp only: move_lines_append move_lines.simps)
  also have "\<dots> = (if x \<in> region VGA_BASE (Suc k * 160) then m (x + 160) else m x)"
    using Suc.IH [of x] Suc.IH [of "x + 160"] Suc.prems up r [of x] r' [of k x] r' [of k "x + 160"] r' [of "Suc k" x] by auto
  finally show ?case .
qed simp

lemma clear_cells_at:
  assumes "\<forall>i \<in> set is. i < 2 ^ 16" "j < 2 ^ 16"
  shows "ld16 (clear_cells is p m) (p + of_nat (j * 2)) = (if j \<in> set is then 0x0720 else ld16 m (p + of_nat (j * 2)))"
  using assms
proof (induction "is" arbitrary: m)
  case (Cons i "is")
  have "p + 2 * of_nat i = p + of_nat (i * 2)" by (simp add: mult.commute)
  with Cons ld16_array [of i j m p "0x0720"] show ?case by (simp del: of_nat_mult)
qed simp

lemma clear_cells_frame:
  assumes "\<forall>i \<in> set is. i * 2 + 2 \<le> n" "x \<notin> region p n" "n < 2 ^ 32"
  shows "clear_cells is p m x = m x"
  using assms
proof (induction "is" arbitrary: m)
  case (Cons i "is")
  have "region (p + of_nat (i * 2)) 2 \<subseteq> region p n" using Cons.prems by (intro region_sub) auto
  with Cons show ?case using st16_frame [of x "p + of_nat (i * 2)" m] by (auto simp: mult.commute)
qed simp

lemma cell_in_vga: "i < 2000 \<Longrightarrow> region (VGA_BASE + of_nat (i * 2)) 2 \<subseteq> region VGA_BASE 4000"
  by (intro region_sub) auto

lemma length_screen [simp]: "length (screen m) = 2000"
  by (simp add: screen_def del: upt_rec_numeral)

lemma nth_screen: "i < 2000 \<Longrightarrow> screen m ! i = ld16 m (VGA_BASE + of_nat (i * 2))"
  by (simp add: screen_def del: upt_rec_numeral of_nat_mult)

lemma screen_cong: "(\<And>x. x \<in> region VGA_BASE 4000 \<Longrightarrow> m x = m' x) \<Longrightarrow> screen m = screen m'"
  by (rule nth_equalityI) (use cell_in_vga in \<open>auto simp: nth_screen intro!: ld16_cong simp del: of_nat_mult\<close>)

lemma screen_store: "i < 2000 \<Longrightarrow> screen (st16 m (VGA_BASE + of_nat (i * 2)) v) = (screen m)[i := v]"
  by (rule nth_equalityI) (auto simp: nth_screen ld16_array nth_list_update simp del: of_nat_mult)

lemma screen_scroll: "screen (scroll m) = drop 80 (screen m) @ replicate 80 0x0720"
proof (rule nth_equalityI)
  fix i assume "i < length (screen (scroll m))"
  then have i: "i < 2000" by simp
  let ?L = "VGA_BASE + of_nat (24 * 160)" and ?m = "move_lines [1..<25] m" and ?a = "VGA_BASE + of_nat (i * 2)"
  have sc: "scroll m = clear_cells [0..<80] ?L ?m"
    using line_addr [of 24] by (simp add: scroll_def del: upt_rec_numeral)
  show "screen (scroll m) ! i = (drop 80 (screen m) @ replicate 80 0x0720) ! i"
  proof (cases "i < 1920")
    case True
    have out: "x \<notin> region ?L 160" if "x \<in> region ?a 2" for x
      using that True in_vga [of "i * 2" 2 x] in_vga [of "24 * 160" 160 x] i by auto
    have "clear_cells [0..<80] ?L ?m x = m (x + 160)" if x: "x \<in> region ?a 2" for x
    proof -
      have "x \<in> region VGA_BASE (24 * 160)" using x True in_vga [of "i * 2" 2 x] in_vga [of 0 "24 * 160" x] i by auto
      then have "?m x = m (x + 160)" using move_lines_upto [of 24 m x] by (simp del: upt_rec_numeral)
      moreover have "clear_cells [0..<80] ?L ?m x = ?m x" using out [OF x] by (intro clear_cells_frame [where n = 160]) auto
      ultimately show ?thesis by simp
    qed
    then have "ld16 (scroll m) ?a = ld16 m (?a + 160)"
      unfolding sc ld16_def using region_offset [of 0 ?a 2] region_offset [of 1 ?a 2] by (simp add: add.commute add.left_commute)
    also have "?a + 160 = VGA_BASE + of_nat ((80 + i) * 2)" by simp
    finally show ?thesis using True i by (simp add: nth_screen nth_append del: of_nat_mult)
  next
    case False
    define j where "j = i - 1920"
    have j: "j < 80" "i = 1920 + j" using False i by (auto simp: j_def)
    have "?a = ?L + of_nat (j * 2)" by (simp add: j(2))
    then have "ld16 (scroll m) ?a = 0x0720" unfolding sc using clear_cells_at [of "[0..<80]" j ?L ?m] j(1) by (simp add: add.assoc)
    then show ?thesis using j i by (simp add: nth_screen nth_append del: of_nat_mult)
  qed
qed simp

lemma scroll_frame: "x \<notin> region VGA_BASE 4000 \<Longrightarrow> scroll m x = m x"
proof -
  assume x: "x \<notin> region VGA_BASE 4000"
  let ?L = "VGA_BASE + of_nat (24 * 160)"
  have "x \<notin> region ?L 160" "x \<notin> region VGA_BASE (24 * 160)"
    using x in_vga [of "24 * 160" 160 x] in_vga [of 0 4000 x] in_vga [of 0 "24 * 160" x] by auto
  moreover have "scroll m = clear_cells [0..<80] ?L (move_lines [1..<25] m)"
    using line_addr [of 24] by (simp add: scroll_def del: upt_rec_numeral)
  ultimately show ?thesis
    using move_lines_upto [of 24 m x] clear_cells_frame [of "[0..<80]" 160 x ?L] by (simp del: upt_rec_numeral)
qed

subsection \<open>The cursor\<close>

lemma vga_ports [simp]: "VGA_DATA \<noteq> VGA_CMD" "VGA_CMD \<noteq> VGA_DATA"
  by (simp_all add: VGA_DATA_def VGA_CMD_def)

lemma crtc_of_append: "crtc_of c (xs @ ys) = crtc_of (crtc_of c xs) ys"
  by (simp add: crtc_of_def)

lemma crtc_of_Cons [simp]: "crtc_of c (e # tr) = crtc_of (crtc_step e c) tr" "crtc_of c [] = c"
  by (simp_all add: crtc_of_def)

lemma inputs_append [simp]: "inputs p (xs @ ys) = inputs p xs + inputs p ys"
  by (induction p xs rule: inputs.induct) auto

lemma get_cursor:
  assumes "is_crtc hw c"
  shows "\<exists>tr. tty_get_cursor hw s = (cursor_at c (io s), s\<lparr>io := io s @ tr\<rparr>)
    \<and> cursor_at c (io s @ tr) = cursor_at c (io s) \<and> (\<forall>q. q \<noteq> VGA_DATA \<longrightarrow> inputs q tr = 0)"
proof -
  obtain i r where r: "crtc_of c (io s) = (i, r)" by force
  have rd: "ucast (hw (io s @ tr) VGA_DATA) = (case crtc_of (i, r) tr of (i, r) \<Rightarrow> r i)" for tr
    using assms r by (simp add: is_crtc_def crtc_of_append)
  show ?thesis
    by (intro exI [of _ "[Outb VGA_CMD 0xE, Inb VGA_DATA (r 0xE), Outb VGA_CMD 0xF, Inb VGA_DATA (r 0xF)]"])
      (simp add: tty_get_cursor_def inb_eq outb_def Let_def rd cursor_at_def crtc_of_append r)
qed

lemma cursor_bytes: "push_bit 8 (ucast (ucast (drop_bit 8 w AND 0xFF) :: byte)) + ucast (ucast (w AND 0xFF) :: byte) = w" for w :: u16
proof -
  have m: "(0xFF :: u16) = mask 8" by (simp add: mask_eq_exp_minus_1)
  let ?h = "push_bit 8 (ucast (ucast (drop_bit 8 w AND 0xFF) :: byte)) :: u16" and ?l = "ucast (ucast (w AND 0xFF) :: byte) :: u16"
  have "?h + ?l = ?h OR ?l" by (rule disjunctive_add_eq_or, rule bit_word_eqI) (auto simp: bit_simps m)
  also have "\<dots> = w" unfolding m by (rule bit_word_eqI) (auto simp: bit_simps)
  finally show ?thesis .
qed

lemma update_cursor:
  assumes "ptr \<noteq> 0"
  shows "\<exists>tr. tty_update_cursor ptr off s = s\<lparr>current_tty := ptr, io := io s @ tr, mem := (mem s)(ptr + 1 := ucast off)\<rparr>
    \<and> cursor_at c (io s @ tr) = off \<and> (\<forall>q. inputs q tr = 0)"
proof -
  obtain i r where r: "crtc_of c (io s) = (i, r)" by force
  show ?thesis using assms cursor_bytes [of off]
    by (intro exI [of _ "[Outb VGA_CMD 0xF, Outb VGA_DATA (ucast (off AND 0xFF)), Outb VGA_CMD 0xE, Outb VGA_DATA (ucast (drop_bit 8 off AND 0xFF))]"])
      (simp add: tty_update_cursor_def check_tty_def outb_def Let_def cursor_at_def crtc_of_append r tty_cursor_def)
qed

subsection \<open>One character\<close>

lemma tab_stop: "(x + 8) AND NOT 7 = (x div 8 + 1) * 8" for x :: int
proof -
  have "(7 :: int) = mask 3" by (simp add: mask_eq_exp_minus_1)
  then have "(x + 8) AND NOT 7 = (x + 8) AND NOT (mask 3)" by simp
  also have "\<dots> = push_bit 3 (drop_bit 3 (x + 8))" by (rule bit_eqI) (auto simp: bit_simps)
  also have "\<dots> = (x + 8) div 8 * 8" by (simp add: push_bit_eq_mult drop_bit_eq_div)
  also have "(x + 8) div 8 = x div 8 + 1" by presburger
  finally show ?thesis .
qed

lemma tab_stop': "(x + 8) AND - 8 = (x div 8 + 1) * 8" for x :: int
  using tab_stop [of x] by simp

text \<open>The coordinates after a character: the wrapped ones are those of the next position.\<close>

lemma wrap_next:
  assumes "p < 2000" "\<not> (c = 0x08 \<and> p = 0)" "uint cur = int p"
  shows "\<exists>x y. wrap_line (snd (put_glyph ptty c cur (int p mod 80) (int p div 80) m)) = (x, y)
    \<and> y * 80 + x = int (vt_next c p) \<and> 0 \<le> x \<and> x < 80"
proof -
  let ?x = "int p mod 80" and ?y = "int p div 80"
  have x: "0 \<le> ?x" "?x < 80" "int p = ?y * 80 + ?x" by simp_all
  consider "c = 0x0A" | "c = 0x0D" | "c = 0x09" | "c = 0x08" | "c \<notin> {0x0A, 0x0D, 0x09, 0x08}" by blast
  then show ?thesis
  proof cases
    case 3
    have "?x div 8 \<le> 9" by simp
    then have "?x div 8 = 9 \<or> ?x div 8 < 9" by linarith
    then show ?thesis using 3 by (auto simp: put_glyph_def wrap_line_def vt_next_def tab_stop' zdiv_int zmod_int)
  next
    case 4
    then have "0 < p" using assms(2) by simp
    then have "int (p - 1) = int p - 1" by simp
    moreover have "?x = 0 \<or> 0 < ?x" using x(1) by linarith
    ultimately show ?thesis using 4 x by (auto simp: put_glyph_def wrap_line_def vt_next_def)
  next
    case 5
    moreover have "?x = 79 \<or> ?x < 79" using x(2) by linarith
    ultimately show ?thesis by (auto simp: put_glyph_def wrap_line_def vt_next_def) presburger
  qed (auto simp: put_glyph_def wrap_line_def vt_next_def zdiv_int)
qed

lemma next_bound: "p < 2000 \<Longrightarrow> vt_next c p \<le> 2000"
proof -
  assume p: "p < 2000"
  have "p mod 80 div 8 \<le> 9" "p div 80 \<le> 24" using p by auto
  then show ?thesis using p unfolding vt_next_def by auto
qed

lemma glyph_cells:
  assumes "unat cur = p" "p < 2000" "\<not> (c = 0x08 \<and> p = 0)"
  shows "screen (fst (put_glyph ptty c cur x y m)) = vt_cells (m ptty) c (screen m) p"
    and "a \<notin> region VGA_BASE 4000 \<Longrightarrow> fst (put_glyph ptty c cur x y m) a = m a"
proof -
  have "(ucast cur :: addr) = of_nat p" using assms(1) by (metis of_nat_unat)
  then have ptr: "VGA_BASE + 2 * ucast cur = VGA_BASE + of_nat (p * 2)" by (simp add: mult.commute)
  have bk: "VGA_BASE + of_nat (p * 2) - 2 = VGA_BASE + of_nat ((p - 1) * 2)" if "c = 0x08"
    using that assms(3) by (cases p) (simp_all add: algebra_simps)
  have pg: "fst (put_glyph ptty c cur x y m) = (if c \<in> {0x0A, 0x0D, 0x09} then m
      else if c = 0x08 then st16 m (VGA_BASE + of_nat ((p - 1) * 2)) 0x0720
      else st16 m (VGA_BASE + of_nat (p * 2)) (glyph (m ptty) c))"
  proof (cases "c = 0x08")
    case True
    show ?thesis unfolding put_glyph_def Let_def ptr bk [OF True] using True by simp
  next
    case False
    then show ?thesis unfolding put_glyph_def Let_def ptr by (auto simp: glyph_def tty_color_def)
  qed
  show "screen (fst (put_glyph ptty c cur x y m)) = vt_cells (m ptty) c (screen m) p"
    unfolding pg using assms(2) by (auto simp: vt_cells_def screen_store simp del: of_nat_mult)
  assume a: "a \<notin> region VGA_BASE 4000"
  then have "st16 m (VGA_BASE + of_nat (i * 2)) v a = m a" if "i < 2000" for i v
    using cell_in_vga [OF that] by (auto intro!: st16_frame simp del: of_nat_mult)
  then show "fst (put_glyph ptty c cur x y m) a = m a"
    unfolding pg using assms(2) by (auto simp del: of_nat_mult)
qed

lemma writechar_refines:
  fixes s :: "'a tty_scheme"
  assumes crtc: "is_crtc hw r" and ptty: "ptty \<noteq> 0" "region ptty 524 \<inter> region VGA_BASE 4000 = {}"
    and p: "unat (cursor_at r (io s)) = p" "p < 2000" "\<not> (c = 0x08 \<and> p = 0)"
  shows "\<exists>m tr q. tty_writechar hw ptty c s = s\<lparr>current_tty := ptty, io := io s @ tr, mem := m\<rparr>
    \<and> cursor_at r (io s @ tr) = of_nat q \<and> q < 2000 \<and> (\<forall>q. q \<noteq> VGA_DATA \<longrightarrow> inputs q tr = 0)
    \<and> (screen m, q) = vt_put (mem s ptty) c (screen (mem s), p)
    \<and> (\<forall>a. a \<notin> region VGA_BASE 4000 \<longrightarrow> a \<notin> {ptty + 1, ptty + 2} \<longrightarrow> m a = mem s a)"
proof -
  let ?cur = "cursor_at r (io s)" and ?n = "vt_next c p"
  obtain t1 where g: "tty_get_cursor hw s = (?cur, s\<lparr>io := io s @ t1\<rparr>)" "\<forall>q. q \<noteq> VGA_DATA \<longrightarrow> inputs q t1 = 0"
    using get_cursor [OF crtc] by blast
  let ?pg = "put_glyph ptty c ?cur (int p mod 80) (int p div 80) (mem s)"
  have up: "uint ?cur = int p" using p(1) by (metis uint_nat)
  obtain m1 xy where pg: "?pg = (m1, xy)" by (cases ?pg)
  obtain x y where w: "wrap_line xy = (x, y)" "y * 80 + x = int ?n" "0 \<le> x" "x < 80"
    using wrap_next [OF p(2,3) up, of ptty "mem s"] pg by auto
  have n: "?n \<le> 2000" by (rule next_bound [OF p(2)])
  have m1: "screen m1 = vt_cells (mem s ptty) c (screen (mem s)) p" "\<And>a. a \<notin> region VGA_BASE 4000 \<Longrightarrow> m1 a = mem s a"
    using glyph_cells [OF p, where ptty = ptty and x = "int p mod 80" and y = "int p div 80" and m = "mem s"] pg by simp_all
  define m2 where "m2 = (if 25 \<le> y then scroll m1 else m1)"
  define q where "q = (if 2000 \<le> ?n then ?n - 80 else ?n)"
  have y: "25 \<le> y \<longleftrightarrow> 2000 \<le> ?n" using w(2-4) by linarith
  have "VGA_COORD x (if 25 \<le> y then 24 else y) = int q"
    using y w(2-4) n by (auto simp: VGA_COORD_def VGA_WIDTH_def q_def)
  then have co: "(word_of_int (VGA_COORD x (if 25 \<le> y then 24 else y)) :: u16) = of_nat q" by simp
  let ?s2 = "s\<lparr>io := io s @ t1, mem := m2\<rparr>"
  obtain t2 where u: "tty_update_cursor ptty (of_nat q) ?s2 =
      ?s2\<lparr>current_tty := ptty, io := io ?s2 @ t2, mem := (mem ?s2)(ptty + 1 := ucast (of_nat q :: u16))\<rparr>"
    "cursor_at r (io ?s2 @ t2) = of_nat q" "\<forall>q. inputs q t2 = 0"
    using update_cursor [OF ptty(1), of "of_nat q" ?s2 r] by (auto simp del: of_nat_mult)
  let ?m = "if c \<noteq> 8 then m2(ptty + 1 := ucast (of_nat q :: u16), ptty + 2 := c) else m2(ptty + 1 := ucast (of_nat q :: u16))"
  have run: "tty_writechar hw ptty c s = s\<lparr>current_tty := ptty, io := io s @ t1 @ t2, mem := ?m\<rparr>"
    unfolding tty_writechar_def g(1) prod.case Let_def
    using pg up w(1) co u(1) by (auto simp: VGA_WIDTH_def VGA_HEIGHT_def m2_def tty_last_def)
  have "ptty + 1 \<in> region ptty 524" "ptty + 2 \<in> region ptty 524"
    using region_offset [of 1 ptty 524] region_offset [of 2 ptty 524] by simp_all
  then have "ptty + 1 \<notin> region VGA_BASE 4000" "ptty + 2 \<notin> region VGA_BASE 4000" using ptty(2) by auto
  then have "screen ?m = screen m2" by (intro screen_cong) auto
  then have "(screen ?m, q) = vt_put (mem s ptty) c (screen (mem s), p)"
    using y m1(1) by (simp add: vt_put_def m2_def q_def Let_def screen_scroll)
  moreover have "?m a = mem s a" if "a \<notin> region VGA_BASE 4000" "a \<notin> {ptty + 1, ptty + 2}" for a
    using that m1(2) scroll_frame [of a m1] by (auto simp: m2_def)
  moreover have "q < 2000" using n by (auto simp: q_def)
  ultimately show ?thesis using run u(2,3) g(2)
    by (intro exI [of _ ?m] exI [of _ "t1 @ t2"] exI [of _ q]) auto
qed

text \<open>
  What an output on the terminal \<open>ptty\<close> may change: the screen, two bytes of the structure, the
  cursor and the pointer to the last used terminal.
\<close>

definition out_bytes :: "addr \<Rightarrow> addr set" where
  "out_bytes ptty = region VGA_BASE 4000 \<union> {ptty + 1, ptty + 2}"

definition prints :: "addr \<Rightarrow> 'a tty_scheme \<Rightarrow> 'a tty_scheme \<Rightarrow> bool" where
  "prints ptty s s' \<longleftrightarrow> s' = s\<lparr>current_tty := current_tty s', io := io s', mem := mem s'\<rparr>
     \<and> (\<exists>tr. io s' = io s @ tr \<and> (\<forall>q. q \<noteq> VGA_DATA \<longrightarrow> inputs q tr = 0))
     \<and> current_tty s' \<in> {current_tty s, ptty} \<and> (\<forall>a. a \<notin> out_bytes ptty \<longrightarrow> mem s' a = mem s a)"

definition vt_state :: "crtc \<Rightarrow> 'a machine_scheme \<Rightarrow> u16 list \<times> nat" where
  "vt_state r s = (screen (mem s), unat (cursor_at r (io s)))"

text \<open>A terminal structure apart from the screen, on a machine with a CRT controller.\<close>

definition vt_ok :: "hw \<Rightarrow> crtc \<Rightarrow> addr \<Rightarrow> 'a tty_scheme \<Rightarrow> bool" where
  "vt_ok hw r ptty s \<longleftrightarrow> is_crtc hw r \<and> ptty \<noteq> 0 \<and> region ptty 524 \<inter> region VGA_BASE 4000 = {} \<and> snd (vt_state r s) < 2000"

lemma writechar_vt:
  assumes ok: "vt_ok hw r ptty s" and c: "\<not> (c = 0x08 \<and> snd (vt_state r s) = 0)"
  shows "vt_state r (tty_writechar hw ptty c s) = vt_put (mem s ptty) c (vt_state r s)
    \<and> vt_ok hw r ptty (tty_writechar hw ptty c s) \<and> prints ptty s (tty_writechar hw ptty c s)
    \<and> current_tty (tty_writechar hw ptty c s) = ptty"
proof -
  obtain m tr q where w: "tty_writechar hw ptty c s = s\<lparr>current_tty := ptty, io := io s @ tr, mem := m\<rparr>"
    "cursor_at r (io s @ tr) = of_nat q" "q < 2000" "\<forall>q. q \<noteq> VGA_DATA \<longrightarrow> inputs q tr = 0" "(screen m, q) = vt_put (mem s ptty) c (vt_state r s)"
    "\<forall>a. a \<notin> region VGA_BASE 4000 \<longrightarrow> a \<notin> {ptty + 1, ptty + 2} \<longrightarrow> m a = mem s a"
    using writechar_refines [of hw r ptty s "snd (vt_state r s)" c] ok c by (auto simp: vt_ok_def vt_state_def)
  have "unat (of_nat q :: u16) = q" using w(3) by (simp add: unat_of_nat take_bit_nat_eq_self)
  then have "vt_state r (tty_writechar hw ptty c s) = (screen m, q)" using w(1,2) by (simp add: vt_state_def)
  moreover from this w(3) have "snd (vt_state r (tty_writechar hw ptty c s)) < 2000" by simp
  ultimately show ?thesis using w ok by (auto simp: vt_ok_def prints_def out_bytes_def)
qed

lemma prints_refl: "prints ptty s s"
  by (simp add: prints_def)

lemma prints_trans: "prints ptty s s1 \<Longrightarrow> prints ptty s1 s2 \<Longrightarrow> prints ptty s s2"
proof -
  assume a: "prints ptty s s1" "prints ptty s1 s2"
  obtain c1 t1 m1 c2 t2 m2 where s: "s1 = s\<lparr>current_tty := c1, io := t1, mem := m1\<rparr>"
    "s2 = s1\<lparr>current_tty := c2, io := t2, mem := m2\<rparr>"
    using a unfolding prints_def by blast
  with a show ?thesis by (auto simp: prints_def)
qed

lemma color_kept: "region ptty 524 \<inter> region VGA_BASE 4000 = {} \<Longrightarrow> prints ptty s s' \<Longrightarrow> mem s' ptty = mem s ptty"
proof -
  assume a: "region ptty 524 \<inter> region VGA_BASE 4000 = {}" "prints ptty s s'"
  have "ptty \<in> region ptty 524" by simp
  with a(1) have "ptty \<notin> region VGA_BASE 4000" by blast
  then have "ptty \<notin> out_bytes ptty" by (simp add: out_bytes_def)
  then show ?thesis using a(2) by (simp add: prints_def)
qed

declare tty_write_loop.simps [simp del]

lemma write_loop_vt:
  assumes "region data (unat len) \<inter> out_bytes ptty = {}" "0x08 \<notin> set (rd (mem s) (data + i) n)"
    and "vt_ok hw r ptty s" "i \<le> len" "n = unat len - unat i"
  shows "\<exists>s'. tty_write_loop hw ptty data len i s = (len, s') \<and> vt_ok hw r ptty s' \<and> prints ptty s s'
    \<and> vt_state r s' = fold (vt_put (mem s ptty)) (rd (mem s) (data + i) n) (vt_state r s)"
  using assms(2-)
proof (induction n arbitrary: i s)
  case 0
  then have "i = len" by (simp add: word_le_nat_alt word_unat_eq_iff)
  then show ?case using 0 prints_refl by (subst tty_write_loop.simps) auto
next
  case (Suc n)
  then have i: "i < len" by (simp add: word_less_nat_alt)
  then have u: "unat (i + 1) = unat i + 1" using unat_lt32 [of len] by (simp add: unat_Suc32 word_less_nat_alt)
  let ?c = "mem s (data + i)"
  let ?s = "tty_writechar hw ptty ?c s"
  have "?c \<noteq> 0x08" using Suc.prems(1) by auto
  then have w: "vt_state r ?s = vt_put (mem s ptty) ?c (vt_state r s)" "vt_ok hw r ptty ?s" "prints ptty s ?s"
    using writechar_vt [OF Suc.prems(2)] by auto
  have same: "rd (mem ?s) (data + (i + 1)) n = rd (mem s) (data + (i + 1)) n"
  proof (rule rd_cong)
    fix a assume a: "a \<in> region (data + (i + 1)) n"
    have "region (data + of_nat (unat (i + 1))) n \<subseteq> region data (unat len)"
      using u i Suc.prems(4) unat_lt32 [of len] by (intro region_sub) auto
    then have "a \<in> region data (unat len)" using a by auto
    then show "mem ?s a = mem s a" using assms(1) w(3) by (auto simp: prints_def)
  qed (use Suc.prems(4) unat_lt32 [of len] in simp)
  have "mem ?s ptty = mem s ptty" using w(2,3) color_kept by (auto simp: vt_ok_def)
  moreover have "i + 1 \<le> len" "n = unat len - unat (i + 1)" using u i Suc.prems(4) by (auto simp: word_le_nat_alt word_less_nat_alt)
  moreover have "0x08 \<notin> set (rd (mem ?s) (data + (i + 1)) n)" using Suc.prems(1) same by (simp add: add.assoc)
  ultimately obtain s' where "tty_write_loop hw ptty data len (i + 1) ?s = (len, s')" "vt_ok hw r ptty s'" "prints ptty ?s s'"
    "vt_state r s' = fold (vt_put (mem s ptty)) (rd (mem s) (data + (i + 1)) n) (vt_state r ?s)"
    using Suc.IH [of ?s "i + 1"] w(2) same by auto
  with i w show ?case by (subst tty_write_loop.simps) (auto intro: prints_trans simp: add.assoc)
qed

text \<open>A CRT controller, and a terminal with given memory and cursor.\<close>

definition crtc_hw :: "crtc \<Rightarrow> hw" where
  "crtc_hw c tr port = (if port = VGA_DATA then case crtc_of c tr of (i, r) \<Rightarrow> ucast (r i) else 0)"

lemma crtc_hw_ok: "is_crtc (crtc_hw c) c"
proof -
  have "ucast (ucast b :: u32) = b" for b :: byte by (rule bit_word_eqI) (simp add: bit_simps)
  then show ?thesis by (auto simp: is_crtc_def crtc_hw_def split: prod.splits)
qed

definition cursor_regs :: "byte \<Rightarrow> byte \<Rightarrow> crtc" where
  "cursor_regs hi lo = (0, (\<lambda>_. 0)(0xE := hi, 0xF := lo))"

definition tty_at :: "mem \<Rightarrow> addr \<Rightarrow> tty" where
  "tty_at m p = \<lparr>mem = m, errno = 0, log = [], io = [], serial_enabled = 0, root = HEAP_BASE, entries = 0, handlers = 0,
     idtr = \<lparr>limit = 0, base = 0\<rparr>, idt_reg = \<lparr>limit = 0, base = 0\<rparr>, frame_set = 0, tables = 0, cr0 = 0x11, cr2 = 0, cr3 = 0,
     busy = 0, ticks = 0, current_tty = p, tty_initialised = 1\<rparr>"

lemma tty_at_ok:
  assumes "c = cursor_regs hi lo" "unat hi * 256 + unat lo < 2000"
  shows "vt_ok (crtc_hw c) c 0x400010 (tty_at m p)" "snd (vt_state c (tty_at m p)) = unat hi * 256 + unat lo"
proof -
  have "unat (push_bit 8 (ucast hi) + ucast lo :: u16) = unat hi * 256 + unat lo"
  proof -
    have "(push_bit 8 (ucast hi) + ucast lo :: u16) = of_nat (unat hi * 256 + unat lo)"
      by (simp add: push_bit_eq_mult of_nat_unat)
    then have "unat (push_bit 8 (ucast hi) + ucast lo :: u16) = unat (of_nat (unat hi * 256 + unat lo) :: u16)" by (rule arg_cong)
    also have "\<dots> = unat hi * 256 + unat lo"
      using assms(2) by (simp only: unat_of_nat) (simp add: take_bit_nat_eq_self)
    finally show ?thesis .
  qed
  then show s: "snd (vt_state c (tty_at m p)) = unat hi * 256 + unat lo"
    by (simp add: vt_state_def tty_at_def cursor_at_def assms(1) cursor_regs_def)
  have "region 0x400010 524 \<inter> region VGA_BASE 4000 = {}"
    by (rule sep_region) (simp add: sep_def VGA_BASE_def)
  then show "vt_ok (crtc_hw c) c 0x400010 (tty_at m p)" using s assms(2) crtc_hw_ok by (simp add: vt_ok_def)
qed

section \<open>Properties\<close>

text \<open>
  C12: tty_writechar refines the abstract terminal: with a CRT controller and the cursor on the
  screen, the 2000 cells and the cursor after the call are those of the abstract one, line wrap, tab
  stops, backspace and scrolling included; the cursor stays on the screen, and nothing else of the
  memory changes but two bytes of the structure. (A backspace in the first cell is excluded.)
\<close>

theorem tty_writechar_ok:
  assumes "vt_ok hw r ptty s" and "\<not> (c = 0x08 \<and> snd (vt_state r s) = 0)"
  shows "vt_state r (tty_writechar hw ptty c s) = vt_put (mem s ptty) c (vt_state r s)
    \<and> vt_ok hw r ptty (tty_writechar hw ptty c s) \<and> prints ptty s (tty_writechar hw ptty c s)"
  using writechar_vt [OF assms] by blast

theorem tty_writechar_ok_witness:
  "snd (vt_state (cursor_regs 7 0xCF) (tty_writechar (crtc_hw (cursor_regs 7 0xCF)) 0x400010 0x41 (tty_at (\<lambda>_. 0) 0))) = 1920"
  using tty_writechar_ok [OF tty_at_ok(1) [OF refl], of 7 "0xCF" "0x41" "\<lambda>_. 0" 0] tty_at_ok(2) [OF refl, of 7 "0xCF" "\<lambda>_. 0" 0]
  by (simp add: vt_put_def vt_next_def split_beta Let_def)

text \<open>
  tty_write prints the bytes of the buffer one after the other and returns their number.
\<close>

lemma tty_write_ok:
  assumes "vt_ok hw r ptty s" and "region data (unat len) \<inter> out_bytes ptty = {}" and "0x08 \<notin> set (rd (mem s) data (unat len))"
  shows "\<exists>s'. tty_write hw ptty data len s = (len, s') \<and> vt_ok hw r ptty s' \<and> prints ptty s s'
    \<and> vt_state r s' = fold (vt_put (mem s ptty)) (rd (mem s) data (unat len)) (vt_state r s)"
  using write_loop_vt [OF assms(2), of s 0 "unat len" hw r] assms(1,3) by (simp add: tty_write_def)

end
