(* ===== verification/Device.thy ===== *)
theory Device
  imports Ports Kmalloc Libc_String
begin

text \<open>
  The device table (kernel/dev/device.c, include/foos/device.h): an array of structures in the
  kernel image whose last five words are the addresses of a driver's functions. The code behind
  these addresses is a parameter, a record of five functions that take the address first.
\<close>

section \<open>The structure\<close>

definition dev_name :: "addr \<Rightarrow> addr" where "dev_name d = d"
definition dev_offset :: "addr \<Rightarrow> addr" where "dev_offset d = d + 16"
definition dev_data :: "addr \<Rightarrow> addr" where "dev_data d = d + 20"
definition dev_write_fn :: "addr \<Rightarrow> addr" where "dev_write_fn d = d + 24"
definition dev_read_fn :: "addr \<Rightarrow> addr" where "dev_read_fn d = d + 28"
definition dev_open_fn :: "addr \<Rightarrow> addr" where "dev_open_fn d = d + 32"
definition dev_close_fn :: "addr \<Rightarrow> addr" where "dev_close_fn d = d + 36"
definition dev_ioctl_fn :: "addr \<Rightarrow> addr" where "dev_ioctl_fn d = d + 40"
definition sizeof_device :: u32 where "sizeof_device = 44"

definition DEV_TTY :: u32 where "DEV_TTY = 0"
definition DEV_RAMDISK :: u32 where "DEV_RAMDISK = 1"
definition SEEK_SET :: u32 where "SEEK_SET = 0"
definition SEEK_CUR :: u32 where "SEEK_CUR = 1"
definition ENOSYS :: u32 where "ENOSYS = 88"
definition ndevs :: u32 where "ndevs = 2"

text \<open>The initial contents of \<open>devs\<close>.\<close>

definition name16 :: "string \<Rightarrow> byte list" where
  "name16 n = bytes n @ replicate (16 - length n) 0"

definition word_bytes :: "u32 \<Rightarrow> byte list" where
  "word_bytes w = [ucast w, ucast (drop_bit 8 w), ucast (drop_bit 16 w), ucast (drop_bit 24 w)]"

definition devs_bytes :: "image \<Rightarrow> byte list" where
  "devs_bytes img =
     name16 ''tty'' @ concat (map word_bytes [0, 0, img Ttydev_write, img Ttydev_read, img Ttydev_open, img Ttydev_close, img Ttydev_ioctl])
     @ name16 ''ramdisk'' @ concat (map word_bytes [0, 0, 0, img Ramdisk_read, img Ramdisk_open, img Ramdisk_close, img Ramdisk_ioctl])"

section \<open>Operations\<close>

record 's devcode =
  fn_write :: "addr \<Rightarrow> addr \<Rightarrow> addr \<Rightarrow> u32 \<Rightarrow> 's \<Rightarrow> (u32 \<times> 's) option"
  fn_read :: "addr \<Rightarrow> addr \<Rightarrow> addr \<Rightarrow> u32 \<Rightarrow> u32 \<Rightarrow> 's \<Rightarrow> (u32 \<times> 's) option"
  fn_open :: "addr \<Rightarrow> addr \<Rightarrow> u32 \<Rightarrow> 's \<Rightarrow> (u32 \<times> 's) option"
  fn_close :: "addr \<Rightarrow> addr \<Rightarrow> 's \<Rightarrow> (u32 \<times> 's) option"
  fn_ioctl :: "addr \<Rightarrow> addr \<Rightarrow> u32 \<Rightarrow> addr \<Rightarrow> 's \<Rightarrow> (u32 \<times> 's) option"

text \<open>The pointer \<open>devs+no\<close>.\<close>

definition dev_ptr :: "image \<Rightarrow> u32 \<Rightarrow> addr" where
  "dev_ptr img no = img Devs + sizeof_device * no"

definition no_such :: "'a machine_scheme \<Rightarrow> u32 \<times> 'a machine_scheme" where
  "no_such s = (- ENOSYS, s\<lparr>errno := ENOSYS\<rparr>)"

definition dev_write ::
  "image \<Rightarrow> 'a machine_scheme devcode \<Rightarrow> u32 \<Rightarrow> addr \<Rightarrow> u32 \<Rightarrow> 'a machine_scheme \<Rightarrow> (u32 \<times> 'a machine_scheme) option" where
  "dev_write img code no buf len s =
     (let ptr = dev_ptr img no; f = ld32 (mem s) (dev_write_fn ptr)
      in if f \<noteq> 0 then fn_write code f ptr buf len s else Some (no_such s))"

definition dev_read ::
  "image \<Rightarrow> 'a machine_scheme devcode \<Rightarrow> u32 \<Rightarrow> addr \<Rightarrow> u32 \<Rightarrow> 'a machine_scheme \<Rightarrow> (u32 \<times> 'a machine_scheme) option" where
  "dev_read img code no buf len s =
     (let ptr = dev_ptr img no; f = ld32 (mem s) (dev_read_fn ptr)
      in if f \<noteq> 0
         then do {
           r \<leftarrow> fn_read code f ptr buf (ld32 (mem s) (dev_offset ptr)) len s;
           let ret = fst r;
           let s = snd r;
           let s = (if 0 < sint ret then s\<lparr>mem := st32 (mem s) (dev_offset ptr) (ld32 (mem s) (dev_offset ptr) + ret)\<rparr> else s);
           Some (ret, s)
         }
         else Some (no_such s))"

definition dev_open ::
  "image \<Rightarrow> 'a machine_scheme devcode \<Rightarrow> u32 \<Rightarrow> u32 \<Rightarrow> 'a machine_scheme \<Rightarrow> (u32 \<times> 'a machine_scheme) option" where
  "dev_open img code no flags s =
     (let ptr = dev_ptr img no;
          s = s\<lparr>mem := st32 (mem s) (dev_offset ptr) 0\<rparr>;
          f = ld32 (mem s) (dev_open_fn ptr)
      in if f \<noteq> 0 then fn_open code f ptr flags s else Some (no_such s))"

text \<open>The name in the messages is the string at \<open>ptr->name\<close>, kept by its address.\<close>

definition dev_close ::
  "image \<Rightarrow> 'a machine_scheme devcode \<Rightarrow> u32 \<Rightarrow> 'a machine_scheme \<Rightarrow> (u32 \<times> 'a machine_scheme) option" where
  "dev_close img code no s =
     (let ptr = dev_ptr img no;
          s = s\<lparr>mem := st32 (mem s) (dev_offset ptr) 0\<rparr>;
          f = ld32 (mem s) (dev_close_fn ptr)
      in if f \<noteq> 0
         then fn_close code f ptr (say (Serial_printf (''[dev] Closing `%s'' @ CHR 0x27 # nl) [ArgW (dev_name ptr)]) s)
         else Some (no_such (say (Serial_printf (''[dev] warning: `%s'' @ CHR 0x27 # '' is not closable'' @ nl) [ArgW (dev_name ptr)]) s)))"

definition dev_ioctl ::
  "image \<Rightarrow> 'a machine_scheme devcode \<Rightarrow> u32 \<Rightarrow> u32 \<Rightarrow> addr \<Rightarrow> 'a machine_scheme \<Rightarrow> (u32 \<times> 'a machine_scheme) option" where
  "dev_ioctl img code no request args s =
     (let ptr = dev_ptr img no; f = ld32 (mem s) (dev_ioctl_fn ptr)
      in if f \<noteq> 0 then fn_ioctl code f ptr request args s else Some (no_such s))"

definition dev_seek :: "image \<Rightarrow> u32 \<Rightarrow> u32 \<Rightarrow> u32 \<Rightarrow> 'a machine_scheme \<Rightarrow> u32 \<times> 'a machine_scheme" where
  "dev_seek img no off whence s =
     (let p = dev_offset (dev_ptr img no)
      in if whence = SEEK_SET then let s = s\<lparr>mem := st32 (mem s) p off\<rparr> in (ld32 (mem s) p, s)
         else if whence = SEEK_CUR then let s = s\<lparr>mem := st32 (mem s) p (ld32 (mem s) p + off)\<rparr> in (ld32 (mem s) p, s)
         else (- EINVAL, s\<lparr>errno := EINVAL\<rparr>))"

section \<open>Lemmas\<close>

lemma dev_seek_at: "dev_seek img no off SEEK_SET s = (off, s\<lparr>mem := st32 (mem s) (dev_offset (dev_ptr img no)) off\<rparr>)"
  by (simp add: dev_seek_def)

text \<open>The table as the image is loaded, and a word of it.\<close>

definition devs_loaded :: "image \<Rightarrow> mem \<Rightarrow> bool" where
  "devs_loaded img m \<longleftrightarrow> rd m (img Devs) 88 = devs_bytes img"

lemma ld32_slice:
  assumes "rd m p n = bs" "k + 4 \<le> n" "n < 2 ^ 32" "take 4 (drop k bs) = word_bytes w"
  shows "ld32 m (p + of_nat k) = w"
proof -
  have "m (p + of_nat k + of_nat i) = word_bytes w ! i" if "i < 4" for i
  proof -
    have "m (p + of_nat (k + i)) = bs ! (k + i)" using nth_rd [of "k + i" n m p] assms(1,2) that by simp
    also have "\<dots> = take 4 (drop k bs) ! i" using that assms(1,2) by auto
    finally show ?thesis using assms(4) by (simp add: add.assoc)
  qed
  from this [of 0] this [of 1] this [of 2] this [of 3] show ?thesis
    by (simp add: ld32_def word_bytes_def word32_of_bytes)
qed

end
