(* ===== verification/Tty.thy ===== *)
theory Tty
  imports Vga Device Heap_Client
begin

text \<open>
  The input half of the terminal (kernel/dev/tty.c): the keyboard interrupt with its line editor,
  the calls that wait for it, and the hooks for the device table.
\<close>

section \<open>The keyboard\<close>

definition TAB :: byte where "TAB = 0x0F"
definition CTRL :: byte where "CTRL = 0x1D"
definition LSHIFT :: byte where "LSHIFT = 0x2A"
definition RSHIFT :: byte where "RSHIFT = 0x36"
definition ENTER :: byte where "ENTER = 0x1C"
definition ALT :: byte where "ALT = 0x38"
definition CAPS :: byte where "CAPS = 0x3A"
definition BACKSPACE :: byte where "BACKSPACE = 0x0E"

text \<open>The bit fields of struct kbd_state, from the lowest bit on.\<close>

datatype kbd_flag = Ctrl | Shift | Alt | Caps | Irq | Special | Flush

fun flag_bit :: "kbd_flag \<Rightarrow> nat" where
  "flag_bit Ctrl = 0" | "flag_bit Shift = 1" | "flag_bit Alt = 2" | "flag_bit Caps = 3"
| "flag_bit Irq = 4" | "flag_bit Special = 5" | "flag_bit Flush = 6"

definition kbd_get :: "kbd_flag \<Rightarrow> addr \<Rightarrow> 'a machine_scheme \<Rightarrow> bool" where
  "kbd_get f ptr s = bit (mem s (tty_kbd ptr)) (flag_bit f)"

definition kbd_set :: "kbd_flag \<Rightarrow> bool \<Rightarrow> addr \<Rightarrow> 'a machine_scheme \<Rightarrow> 'a machine_scheme" where
  "kbd_set f v ptr s = s\<lparr>mem := (mem s)(tty_kbd ptr :=
     (if v then set_bit else unset_bit) (flag_bit f) (mem s (tty_kbd ptr)))\<rparr>"

text \<open>The two tables are static arrays of the image; an index beyond them reads what follows.\<close>

definition scancode_set :: "byte list" where
  "scancode_set = bytes (''??1234567890-='' @ [CHR 0x08, CHR 0x09] @ ''qwertyuiop[]'' @ [CHR 0x0A] @ ''?asdfghjkl;'' @ [CHR 0x27] @ ''`?''
     @ [CHR 0x5C] @ ''zxcvbnm,./??? ?'')"

definition shift_set :: "byte list" where
  "shift_set = bytes (''..!@#$%^&*()_+'' @ [CHR 0x08, CHR 0x09] @ ''QWERTYUIOP{}'' @ [CHR 0x0A] @ ''.ASDFGHJKL:'' @ [CHR 0x22] @ ''~.|''
     @ ''ZXCVBNM<>?.*. ?'')"

definition decode :: "image \<Rightarrow> byte \<Rightarrow> 'a tty_scheme \<Rightarrow> byte" where
  "decode img code s =
     (let ptr = current_tty s;
          plain = mem s (img Scancode_set + ucast code);
          shifted = mem s (img Shift_set + ucast code)
      in if \<not> kbd_get Shift ptr s \<and> kbd_get Caps ptr s then ucast (toupper (promote plain))
         else if kbd_get Shift ptr s \<and> \<not> kbd_get Caps ptr s then shifted
         else if \<not> kbd_get Shift ptr s then plain
         else ucast (tolower (promote shifted)))"

definition kbd_release :: "byte \<Rightarrow> addr \<Rightarrow> 'a tty_scheme \<Rightarrow> 'a tty_scheme" where
  "kbd_release scancode ptr s =
     (if scancode = CTRL then kbd_set Ctrl False ptr (say (Serial_print (''[tty] ctrl released'' @ nl)) s)
      else if scancode = LSHIFT \<or> scancode = RSHIFT
      then kbd_set Shift False ptr (say (Serial_print (''[tty] shift released, switched to `scancode_set'' @ CHR 0x27 # nl)) s)
      else if scancode = ALT then kbd_set Alt False ptr s
      else s)"

definition kbd_press :: "hw \<Rightarrow> image \<Rightarrow> byte \<Rightarrow> addr \<Rightarrow> 'a tty_scheme \<Rightarrow> 'a tty_scheme" where
  "kbd_press hw img scancode ptr s =
     (if scancode = TAB then s
      else if scancode = CTRL then kbd_set Ctrl True ptr (say (Serial_print (''[tty] ctrl pressed'' @ nl)) s)
      else if scancode = LSHIFT \<or> scancode = RSHIFT
      then kbd_set Shift True ptr (say (Serial_print (''[tty] shift pressed, switched to `shift_set'' @ CHR 0x27 # nl)) s)
      else if scancode = CAPS
      then let s = kbd_set Caps (\<not> kbd_get Caps ptr s) ptr s
           in say (Serial_printf (''[tty] capital lock %s'' @ nl) [ArgS (if kbd_get Caps ptr s then ''enabled'' else ''disabled'')]) s
      else if scancode = ALT then kbd_set Alt True ptr s
      else if scancode = ENTER
      then let s = kbd_set Special False ptr s;
               s = tty_writechar hw (current_tty s) 0x0A s;
               s = kbd_set Flush True ptr s;
               s = s\<lparr>mem := st32 (mem s) (tty_tmp ptr) (ld32 (mem s) (tty_bufptr ptr))\<rparr>
           in s\<lparr>mem := st32 (mem s) (tty_bufptr ptr) (tty_buf ptr)\<rparr>
      else if scancode = BACKSPACE
      then let s = kbd_set Special False ptr s
           in if ld32 (mem s) (tty_bufptr ptr) \<le> tty_buf ptr
              then s\<lparr>mem := st32 (mem s) (tty_bufptr ptr) (tty_buf ptr)\<rparr>
              else let s = tty_writechar hw (current_tty s) 0x08 s;
                       s = s\<lparr>mem := st32 (mem s) (tty_bufptr ptr) (ld32 (mem s) (tty_bufptr ptr) - 1)\<rparr>
                   in s\<lparr>mem := (mem s)(ld32 (mem s) (tty_bufptr ptr) := 0)\<rparr>
      else let s = kbd_set Special False ptr s;
               ch = decode img scancode s;
               s = tty_writechar hw (current_tty s) ch s;
               s = s\<lparr>mem := (mem s)(ld32 (mem s) (tty_bufptr ptr) := ch)\<rparr>;
               s = s\<lparr>mem := st32 (mem s) (tty_bufptr ptr) (ld32 (mem s) (tty_bufptr ptr) + 1)\<rparr>
           in s\<lparr>mem := (mem s)(ld32 (mem s) (tty_bufptr ptr) := 0)\<rparr>)"

definition kbd_irq :: "hw \<Rightarrow> image \<Rightarrow> registers \<Rightarrow> 'a tty_scheme \<Rightarrow> 'a tty_scheme" where
  "kbd_irq hw img regs s =
     (let (scancode, s) = inb hw 0x60 s;
          ptr = current_tty s;
          s = kbd_set Irq True ptr s;
          s = kbd_set Special True ptr s
      in if scancode AND 0x80 \<noteq> 0 then kbd_release (scancode AND 0x7F) ptr s else kbd_press hw img scancode ptr s)"

section \<open>Reading\<close>

definition tty_readchar ::
  "hw \<Rightarrow> image \<Rightarrow> ('e \<Rightarrow> 'a tty_scheme \<Rightarrow> 'a tty_scheme fate option) \<Rightarrow> 'e list \<Rightarrow> addr \<Rightarrow> 'a tty_scheme
   \<Rightarrow> (byte \<times> 'a tty_scheme \<times> 'e list) option" where
  "tty_readchar hw img step evs ptr s =
     (let (ptr, s) = check_tty ptr s
      in do {
        r \<leftarrow> wait_until (\<lambda>s. kbd_get Irq ptr s \<and> \<not> kbd_get Special ptr s) step evs s;
        let s = kbd_set Irq False ptr (fst r);
        let (code, s) = inb hw 0x60 s;
        Some (decode img code s, s, snd r)
      })"

definition tty_read ::
  "('e \<Rightarrow> 'a tty_scheme \<Rightarrow> 'a tty_scheme fate option) \<Rightarrow> 'e list \<Rightarrow> addr \<Rightarrow> addr \<Rightarrow> u32 \<Rightarrow> 'a tty_scheme
   \<Rightarrow> (u32 \<times> 'a tty_scheme \<times> 'e list) option" where
  "tty_read step evs ptr buf len s =
     (let (ptr, s) = check_tty ptr s;
          s = s\<lparr>mem := st32 (mem s) (tty_bufptr ptr) (tty_buf ptr)\<rparr>
      in do {
        r \<leftarrow> wait_until (\<lambda>s. kbd_get Flush ptr s) step evs s;
        let s = kbd_set Flush False ptr (fst r);
        let size = ld32 (mem s) (tty_tmp ptr) - tty_buf ptr;
        let s = s\<lparr>mem := st32 (mem s) (tty_tmp ptr) (tty_buf ptr)\<rparr>;
        Some (size, s\<lparr>mem := memcpy (mem s) buf (tty_buf ptr) size\<rparr>, snd r)
      })"

section \<open>Initialisation and the device hooks\<close>

definition tty_init :: "hw \<Rightarrow> image \<Rightarrow> 'a tty_scheme \<Rightarrow> u32 \<times> 'a tty_scheme" where
  "tty_init hw img s =
     (if tty_initialised s \<noteq> 0 then (- 1, s)
      else let s = s\<lparr>tty_initialised := 1\<rparr>;
               s = int_hook_handler 0x21 (img Kbd_irq) s
           in (0, irq_enable hw 0x1 s))"

definition tty_create :: "hw \<Rightarrow> addr \<Rightarrow> 'a tty_scheme \<Rightarrow> u32 \<times> 'a tty_scheme" where
  "tty_create hw ptr s =
     (let s = tty_enable_cursor hw 0xE 0xF s;
          s = s\<lparr>mem := memset (mem s) ptr 0 sizeof_tty\<rparr>;
          s = s\<lparr>current_tty := ptr\<rparr>;
          s = s\<lparr>mem := st32 (mem s) (tty_bufptr ptr) (tty_buf ptr)\<rparr>;
          s = s\<lparr>mem := (mem s)(tty_color ptr := 0x7)\<rparr>;
          (c, s) = tty_get_cursor hw s
      in (0, s\<lparr>mem := (mem s)(tty_cursor ptr := ucast c)\<rparr>))"

definition ttydev_write :: "hw \<Rightarrow> addr \<Rightarrow> addr \<Rightarrow> u32 \<Rightarrow> 'a tty_scheme \<Rightarrow> u32 \<times> 'a tty_scheme" where
  "ttydev_write hw dev buf len s = tty_write hw (ld32 (mem s) (dev_data dev)) buf len s"

definition ttydev_read ::
  "('e \<Rightarrow> 'a tty_scheme \<Rightarrow> 'a tty_scheme fate option) \<Rightarrow> 'e list \<Rightarrow> addr \<Rightarrow> addr \<Rightarrow> u32 \<Rightarrow> u32 \<Rightarrow> 'a tty_scheme
   \<Rightarrow> (u32 \<times> 'a tty_scheme \<times> 'e list) option" where
  "ttydev_read step evs dev buf off len s = tty_read step evs (ld32 (mem s) (dev_data dev)) buf len s"

definition ttydev_open :: "hw \<Rightarrow> image \<Rightarrow> addr \<Rightarrow> u32 \<Rightarrow> 'a tty_scheme \<Rightarrow> (u32 \<times> 'a tty_scheme) option" where
  "ttydev_open hw img dev flags s =
     (if ld32 (mem s) (dev_data dev) \<noteq> 0 then Some (- EBUSY, s\<lparr>errno := EBUSY\<rparr>)
      else do {
        r \<leftarrow> kmalloc (snd (tty_init hw img s)) sizeof_tty;
        let ptr = fst r;
        let s = snd (tty_create hw ptr (snd r));
        Some (0, s\<lparr>mem := st32 (mem s) (dev_data dev) ptr\<rparr>)
      })"

definition ttydev_close :: "hw \<Rightarrow> addr \<Rightarrow> 'a tty_scheme \<Rightarrow> (u32 \<times> 'a tty_scheme) option" where
  "ttydev_close hw dev s =
     do {
       s \<leftarrow> kfree s (ld32 (mem s) (dev_data dev));
       let s = s\<lparr>mem := st32 (mem s) (dev_data dev) 0\<rparr>;
       Some (0, irq_disable hw 0x1 s)
     }"

definition TTY_CLEAR :: u32 where "TTY_CLEAR = 0x00"
definition TTY_SETCSR :: u32 where "TTY_SETCSR = 0x01"
definition TTY_GETCSR :: u32 where "TTY_GETCSR = 0x81"
definition TTY_SETCOL :: u32 where "TTY_SETCOL = 0x02"
definition TTY_GETCOL :: u32 where "TTY_GETCOL = 0x82"

definition ttydev_ioctl :: "hw \<Rightarrow> addr \<Rightarrow> u32 \<Rightarrow> addr \<Rightarrow> 'a tty_scheme \<Rightarrow> u32 \<times> 'a tty_scheme" where
  "ttydev_ioctl hw dev request args s =
     (let ptr = ld32 (mem s) (dev_data dev)
      in if request = TTY_CLEAR then (0, tty_clear ptr s)
         else if request = TTY_SETCSR then (0, tty_update_cursor ptr (ld16 (mem s) args) s)
         else if request = TTY_GETCSR then let (c, s) = tty_get_cursor hw s in (0, s\<lparr>mem := st16 (mem s) args c\<rparr>)
         else if request = TTY_SETCOL then (0, s\<lparr>mem := (mem s)(tty_color ptr := mem s args)\<rparr>)
         else if request = TTY_GETCOL then (0, s\<lparr>mem := (mem s)(args := mem s (tty_color ptr))\<rparr>)
         else (- EINVAL, s\<lparr>errno := EINVAL\<rparr>))"

section \<open>Specification\<close>

text \<open>
  The abstract line editor: the state of shift and caps lock and the line typed so far. \<open>sym\<close> is
  the character of a key; \<open>key\<close> is the effect of a scan code other than that of the enter key.
\<close>

type_synonym editor = "bool \<times> bool \<times> byte list"

definition sym :: "bool \<Rightarrow> bool \<Rightarrow> byte \<Rightarrow> byte" where
  "sym sh cp code =
     (if \<not> sh \<and> cp then ucast (toupper (promote (scancode_set ! unat code)))
      else if sh \<and> \<not> cp then shift_set ! unat code
      else if \<not> sh then scancode_set ! unat code
      else ucast (tolower (promote (shift_set ! unat code))))"

definition key :: "byte \<Rightarrow> editor \<Rightarrow> editor" where
  "key code = (\<lambda>(sh, cp, line).
     if code AND 0x80 \<noteq> 0
      then if code AND 0x7F = LSHIFT \<or> code AND 0x7F = RSHIFT then (False, cp, line) else (sh, cp, line)
      else if code = TAB \<or> code = CTRL \<or> code = ALT then (sh, cp, line)
      else if code = LSHIFT \<or> code = RSHIFT then (True, cp, line)
      else if code = CAPS then (sh, \<not> cp, line)
      else if code = BACKSPACE then (sh, cp, butlast line)
      else (sh, cp, line @ [sym sh cp code]))"

text \<open>Scan codes that the tables cover, apart from the enter key, and typing that fits the buffer.\<close>

definition key_ok :: "byte \<Rightarrow> bool" where
  "key_ok code \<longleftrightarrow> code \<noteq> ENTER \<and> (code AND 0x80 \<noteq> 0 \<or> code < 59)"

fun typing_ok :: "byte list \<Rightarrow> editor \<Rightarrow> bool" where
  "typing_ok [] e \<longleftrightarrow> True"
| "typing_ok (c # cs) e \<longleftrightarrow> key_ok c \<and> length (snd (snd (key c e))) \<le> 511 \<and> typing_ok cs (key c e)"

text \<open>The line in the buffer of the terminal at \<open>ptr\<close>.\<close>

definition line_at :: "addr \<Rightarrow> mem \<Rightarrow> byte list \<Rightarrow> bool" where
  "line_at ptr m line \<longleftrightarrow> length line \<le> 511 \<and> ld32 m (tty_bufptr ptr) = tty_buf ptr + of_nat (length line)
     \<and> rd m (tty_buf ptr) (length line) = line"

definition tty_bytes :: "addr \<Rightarrow> addr set" where
  "tty_bytes ptr = region VGA_BASE 4000 \<union> region ptr 524"

text \<open>The invariant of the keyboard interrupt; \<open>b\<close> is a lower bound of the cursor.\<close>

definition kbd_inv :: "hw \<Rightarrow> crtc \<Rightarrow> image \<Rightarrow> addr \<Rightarrow> nat \<Rightarrow> editor \<Rightarrow> 'a tty_scheme \<Rightarrow> bool" where
  "kbd_inv hw r img ptr b e s \<longleftrightarrow> (case e of (sh, cp, line) \<Rightarrow>
     vt_ok hw r ptr s \<and> current_tty s = ptr \<and> b \<le> snd (vt_state r s)
     \<and> line_at ptr (mem s) line \<and> kbd_get Shift ptr s = sh \<and> kbd_get Caps ptr s = cp
     \<and> rd (mem s) (img Scancode_set) 59 = scancode_set \<and> rd (mem s) (img Shift_set) 59 = shift_set
     \<and> region (img Scancode_set) 59 \<inter> tty_bytes ptr = {} \<and> region (img Shift_set) 59 \<inter> tty_bytes ptr = {})"

text \<open>Messages for the serial line, and a trace that only such messages extend.\<close>

fun serial_event :: "event \<Rightarrow> bool" where
  "serial_event (Serial_printf f as) = True"
| "serial_event (Serial_print t) = True"
| "serial_event (Serial_send b) = True"
| "serial_event (Serial_write bs) = True"
| "serial_event _ = False"

definition quiet :: "event list \<Rightarrow> event list \<Rightarrow> bool" where
  "quiet l l' \<longleftrightarrow> (\<exists>es. l' = l @ es \<and> list_all serial_event es)"

text \<open>
  What the keyboard interrupt leaves alone; \<open>k\<close> scan codes were read. Its own messages go to the
  serial line.
\<close>

definition moves :: "addr \<Rightarrow> nat \<Rightarrow> 'a tty_scheme \<Rightarrow> 'a tty_scheme \<Rightarrow> bool" where
  "moves ptr k s s' \<longleftrightarrow> s' = s\<lparr>mem := mem s', io := io s', log := log s'\<rparr>
     \<and> (\<forall>a. a \<notin> tty_bytes ptr \<longrightarrow> mem s' a = mem s a) \<and> inputs 0x60 (io s') = inputs 0x60 (io s) + k
     \<and> quiet (log s) (log s')"

section \<open>Lemmas\<close>

subsection \<open>The structure\<close>

lemmas tty_offsets = tty_color_def tty_cursor_def tty_last_def tty_buf_def tty_bufptr_def tty_tmp_def tty_kbd_def

lemma tty_fields:
  "sep (tty_buf p) 512 (tty_bufptr p) 4" "sep (tty_buf p) 512 (tty_tmp p) 4" "sep (tty_bufptr p) 4 (tty_tmp p) 4"
  "tty_kbd p \<notin> region (tty_buf p) 512" "tty_kbd p \<notin> region (tty_bufptr p) 4" "tty_kbd p \<notin> region (tty_tmp p) 4"
  "p + 1 \<notin> region (tty_buf p) 512" "p + 2 \<notin> region (tty_buf p) 512"
  "p + 1 \<notin> region (tty_bufptr p) 4" "p + 2 \<notin> region (tty_bufptr p) 4" "p + 1 \<notin> region (tty_tmp p) 4" "p + 2 \<notin> region (tty_tmp p) 4"
  "tty_kbd p \<noteq> p + 1" "tty_kbd p \<noteq> p + 2"
  by (simp_all add: sep_def region_def tty_offsets unsigned_minus_1_eq_mask mask_eq_exp_minus_1)

lemma tty_fields_in:
  "region (tty_buf p) 512 \<subseteq> region p 524" "region (tty_bufptr p) 4 \<subseteq> region p 524" "region (tty_tmp p) 4 \<subseteq> region p 524"
  "tty_kbd p \<in> region p 524" "p + 1 \<in> region p 524" "p + 2 \<in> region p 524"
  using region_sub [of 3 512 524 p] region_sub [of 515 4 524 p] region_sub [of 519 4 524 p]
    region_offset [of 523 p 524] region_offset [of 1 p 524] region_offset [of 2 p 524]
  by (simp_all add: tty_offsets)

lemma line_cong:
  assumes "line_at ptr m line" "\<And>x. x \<in> region (tty_buf ptr) 512 \<Longrightarrow> m' x = m x" "\<And>x. x \<in> region (tty_bufptr ptr) 4 \<Longrightarrow> m' x = m x"
  shows "line_at ptr m' line"
proof -
  have "region (tty_buf ptr) (length line) \<subseteq> region (tty_buf ptr) 512" using assms(1) by (intro region_mono) (simp add: line_at_def)
  then have "rd m' (tty_buf ptr) (length line) = rd m (tty_buf ptr) (length line)"
    using assms(1,2) by (intro rd_cong) (auto simp: line_at_def)
  moreover have "ld32 m' (tty_bufptr ptr) = ld32 m (tty_bufptr ptr)" using assms(3) by (intro ld32_cong) auto
  ultimately show ?thesis using assms(1) by (simp add: line_at_def)
qed

lemma buf_byte: "i < 512 \<Longrightarrow> tty_buf p + of_nat i \<in> region (tty_buf p) 512"
  by simp

lemma line_append:
  assumes l: "line_at ptr m line" "length line < 511" and bp: "bp = tty_buf ptr + of_nat (length line)"
    and m': "m' = (st32 (m(bp := ch)) (tty_bufptr ptr) (bp + 1))(bp + 1 := 0)"
  shows "line_at ptr m' (line @ [ch])"
proof -
  let ?b = "tty_buf ptr" and ?n = "length line"
  have b: "bp \<in> region ?b 512" "bp + 1 \<in> region ?b 512"
    using l(2) buf_byte [of ?n ptr] buf_byte [of "Suc ?n" ptr] by (simp_all add: bp add.assoc add.commute [of 1])
  have out: "x \<notin> region (tty_bufptr ptr) 4" if "x \<in> region ?b 512" for x using sep_region [OF tty_fields(1) [of ptr]] that by auto
  have "ld32 m' (tty_bufptr ptr) = bp + 1" using out [OF b(2)] by (simp add: m' ld32_byte_other)
  moreover have "rd m' ?b (Suc ?n) = line @ [ch]"
  proof (rule nth_equalityI)
    fix i assume "i < length (rd m' ?b (Suc ?n))"
    then have i: "i < Suc ?n" by simp
    let ?a = "?b + of_nat i"
    have ne: "?a \<noteq> bp + 1"
    proof -
      have "bp + 1 = ?b + of_nat (Suc ?n)" by (simp add: bp)
      moreover have "(of_nat i :: addr) \<noteq> of_nat (Suc ?n)" using i l(2) of_nat_inj32 [of i "Suc ?n"] by simp
      ultimately show ?thesis by (simp add: add.commute)
    qed
    have "?a = bp \<longleftrightarrow> i = ?n" using i l(2) of_nat_inj32 [of i ?n] by (simp add: bp)
    moreover have "?a \<notin> region (tty_bufptr ptr) 4" using i l(2) buf_byte [of i ptr] out by simp
    ultimately have "m' ?a = (if i = ?n then ch else m ?a)" using ne by (simp add: m' st32_frame)
    moreover have "m ?a = line ! i" if "i < ?n" using l(1) that nth_rd [of i ?n m ?b] by (simp add: line_at_def)
    ultimately show "rd m' ?b (Suc ?n) ! i = (line @ [ch]) ! i" using i by (auto simp: nth_append simp del: rd.simps)
  qed simp
  ultimately show ?thesis using l(2) by (simp add: line_at_def bp add.assoc add.commute [of 1] del: rd.simps)
qed

lemma line_back:
  assumes l: "line_at ptr m line" "line \<noteq> []" and bp: "bp = tty_buf ptr + of_nat (length line)"
    and m': "m' = (st32 m (tty_bufptr ptr) (bp - 1))(bp - 1 := 0)"
  shows "line_at ptr m' (butlast line)"
proof -
  let ?b = "tty_buf ptr" and ?n = "length line - 1"
  have n: "length line = Suc ?n" "?n < 512" using l by (auto simp: line_at_def)
  have bp': "bp - 1 = ?b + of_nat ?n" using bp n(1) by (metis add_diff_cancel_left' add.commute of_nat_Suc add_diff_eq)
  have out: "x \<notin> region (tty_bufptr ptr) 4" if "x \<in> region ?b 512" for x using sep_region [OF tty_fields(1) [of ptr]] that by auto
  have "ld32 m' (tty_bufptr ptr) = bp - 1" using out buf_byte [OF n(2)] by (simp add: m' bp' ld32_byte_other)
  moreover have "rd m' ?b ?n = rd m ?b ?n"
  proof (rule rd_cong)
    fix x assume "x \<in> region ?b ?n"
    then obtain i where i: "i < ?n" "x = ?b + of_nat i" by (auto elim: regionE)
    have "(of_nat i :: addr) \<noteq> of_nat ?n" using i n(2) of_nat_inj32 [of i ?n] by simp
    then have "x \<noteq> bp - 1" by (simp add: i bp')
    then show "m' x = m x" using i n(2) out buf_byte [of i ptr] by (simp add: m' st32_frame)
  qed (use n in simp)
  moreover have "rd m ?b ?n = butlast line"
    using l(1) n(1) rd_take [of ?n "Suc ?n" m ?b] by (simp add: line_at_def butlast_conv_take)
  ultimately show ?thesis using n l(1) by (simp add: line_at_def bp')
qed

subsection \<open>Steps\<close>

lemma quiet_refl [simp]: "quiet l l"
  by (simp add: quiet_def)

lemma quiet_snoc [simp]: "serial_event e \<Longrightarrow> quiet l (l @ [e])"
  by (simp add: quiet_def)

lemma quiet_trans: "quiet l l1 \<Longrightarrow> quiet l1 l2 \<Longrightarrow> quiet l l2"
  by (auto simp: quiet_def)

lemma moves_refl: "moves ptr 0 s s"
  by (simp add: moves_def)

lemma moves_trans: "moves ptr i s s1 \<Longrightarrow> moves ptr j s1 s2 \<Longrightarrow> moves ptr (i + j) s s2"
proof -
  assume a: "moves ptr i s s1" "moves ptr j s1 s2"
  obtain m1 t1 l1 m2 t2 l2 where "s1 = s\<lparr>mem := m1, io := t1, log := l1\<rparr>" "s2 = s1\<lparr>mem := m2, io := t2, log := l2\<rparr>"
    using a unfolding moves_def by blast
  with a show ?thesis by (auto simp: moves_def intro: quiet_trans)
qed

lemma moves_mem: "(\<And>a. a \<notin> region ptr 524 \<Longrightarrow> m a = mem s a) \<Longrightarrow> moves ptr 0 s (s\<lparr>mem := m\<rparr>)"
  by (auto simp: moves_def tty_bytes_def)

lemma moves_say: "serial_event e \<Longrightarrow> moves ptr 0 s (say e s)"
  by (simp add: moves_def say_def)

lemma inv_say: "kbd_inv hw r img ptr b e (say x s) = kbd_inv hw r img ptr b e s"
  by (simp add: kbd_inv_def say_def vt_ok_def vt_state_def kbd_get_def split: prod.splits)

lemma flag_inj [simp]: "flag_bit f = flag_bit g \<longleftrightarrow> f = g"
  by (cases f; cases g) simp_all

lemma flag_less: "flag_bit f < 8"
  by (cases f) simp_all

lemma kbd_get_set: "kbd_get g ptr (kbd_set f v ptr s) = (if g = f then v else kbd_get g ptr s)"
  using flag_less [of f] by (auto simp: kbd_get_def kbd_set_def bit_set_bit_iff bit_unset_bit_iff)

lemma kbd_set_rec: "kbd_set f v ptr s = s\<lparr>mem := (mem s)(tty_kbd ptr := mem (kbd_set f v ptr s) (tty_kbd ptr))\<rparr>"
  by (simp add: kbd_set_def)

lemma moves_set: "moves ptr 0 s (kbd_set f v ptr s)"
  using tty_fields_in(4) [of ptr] unfolding kbd_set_def by (intro moves_mem) auto

lemma inv_mem:
  fixes s :: "'a tty_scheme"
  assumes i: "kbd_inv hw r img ptr b (sh, cp, line) s" and fr: "\<And>a. a \<notin> region ptr 524 \<Longrightarrow> m a = mem s a"
    and l: "line_at ptr m line'" and f: "kbd_get Shift ptr (s\<lparr>mem := m\<rparr>) = sh'" "kbd_get Caps ptr (s\<lparr>mem := m\<rparr>) = cp'"
  shows "kbd_inv hw r img ptr b (sh', cp', line') (s\<lparr>mem := m\<rparr>)"
proof -
  have "rd m p 59 = rd (mem s) p 59" if "region p 59 \<inter> tty_bytes ptr = {}" for p
    using that fr by (intro rd_cong) (auto simp: tty_bytes_def)
  then show ?thesis using i l f by (simp add: kbd_inv_def vt_ok_def vt_state_def del: rd_numeral)
qed

lemma inv_set:
  assumes "kbd_inv hw r img ptr b (sh, cp, line) s"
  shows "kbd_inv hw r img ptr b (if f = Shift then v else sh, if f = Caps then v else cp, line) (kbd_set f v ptr s)"
proof -
  let ?m = "mem (kbd_set f v ptr s)"
  have fr: "?m a = mem s a" if "a \<noteq> tty_kbd ptr" for a using that by (simp add: kbd_set_def)
  have l: "line_at ptr ?m line"
  proof (rule line_cong [of ptr "mem s"])
    show "?m x = mem s x" if "x \<in> region (tty_buf ptr) 512" for x using that tty_fields(4) by (intro fr) auto
    show "?m x = mem s x" if "x \<in> region (tty_bufptr ptr) 4" for x using that tty_fields(5) by (intro fr) auto
  qed (use assms in \<open>simp add: kbd_inv_def\<close>)
  have eq: "s\<lparr>mem := ?m\<rparr> = kbd_set f v ptr s" by (simp add: kbd_set_def)
  have fr': "?m a = mem s a" if "a \<notin> region ptr 524" for a using that tty_fields_in(4) [of ptr] by (intro fr) auto
  have "kbd_get Shift ptr s = sh" "kbd_get Caps ptr s = cp" using assms by (simp_all add: kbd_inv_def)
  then have "kbd_get Shift ptr (s\<lparr>mem := ?m\<rparr>) = (if f = Shift then v else sh)"
    "kbd_get Caps ptr (s\<lparr>mem := ?m\<rparr>) = (if f = Caps then v else cp)" unfolding eq kbd_get_set by auto
  from inv_mem [OF assms fr' l this] show ?thesis unfolding eq .
qed

lemma inv_port:
  assumes "kbd_inv hw r img ptr b e s" "crtc_step x = id"
  shows "kbd_inv hw r img ptr b e (s\<lparr>io := io s @ [x]\<rparr>)"
  using assms by (simp add: kbd_inv_def vt_ok_def vt_state_def cursor_at_def crtc_of_append kbd_get_def split: prod.splits)

lemma inv_bound: "kbd_inv hw r img ptr b e s \<Longrightarrow> b' \<le> b \<Longrightarrow> kbd_inv hw r img ptr b' e s"
  by (simp add: kbd_inv_def split: prod.splits)

lemma vt_put_next: "snd (vt_put color c (cells, p)) = (if 2000 \<le> vt_next c p then vt_next c p - 80 else vt_next c p)"
  by (simp add: vt_put_def Let_def)

lemma inv_writechar:
  fixes s :: "'a tty_scheme"
  assumes i: "kbd_inv hw r img ptr b (sh, cp, line) s" and c: "\<not> (c = 0x08 \<and> snd (vt_state r s) = 0)"
    and b': "b' \<le> snd (vt_put (mem s ptr) c (vt_state r s))"
  shows "kbd_inv hw r img ptr b' (sh, cp, line) (tty_writechar hw ptr c s) \<and> moves ptr 0 s (tty_writechar hw ptr c s)
    \<and> kbd_get f ptr (tty_writechar hw ptr c s) = kbd_get f ptr s"
proof -
  let ?s = "tty_writechar hw ptr c s"
  have ok: "vt_ok hw r ptr s" and cur: "current_tty s = ptr" using i by (auto simp: kbd_inv_def)
  have w: "vt_state r ?s = vt_put (mem s ptr) c (vt_state r s)" "vt_ok hw r ptr ?s" "prints ptr s ?s" "current_tty ?s = ptr"
    using writechar_vt [OF ok c] by auto
  have fr: "mem ?s a = mem s a" if "a \<notin> region VGA_BASE 4000" "a \<noteq> ptr + 1" "a \<noteq> ptr + 2" for a
    using w(3) that by (auto simp: prints_def out_bytes_def)
  have vga: "x \<notin> region VGA_BASE 4000" if "x \<in> region ptr 524" for x using ok that by (auto simp: vt_ok_def)
  have l: "line_at ptr (mem ?s) line"
  proof (rule line_cong [of ptr "mem s"])
    show "mem ?s x = mem s x" if "x \<in> region (tty_buf ptr) 512" for x
      using that vga tty_fields_in(1) [of ptr] tty_fields(7,8) [of ptr] by (intro fr) auto
    show "mem ?s x = mem s x" if "x \<in> region (tty_bufptr ptr) 4" for x
      using that vga tty_fields_in(2) [of ptr] tty_fields(9,10) [of ptr] by (intro fr) auto
  qed (use i in \<open>simp add: kbd_inv_def\<close>)
  have k: "mem ?s (tty_kbd ptr) = mem s (tty_kbd ptr)"
    using vga [OF tty_fields_in(4)] tty_fields(13,14) by (intro fr) auto
  have tab: "rd (mem ?s) p 59 = rd (mem s) p 59" if "region p 59 \<inter> tty_bytes ptr = {}" for p
    using that tty_fields_in(5,6) [of ptr] by (intro rd_cong fr) (auto simp: tty_bytes_def)
  have "kbd_inv hw r img ptr b' (sh, cp, line) ?s"
    using i w l k tab b' by (simp add: kbd_inv_def kbd_get_def del: rd_numeral)
  moreover have "moves ptr 0 s ?s"
  proof -
    obtain tr where tr: "io ?s = io s @ tr" "inputs 0x60 tr = 0" using w(3) by (auto simp: prints_def VGA_DATA_def VGA_CMD_def)
    have "?s = s\<lparr>mem := mem ?s, io := io ?s, log := log ?s\<rparr>"
    proof -
      obtain c' t' m' where e: "?s = s\<lparr>current_tty := c', io := t', mem := m'\<rparr>" using w(3) unfolding prints_def by blast
      moreover have "c' = current_tty s" using e w(4) cur by simp
      ultimately show ?thesis by simp
    qed
    moreover have "quiet (log s) (log ?s)"
    proof -
      obtain c' t' m' where "?s = s\<lparr>current_tty := c', io := t', mem := m'\<rparr>" using w(3) unfolding prints_def by blast
      then show ?thesis by simp
    qed
    ultimately show ?thesis using tr fr tty_fields_in(5,6) [of ptr] by (auto simp: moves_def tty_bytes_def)
  qed
  ultimately show ?thesis using k by (simp add: kbd_get_def)
qed

subsection \<open>Characters\<close>

lemma decode_sym:
  assumes "kbd_inv hw r img ptr b (sh, cp, line) s" "code < 59"
  shows "decode img code s = sym sh cp code"
proof -
  have c: "unat code < 59" using assms(2) by (simp add: word_less_nat_alt)
  have "(ucast code :: addr) = of_nat (unat code)" by simp
  then have "mem s (img Scancode_set + ucast code) = scancode_set ! unat code" "mem s (img Shift_set + ucast code) = shift_set ! unat code"
    using assms(1) nth_rd [OF c, of "mem s" "img Scancode_set"] nth_rd [OF c, of "mem s" "img Shift_set"]
    by (auto simp: kbd_inv_def simp del: rd_numeral)
  then show ?thesis using assms(1) by (simp add: decode_def sym_def kbd_inv_def Let_def)
qed

definition printable :: "byte \<Rightarrow> bool" where
  "printable c \<longleftrightarrow> c \<noteq> 0x08 \<and> c \<noteq> 0x09 \<and> c \<noteq> 0x0A \<and> c \<noteq> 0x0D"

lemma table_codes:
  "scancode_set = [63, 63, 49, 50, 51, 52, 53, 54, 55, 56, 57, 48, 45, 61, 8, 9, 113, 119, 101, 114, 116, 121, 117, 105, 111,
    112, 91, 93, 10, 63, 97, 115, 100, 102, 103, 104, 106, 107, 108, 59, 39, 96, 63, 92, 122, 120, 99, 118, 98,
    110, 109, 44, 46, 47, 63, 63, 63, 32, 63]"
  "shift_set = [46, 46, 33, 64, 35, 36, 37, 94, 38, 42, 40, 41, 95, 43, 8, 9, 81, 87, 69, 82, 84, 89, 85, 73, 79, 80, 123,
    125, 10, 46, 65, 83, 68, 70, 71, 72, 74, 75, 76, 58, 34, 126, 46, 124, 90, 88, 67, 86, 66, 78, 77, 60, 62, 63,
    46, 42, 46, 32, 63]"
  by (simp_all add: scancode_set_def shift_set_def bytes_def)

definition prints_but :: "nat set \<Rightarrow> byte list \<Rightarrow> bool" where
  "prints_but N xs \<longleftrightarrow> list_all (\<lambda>(i, c). i \<in> N \<or> printable c) (enumerate 0 xs)"

lemma prints_but_nth: "prints_but N xs \<Longrightarrow> i < length xs \<Longrightarrow> i \<notin> N \<Longrightarrow> printable (xs ! i)"
  by (fastforce simp: prints_but_def list_all_iff in_set_enumerate_eq)

lemma sym_table:
  "prints_but {14, 15, 28} scancode_set" "prints_but {14, 15, 28} shift_set"
  "prints_but {14, 15, 28} (map (\<lambda>c. ucast (toupper (promote c))) scancode_set)"
  "prints_but {14, 15, 28} (map (\<lambda>c. ucast (tolower (promote c))) shift_set)"
  by (simp_all add: prints_but_def table_codes printable_def toupper_def tolower_def promote_def)

lemma sym_printable:
  assumes "code < 59" "code \<noteq> BACKSPACE" "code \<noteq> TAB" "code \<noteq> ENTER"
  shows "printable (sym sh cp code)"
proof -
  have n: "unat code < length scancode_set" "unat code < length shift_set"
    using assms(1) by (simp_all add: word_less_nat_alt table_codes)
  have "unat code \<notin> {14, 15, 28}"
    using assms(2-) by (auto simp: BACKSPACE_def TAB_def ENTER_def word_unat_eq_iff)
  note p = prints_but_nth [OF _ _ this]
  show ?thesis using p [OF sym_table(1) n(1)] p [OF sym_table(2) n(2)] p [OF sym_table(3)] p [OF sym_table(4)] n
    by (auto simp: sym_def)
qed

subsection \<open>The keyboard interrupt\<close>

text \<open>A step to a state with the editor \<open>e\<close> that reads \<open>k\<close> scan codes and leaves the flush flag.\<close>

definition types :: "hw \<Rightarrow> crtc \<Rightarrow> image \<Rightarrow> addr \<Rightarrow> nat \<Rightarrow> editor \<Rightarrow> nat \<Rightarrow> 'a tty_scheme \<Rightarrow> 'a tty_scheme \<Rightarrow> bool" where
  "types hw r img ptr b e k s s' \<longleftrightarrow> kbd_inv hw r img ptr b e s' \<and> moves ptr k s s' \<and> kbd_get Flush ptr s' = kbd_get Flush ptr s"

lemma types_trans: "types hw r img ptr b e i s s1 \<Longrightarrow> types hw r img ptr b' e' j s1 s2 \<Longrightarrow> types hw r img ptr b' e' (i + j) s s2"
  by (auto simp: types_def intro: moves_trans)

lemma types_set:
  assumes "kbd_inv hw r img ptr b (sh, cp, line) s" "f \<noteq> Flush"
  shows "types hw r img ptr b (if f = Shift then v else sh, if f = Caps then v else cp, line) 0 s (kbd_set f v ptr s)"
  using inv_set [OF assms(1)] moves_set [of ptr s f v] assms(2) by (simp add: types_def kbd_get_set)

lemma types_say: "kbd_inv hw r img ptr b e s \<Longrightarrow> serial_event x \<Longrightarrow> types hw r img ptr b e 0 s (say x s)"
  using moves_say [of x ptr s] by (simp add: types_def inv_say) (simp add: kbd_get_def say_def)

lemma types_mem:
  fixes s :: "'a tty_scheme"
  assumes i: "kbd_inv hw r img ptr b (sh, cp, line) s" and fr: "\<And>a. a \<notin> region ptr 524 \<Longrightarrow> m a = mem s a"
    and l: "line_at ptr m line'" and k: "m (tty_kbd ptr) = mem s (tty_kbd ptr)"
  shows "types hw r img ptr b (sh, cp, line') 0 s (s\<lparr>mem := m\<rparr>)"
proof -
  have f: "kbd_get f ptr (s\<lparr>mem := m\<rparr>) = kbd_get f ptr s" for f using k by (simp add: kbd_get_def)
  have "kbd_inv hw r img ptr b (sh, cp, line') (s\<lparr>mem := m\<rparr>)"
    using i by (intro inv_mem [OF i fr l]) (simp_all add: f kbd_inv_def)
  then show ?thesis using moves_mem [of ptr m s] fr f by (simp add: types_def)
qed

lemma types_glyph:
  assumes i: "kbd_inv hw r img ptr (length line) (sh, cp, line) s" and c: "printable c" and n: "length line < 511"
  shows "types hw r img ptr (Suc (length line)) (sh, cp, line) 0 s (tty_writechar hw ptr c s)"
proof -
  have p: "length line \<le> snd (vt_state r s)" "snd (vt_state r s) < 2000" using i by (auto simp: kbd_inv_def vt_ok_def)
  then have "Suc (length line) \<le> snd (vt_put (mem s ptr) c (vt_state r s))"
    using c n vt_put_next [of "mem s ptr" c "fst (vt_state r s)" "snd (vt_state r s)"] by (auto simp: vt_next_def printable_def)
  then show ?thesis using inv_writechar [OF i, of c] c by (auto simp: types_def printable_def)
qed

lemma types_erase:
  assumes i: "kbd_inv hw r img ptr (length line) (sh, cp, line) s" and n: "line \<noteq> []"
  shows "types hw r img ptr (length line - 1) (sh, cp, line) 0 s (tty_writechar hw ptr 0x08 s)"
proof -
  have p: "length line \<le> snd (vt_state r s)" "snd (vt_state r s) < 2000" using i by (auto simp: kbd_inv_def vt_ok_def)
  then have "length line - 1 \<le> snd (vt_put (mem s ptr) 0x08 (vt_state r s))"
    using n vt_put_next [of "mem s ptr" "0x08" "fst (vt_state r s)" "snd (vt_state r s)"] by (auto simp: vt_next_def)
  moreover have "snd (vt_state r s) \<noteq> 0" using p n by (cases line) auto
  ultimately show ?thesis using inv_writechar [OF i, of "0x08"] by (auto simp: types_def)
qed

lemma line_bufptr: "line_at ptr m line \<Longrightarrow> ld32 m (tty_bufptr ptr) = tty_buf ptr + of_nat (length line)"
  by (simp add: line_at_def)

lemma press_char:
  fixes s :: "'a tty_scheme"
  assumes i: "kbd_inv hw r img ptr (length line) (sh, cp, line) s" and n: "length line < 511" and c: "printable c"
    and s': "s' = (let s = tty_writechar hw ptr c s;
               s = s\<lparr>mem := (mem s)(ld32 (mem s) (tty_bufptr ptr) := c)\<rparr>;
               s = s\<lparr>mem := st32 (mem s) (tty_bufptr ptr) (ld32 (mem s) (tty_bufptr ptr) + 1)\<rparr>
           in s\<lparr>mem := (mem s)(ld32 (mem s) (tty_bufptr ptr) := 0)\<rparr>)"
  shows "types hw r img ptr (length (line @ [c])) (sh, cp, line @ [c]) 0 s s'"
proof -
  let ?s = "tty_writechar hw ptr c s" and ?bp = "tty_buf ptr + of_nat (length line)"
  let ?m = "(st32 ((mem ?s)(?bp := c)) (tty_bufptr ptr) (?bp + 1))(?bp + 1 := 0)"
  have w: "types hw r img ptr (Suc (length line)) (sh, cp, line) 0 s ?s" by (rule types_glyph [OF i c n])
  then have i': "kbd_inv hw r img ptr (Suc (length line)) (sh, cp, line) ?s" and l: "line_at ptr (mem ?s) line"
    by (auto simp: types_def kbd_inv_def)
  have b: "?bp \<in> region (tty_buf ptr) 512" "?bp + 1 \<in> region (tty_buf ptr) 512"
    using n buf_byte [of "length line" ptr] buf_byte [of "Suc (length line)" ptr] by (simp_all add: add.assoc add.commute [of 1])
  then have o: "?bp \<notin> region (tty_bufptr ptr) 4" "?bp + 1 \<notin> region (tty_bufptr ptr) 4"
    using sep_region [OF tty_fields(1) [of ptr]] by auto
  have eq: "s' = ?s\<lparr>mem := ?m\<rparr>"
    using line_bufptr [OF l] o(1) by (simp add: s' Let_def ld32_byte_other)
  have inr: "?bp \<in> region ptr 524" "?bp + 1 \<in> region ptr 524" using b tty_fields_in(1) by auto
  have fr: "?m a = mem ?s a" if "a \<noteq> ?bp" "a \<noteq> ?bp + 1" "a \<notin> region (tty_bufptr ptr) 4" for a
    using that by (simp add: st32_frame)
  have "types hw r img ptr (Suc (length line)) (sh, cp, line @ [c]) 0 ?s (?s\<lparr>mem := ?m\<rparr>)"
  proof (rule types_mem [OF i' _ line_append [OF l n refl refl]])
    show "?m a = mem ?s a" if "a \<notin> region ptr 524" for a using that inr tty_fields_in(2) by (intro fr) auto
    show "?m (tty_kbd ptr) = mem ?s (tty_kbd ptr)" using b tty_fields(4,5) [of ptr] by (intro fr) metis+
  qed
  from types_trans [OF w this] eq show ?thesis by simp
qed

lemma press_back:
  fixes s :: "'a tty_scheme"
  assumes i: "kbd_inv hw r img ptr (length line) (sh, cp, line) s" and top: "unat ptr + 524 \<le> 2 ^ 32"
    and s': "s' = (if ld32 (mem s) (tty_bufptr ptr) \<le> tty_buf ptr
              then s\<lparr>mem := st32 (mem s) (tty_bufptr ptr) (tty_buf ptr)\<rparr>
              else let s = tty_writechar hw ptr 0x08 s;
                       s = s\<lparr>mem := st32 (mem s) (tty_bufptr ptr) (ld32 (mem s) (tty_bufptr ptr) - 1)\<rparr>
                   in s\<lparr>mem := (mem s)(ld32 (mem s) (tty_bufptr ptr) := 0)\<rparr>)"
  shows "types hw r img ptr (length (butlast line)) (sh, cp, butlast line) 0 s s'"
proof -
  have l: "line_at ptr (mem s) line" "length line \<le> 511" using i by (auto simp: kbd_inv_def line_at_def)
  have u: "unat (tty_buf ptr) = unat ptr + 3" using top unat_add_of_nat32 [of ptr 3] by (simp add: tty_buf_def)
  then have "unat (tty_buf ptr + of_nat (length line)) = unat ptr + 3 + length line"
    using top l(2) unat_add_of_nat32 [of "tty_buf ptr" "length line"] by simp
  then have le: "ld32 (mem s) (tty_bufptr ptr) \<le> tty_buf ptr \<longleftrightarrow> line = []"
    using line_bufptr [OF l(1)] u by (auto simp: word_le_nat_alt)
  show ?thesis
  proof (cases "line = []")
    case True
    then have eq: "s' = s\<lparr>mem := st32 (mem s) (tty_bufptr ptr) (tty_buf ptr)\<rparr>" using le s' by simp
    have "types hw r img ptr 0 (sh, cp, []) 0 s s'" unfolding eq
    proof (rule types_mem)
      show "kbd_inv hw r img ptr 0 (sh, cp, []) s" using i True by simp
      show "st32 (mem s) (tty_bufptr ptr) (tty_buf ptr) a = mem s a" if "a \<notin> region ptr 524" for a
        using that tty_fields_in(2) [of ptr] by (intro st32_frame) auto
      show "st32 (mem s) (tty_bufptr ptr) (tty_buf ptr) (tty_kbd ptr) = mem s (tty_kbd ptr)"
        using tty_fields(5) by (intro st32_frame)
    qed (simp add: line_at_def)
    then show ?thesis using True by simp
  next
    case False
    let ?s = "tty_writechar hw ptr 0x08 s" and ?bp = "tty_buf ptr + of_nat (length line)"
    let ?m = "(st32 (mem ?s) (tty_bufptr ptr) (?bp - 1))(?bp - 1 := 0)"
    have w: "types hw r img ptr (length line - 1) (sh, cp, line) 0 s ?s" by (rule types_erase [OF i False])
    then have i': "kbd_inv hw r img ptr (length line - 1) (sh, cp, line) ?s" and l': "line_at ptr (mem ?s) line"
      by (auto simp: types_def kbd_inv_def)
    have "?bp - 1 = tty_buf ptr + of_nat (length line - 1)"
      using False by (cases line) simp_all
    then have b: "?bp - 1 \<in> region (tty_buf ptr) 512" using l(2) buf_byte [of "length line - 1" ptr] by (simp only:)
    have eq: "s' = ?s\<lparr>mem := ?m\<rparr>" using line_bufptr [OF l'] le False by (simp add: s' Let_def)
    have fr: "?m a = mem ?s a" if "a \<noteq> ?bp - 1" "a \<notin> region (tty_bufptr ptr) 4" for a using that by (simp add: st32_frame)
    have "types hw r img ptr (length line - 1) (sh, cp, butlast line) 0 ?s (?s\<lparr>mem := ?m\<rparr>)"
    proof (rule types_mem [OF i' _ line_back [OF l' False refl refl]])
      show "?m a = mem ?s a" if "a \<notin> region ptr 524" for a using that b tty_fields_in(1,2) [of ptr] by (intro fr) auto
      show "?m (tty_kbd ptr) = mem ?s (tty_kbd ptr)" using b tty_fields(4,5) [of ptr] by (intro fr) metis+
    qed
    from types_trans [OF w this] eq show ?thesis by simp
  qed
qed

lemma irq_start:
  assumes i: "kbd_inv hw r img ptr b e s"
  shows "types hw r img ptr b e 1 s (kbd_set Special True ptr (kbd_set Irq True ptr (snd (inb hw 0x60 s))))"
proof -
  obtain sh cp line where e: "e = (sh, cp, line)" by (cases e)
  let ?s = "snd (inb hw 0x60 s)"
  have "kbd_inv hw r img ptr b e ?s" using inv_port [OF i] by (simp add: inb_eq fun_eq_iff)
  then have a: "types hw r img ptr b e 1 s ?s" by (auto simp: types_def inb_eq moves_def kbd_get_def)
  then have b: "types hw r img ptr b e 0 ?s (kbd_set Irq True ptr ?s)"
    using types_set [of hw r img ptr b sh cp line ?s Irq True] by (simp add: e types_def)
  then have "types hw r img ptr b e 0 (kbd_set Irq True ptr ?s) (kbd_set Special True ptr (kbd_set Irq True ptr ?s))"
    using types_set [of hw r img ptr b sh cp line "kbd_set Irq True ptr ?s" Special True] by (simp add: e types_def)
  from types_trans [OF types_trans [OF a b] this] show ?thesis by simp
qed

lemma types_inv: "types hw r img ptr b e k s s' \<Longrightarrow> kbd_inv hw r img ptr b e s'"
  by (simp add: types_def)

lemma inv_current: "kbd_inv hw r img ptr b e s \<Longrightarrow> current_tty s = ptr"
  by (auto simp: kbd_inv_def)

text \<open>Setting a flag before or after a message.\<close>

lemma types_say_set:
  assumes i: "kbd_inv hw r img ptr b (sh, cp, line) s" and "f \<noteq> Flush" and x: "serial_event x"
  shows "types hw r img ptr b (if f = Shift then v else sh, if f = Caps then v else cp, line) 0 s (kbd_set f v ptr (say x s))"
    "types hw r img ptr b (if f = Shift then v else sh, if f = Caps then v else cp, line) 0 s (say x (kbd_set f v ptr s))"
  using types_trans [OF types_say [OF i x] types_set [OF types_inv [OF types_say [OF i x]] assms(2)]]
    types_trans [OF types_set [OF assms(1,2)] types_say [OF types_inv [OF types_set [OF assms(1,2)]] x]]
  by simp_all

lemma irq_release:
  assumes i: "kbd_inv hw r img ptr b (sh, cp, line) s" and "code AND 0x80 \<noteq> 0"
  shows "types hw r img ptr b (key code (sh, cp, line)) 0 s (kbd_release (code AND 0x7F) ptr s)"
  using types_say_set(1) [OF i, where f = Ctrl and v = False] types_say_set(1) [OF i, where f = Shift and v = False] types_set [OF i, of Alt False] i moves_refl [of ptr s]
  by (auto simp: kbd_release_def key_def assms(2) CTRL_def LSHIFT_def RSHIFT_def ALT_def types_def)

lemma types_eq: "types hw r img ptr b e k s s' \<Longrightarrow> e = e' \<Longrightarrow> types hw r img ptr b e' k s s'"
  by simp

lemma irq_press:
  fixes s :: "'a tty_scheme"
  assumes i: "kbd_inv hw r img ptr (length line) (sh, cp, line) s" and k: "code AND 0x80 = 0" "code < 59" "code \<noteq> ENTER"
    and fits: "length (snd (snd (key code (sh, cp, line)))) \<le> 511" and top: "unat ptr + 524 \<le> 2 ^ 32"
  shows "types hw r img ptr (length (snd (snd (key code (sh, cp, line))))) (key code (sh, cp, line)) 0 s (kbd_press hw img code ptr s)"
proof -
  let ?s = "kbd_set Special False ptr s"
  have sp: "types hw r img ptr (length line) (sh, cp, line) 0 s ?s" using types_set [OF i, of Special False] by simp
  note i' = types_inv [OF sp] and cur = inv_current [OF types_inv [OF sp]]
  consider "code \<in> {TAB, CTRL, LSHIFT, RSHIFT, CAPS, ALT}" | "code = BACKSPACE" | "code \<notin> {TAB, CTRL, LSHIFT, RSHIFT, CAPS, ALT, BACKSPACE}" by blast
  then show ?thesis
  proof cases
    case 1
    note facts = types_say_set(1) [OF i, where f = Ctrl and v = True] types_say_set(1) [OF i, where f = Shift and v = True]
      types_say_set(2) [OF i, where f = Caps and v = "\<not> cp"] types_set [OF i, of Alt True]
    have "kbd_get Caps ptr s = cp" using i by (simp add: kbd_inv_def)
    moreover have "types hw r img ptr (length line) (sh, cp, line) 0 s s" using i by (simp add: types_def moves_refl)
    ultimately show ?thesis using 1 k(1) facts
      by (elim insertE emptyE) (simp_all add: kbd_press_def key_def Let_def TAB_def CTRL_def LSHIFT_def RSHIFT_def CAPS_def ALT_def)
  next
    case 2
    have "types hw r img ptr (length (butlast line)) (sh, cp, butlast line) 0 ?s (kbd_press hw img code ptr s)"
      by (rule press_back [OF i' top])
        (simp add: kbd_press_def 2 cur Let_def TAB_def CTRL_def LSHIFT_def RSHIFT_def CAPS_def ALT_def ENTER_def BACKSPACE_def)
    from types_trans [OF sp this] show ?thesis using k(1)
      by (simp add: key_def 2) (simp add: TAB_def CTRL_def LSHIFT_def RSHIFT_def CAPS_def ALT_def BACKSPACE_def)
  next
    case 3
    then have key: "key code (sh, cp, line) = (sh, cp, line @ [sym sh cp code])" using k(1) by (simp add: key_def)
    have d: "decode img code ?s = sym sh cp code" by (rule decode_sym [OF i' k(2)])
    have "types hw r img ptr (length (line @ [sym sh cp code])) (sh, cp, line @ [sym sh cp code]) 0 ?s (kbd_press hw img code ptr s)"
    proof (rule press_char [OF i'])
      show "length line < 511" using fits key by simp
      show "printable (sym sh cp code)" using 3 k by (intro sym_printable) auto
    qed (use 3 k(3) in \<open>simp add: kbd_press_def cur d Let_def\<close>)
    from types_trans [OF sp this] key show ?thesis by simp
  qed
qed

lemma kbd_irq_step:
  fixes s :: "'a tty_scheme"
  assumes i: "kbd_inv hw r img ptr (length (snd (snd e))) e s" and code: "ucast (hw (io s) 0x60) = code" "key_ok code"
    and fits: "length (snd (snd (key code e))) \<le> 511" and top: "unat ptr + 524 \<le> 2 ^ 32"
  shows "types hw r img ptr (length (snd (snd (key code e)))) (key code e) 1 s (kbd_irq hw img regs s)"
proof -
  obtain sh cp line where e: "e = (sh, cp, line)" by (cases e)
  let ?s = "kbd_set Special True ptr (kbd_set Irq True ptr (snd (inb hw 0x60 s)))"
  have st: "types hw r img ptr (length line) (sh, cp, line) 1 s ?s" using irq_start [OF i] e by simp
  have run: "kbd_irq hw img regs s = (if code AND 0x80 \<noteq> 0 then kbd_release (code AND 0x7F) ptr ?s else kbd_press hw img code ptr ?s)"
    using code(1) inv_current [OF i] by (simp add: kbd_irq_def inb_eq Let_def)
  show ?thesis
  proof (cases "code AND 0x80 = 0")
    case True
    then have "types hw r img ptr (length (snd (snd (key code e)))) (key code e) 0 ?s (kbd_irq hw img regs s)"
      using irq_press [OF types_inv [OF st] True _ _ _ top] code(2) fits run e by (simp add: key_ok_def)
    with types_trans [OF st this] show ?thesis by simp
  next
    case False
    then have "types hw r img ptr (length line) (key code e) 0 ?s (kbd_irq hw img regs s)"
      using irq_release [OF types_inv [OF st] False] run e by simp
    moreover have "length (snd (snd (key code e))) = length line" using False by (simp add: key_def e)
    ultimately show ?thesis using types_trans [OF st] by simp
  qed
qed

lemma kbd_irq_enter:
  fixes s :: "'a tty_scheme"
  assumes i: "kbd_inv hw r img ptr b (sh, cp, line) s" and code: "ucast (hw (io s) 0x60) = ENTER"
  shows "\<exists>s'. kbd_irq hw img regs s = s' \<and> kbd_inv hw r img ptr 0 (sh, cp, []) s' \<and> moves ptr 1 s s' \<and> kbd_get Flush ptr s'
    \<and> ld32 (mem s') (tty_tmp ptr) = tty_buf ptr + of_nat (length line) \<and> rd (mem s') (tty_buf ptr) (length line) = line"
proof -
  let ?s1 = "kbd_set Special True ptr (kbd_set Irq True ptr (snd (inb hw 0x60 s)))"
  let ?s2 = "kbd_set Special False ptr ?s1"
  let ?s3 = "tty_writechar hw ptr 0x0A ?s2"
  let ?s4 = "kbd_set Flush True ptr ?s3"
  let ?m5 = "st32 (mem ?s4) (tty_tmp ptr) (ld32 (mem ?s4) (tty_bufptr ptr))"
  let ?m6 = "st32 ?m5 (tty_bufptr ptr) (tty_buf ptr)"
  have t1: "types hw r img ptr b (sh, cp, line) 1 s ?s1" by (rule irq_start [OF i])
  have t2: "types hw r img ptr b (sh, cp, line) 0 ?s1 ?s2" using types_set [OF types_inv [OF t1], of Special False] by simp
  have t3: "types hw r img ptr 0 (sh, cp, line) 0 ?s2 ?s3" using inv_writechar [OF types_inv [OF t2], of "0x0A" 0] by (simp add: types_def)
  have i4: "kbd_inv hw r img ptr 0 (sh, cp, line) ?s4" using inv_set [OF types_inv [OF t3], of Flush True] by simp
  have mv: "moves ptr 1 s ?s4"
    using moves_trans [OF _ moves_set [of ptr ?s3 Flush True]] types_trans [OF types_trans [OF t1 t2] t3] by (fastforce simp: types_def)
  have run: "kbd_irq hw img regs s = ?s4\<lparr>mem := ?m6\<rparr>"
  proof -
    have e: "(ENTER AND 0x80 :: byte) = 0" by (simp add: ENTER_def)
    have "kbd_irq hw img regs s = kbd_press hw img ENTER ptr ?s1"
      using code inv_current [OF i] e by (simp add: kbd_irq_def inb_eq Let_def)
    also have "\<dots> = ?s4\<lparr>mem := ?m6\<rparr>" using inv_current [OF types_inv [OF t2]]
      by (simp add: kbd_press_def Let_def) (simp add: TAB_def CTRL_def LSHIFT_def RSHIFT_def CAPS_def ALT_def ENTER_def)
    finally show ?thesis .
  qed
  have l: "line_at ptr (mem ?s4) line" using i4 by (simp add: kbd_inv_def)
  have fr: "?m6 a = mem ?s4 a" if "a \<notin> region (tty_bufptr ptr) 4" "a \<notin> region (tty_tmp ptr) 4" for a
    using that by (simp add: st32_frame)
  have k: "?m6 (tty_kbd ptr) = mem ?s4 (tty_kbd ptr)" using tty_fields(5,6) by (intro fr) auto
  have t6: "types hw r img ptr 0 (sh, cp, []) 0 ?s4 (?s4\<lparr>mem := ?m6\<rparr>)"
    using tty_fields_in(2,3) [of ptr] by (intro types_mem [OF i4] fr k) (auto simp: line_at_def)
  have "ld32 ?m6 (tty_tmp ptr) = tty_buf ptr + of_nat (length line)"
    using tty_fields(3) [of ptr] line_bufptr [OF l] by (simp add: ld32_st32_other sep_sym)
  moreover have "rd ?m6 (tty_buf ptr) (length line) = line"
  proof -
    have "region (tty_buf ptr) (length line) \<subseteq> region (tty_buf ptr) 512" using l by (intro region_mono) (simp add: line_at_def)
    then have "rd ?m6 (tty_buf ptr) (length line) = rd (mem ?s4) (tty_buf ptr) (length line)"
      using l sep_region [OF tty_fields(1) [of ptr]] sep_region [OF tty_fields(2) [of ptr]] by (intro rd_cong fr) (auto simp: line_at_def)
    then show ?thesis using l by (simp add: line_at_def)
  qed
  moreover have "kbd_get Flush ptr (?s4\<lparr>mem := ?m6\<rparr>)" using t6 kbd_get_set [of Flush ptr Flush True ?s3] by (simp add: types_def)
  moreover have "moves ptr 1 s (?s4\<lparr>mem := ?m6\<rparr>)" using moves_trans [OF mv, of 0] t6 by (simp add: types_def)
  ultimately show ?thesis using run types_inv [OF t6] by simp
qed

subsection \<open>Waiting for a line\<close>

text \<open>
  A keyboard whose data port gives the scan codes \<open>cs\<close> in order, one per read; the handler of the
  keyboard in the table, out of reach of the terminal.
\<close>

definition keyboard :: "hw \<Rightarrow> byte list \<Rightarrow> bool" where
  "keyboard hw cs \<longleftrightarrow> (\<forall>tr. inputs 0x60 tr < length cs \<longrightarrow> ucast (hw tr 0x60) = cs ! inputs 0x60 tr)"

definition kbd_hooked :: "image \<Rightarrow> addr \<Rightarrow> 'a intr_scheme \<Rightarrow> bool" where
  "kbd_hooked img ptr s \<longleftrightarrow> img Kbd_irq \<noteq> 0 \<and> handler_at s 33 = img Kbd_irq \<and> region (handlers s + 132) 4 \<inter> tty_bytes ptr = {}"

lemma hooked_moves:
  assumes "kbd_hooked img ptr s" "moves ptr k s s'"
  shows "kbd_hooked img ptr s'"
proof -
  obtain m t l where s': "s' = s\<lparr>mem := m, io := t, log := l\<rparr>" using assms(2) unfolding moves_def by blast
  have "ld32 (mem s') (handlers s + 132) = ld32 (mem s) (handlers s + 132)"
    using assms by (intro ld32_cong) (auto simp: kbd_hooked_def moves_def)
  then show ?thesis using assms(1) by (simp add: kbd_hooked_def handler_at_def s')
qed

lemma irq_keyboard:
  fixes s :: "'a tty_scheme"
  assumes "kbd_hooked img ptr s" "call (img Kbd_irq) = (\<lambda>regs t. Some (Returns (kbd_irq hw img regs t)))" "r_int_no regs = 33"
  shows "irq_handler call regs s = Some (Returns (kbd_irq hw img regs (s\<lparr>io := io s @ [Outb PIC1_CMD 0x20]\<rparr>)))"
  using assms by (simp add: irq_handler_def pic_send_eoi_def outb_def handler_at_def kbd_hooked_def Let_def word_le_nat_alt)

lemma drop_ConsD: "drop n xs = y # ys \<Longrightarrow> n < length xs \<and> xs ! n = y \<and> drop (Suc n) xs = ys"
  by (metis drop_all leI list.distinct(1) list.inject Cons_nth_drop_Suc)

lemma eoi_types: "kbd_inv hw r img ptr b e s \<Longrightarrow> types hw r img ptr b e 0 s (s\<lparr>io := io s @ [Outb PIC1_CMD 0x20]\<rparr>)"
  using inv_port [of hw r img ptr b e s "Outb PIC1_CMD 0x20"]
  by (auto simp: types_def moves_def kbd_get_def PIC1_CMD_def VGA_CMD_def VGA_DATA_def fun_eq_iff)

lemma read_loop:
  fixes s :: "'a tty_scheme"
  assumes c: "call (img Kbd_irq) = (\<lambda>regs t. Some (Returns (kbd_irq hw img regs t)))" and kb: "keyboard hw cs"
    and top: "unat ptr + 524 \<le> 2 ^ 32"
  shows "kbd_inv hw r img ptr (length (snd (snd e))) e s \<Longrightarrow> kbd_hooked img ptr s \<Longrightarrow> \<not> kbd_get Flush ptr s \<Longrightarrow>
    typing_ok codes e \<Longrightarrow> drop (inputs 0x60 (io s)) cs = codes @ ENTER # rest \<Longrightarrow>
    length codes < length evs \<Longrightarrow> list_all (\<lambda>r. r_int_no r = 33) evs \<Longrightarrow>
    \<exists>s'. wait_until (\<lambda>s. kbd_get Flush ptr s) (irq_handler call) evs s = Some (s', drop (Suc (length codes)) evs)
      \<and> moves ptr (Suc (length codes)) s s' \<and> kbd_get Flush ptr s'
      \<and> (case fold key codes e of (sh, cp, line) \<Rightarrow> kbd_inv hw r img ptr 0 (sh, cp, []) s'
        \<and> ld32 (mem s') (tty_tmp ptr) = tty_buf ptr + of_nat (length line) \<and> rd (mem s') (tty_buf ptr) (length line) = line)"
proof (induction codes arbitrary: s e evs)
  case Nil
  then obtain v evs' where ev: "evs = v # evs'" "r_int_no v = 33" by (cases evs) auto
  obtain sh cp line where e: "e = (sh, cp, line)" by (cases e)
  let ?s = "s\<lparr>io := io s @ [Outb PIC1_CMD 0x20]\<rparr>"
  have t: "types hw r img ptr (length line) (sh, cp, line) 0 s ?s" using eoi_types [OF Nil.prems(1)] e by simp
  have n: "inputs 0x60 (io s) < length cs" "cs ! inputs 0x60 (io s) = ENTER"
    using Nil.prems(5) drop_ConsD [of "inputs 0x60 (io s)" cs] by auto
  have "ucast (hw (io ?s) 0x60) = ENTER" using kb n by (simp add: keyboard_def)
  from kbd_irq_enter [OF types_inv [OF t] this, of v] obtain s' where
    s': "kbd_irq hw img v ?s = s'" "kbd_inv hw r img ptr 0 (sh, cp, []) s'" "moves ptr 1 ?s s'" "kbd_get Flush ptr s'"
      "ld32 (mem s') (tty_tmp ptr) = tty_buf ptr + of_nat (length line)" "rd (mem s') (tty_buf ptr) (length line) = line" by auto
  have "moves ptr 1 s s'" using moves_trans [OF _ s'(3), of 0] t by (simp add: types_def)
  moreover have "wait_until (\<lambda>s. kbd_get Flush ptr s) (irq_handler call) evs s = Some (s', evs')"
    using ev Nil.prems(3) irq_keyboard [of img ptr s call hw v] Nil.prems(2) c s'(1,4) by (cases evs') simp_all
  ultimately show ?case using s' ev e by simp
next
  case (Cons code codes)
  then obtain v evs' where ev: "evs = v # evs'" "r_int_no v = 33" by (cases evs) auto
  let ?s = "s\<lparr>io := io s @ [Outb PIC1_CMD 0x20]\<rparr>"
  let ?s' = "kbd_irq hw img v ?s"
  have t: "types hw r img ptr (length (snd (snd e))) e 0 s ?s" by (rule eoi_types [OF Cons.prems(1)])
  have n: "inputs 0x60 (io s) < length cs" "cs ! inputs 0x60 (io s) = code"
    and rest: "drop (Suc (inputs 0x60 (io s))) cs = codes @ ENTER # rest"
    using Cons.prems(5) drop_ConsD [of "inputs 0x60 (io s)" cs] by auto
  have "ucast (hw (io ?s) 0x60) = code" using kb n by (simp add: keyboard_def)
  from kbd_irq_step [OF types_inv [OF t] this _ _ top] Cons.prems(4)
  have st: "types hw r img ptr (length (snd (snd (key code e)))) (key code e) 1 s ?s'" using types_trans [OF t] by simp
  then have "drop (inputs 0x60 (io ?s')) cs = codes @ ENTER # rest" using rest by (simp add: types_def moves_def)
  from Cons.IH [OF types_inv [OF st] _ _ _ this, of evs'] st obtain s' where
    s': "wait_until (\<lambda>s. kbd_get Flush ptr s) (irq_handler call) evs' ?s' = Some (s', drop (Suc (length codes)) evs')"
      "moves ptr (Suc (length codes)) ?s' s'" "kbd_get Flush ptr s'"
      "case fold key codes (key code e) of (sh, cp, line) \<Rightarrow> kbd_inv hw r img ptr 0 (sh, cp, []) s'
        \<and> ld32 (mem s') (tty_tmp ptr) = tty_buf ptr + of_nat (length line) \<and> rd (mem s') (tty_buf ptr) (length line) = line"
    using Cons.prems(2-4,6,7) hooked_moves [OF Cons.prems(2), of 1 ?s'] ev by (auto simp: types_def)
  have "moves ptr (Suc (Suc (length codes))) s s'" using moves_trans [OF _ s'(2), of 1 s] st by (simp add: types_def)
  moreover have "wait_until (\<lambda>s. kbd_get Flush ptr s) (irq_handler call) evs s = Some (s', drop (Suc (length codes)) evs')"
    using ev(1) Cons.prems(3) irq_keyboard [of img ptr s call hw v] Cons.prems(2) c ev(2) s'(1) by simp
  ultimately show ?case using s' ev(1) by simp
qed

lemma typing_length: "typing_ok codes e \<Longrightarrow> length (snd (snd e)) \<le> 511 \<Longrightarrow> length (snd (snd (fold key codes e))) \<le> 511"
  by (induction codes arbitrary: e) simp_all

text \<open>The end of tty_read: the line is copied to a destination apart from the terminal.\<close>

lemma take_line:
  fixes s :: "'a tty_scheme"
  assumes tmp: "ld32 (mem s) (tty_tmp ptr) = tty_buf ptr + of_nat (length line)" and l: "rd (mem s) (tty_buf ptr) (length line) = line"
    and n: "length line \<le> 511" and apart: "region buf 511 \<inter> region ptr 524 = {}"
    and s': "s' = (let s = kbd_set Flush False ptr s;
        size = ld32 (mem s) (tty_tmp ptr) - tty_buf ptr;
        s = s\<lparr>mem := st32 (mem s) (tty_tmp ptr) (tty_buf ptr)\<rparr>
      in s\<lparr>mem := memcpy (mem s) buf (tty_buf ptr) size\<rparr>)"
  shows "ld32 (mem (kbd_set Flush False ptr s)) (tty_tmp ptr) - tty_buf ptr = of_nat (length line)
    \<and> rd (mem s') buf (length line) = line \<and> \<not> kbd_get Flush ptr s'
    \<and> (\<forall>a. a \<notin> region ptr 524 \<longrightarrow> a \<notin> region buf (length line) \<longrightarrow> mem s' a = mem s a)"
proof -
  let ?n = "length line" and ?s = "kbd_set Flush False ptr s"
  let ?m = "st32 (mem ?s) (tty_tmp ptr) (tty_buf ptr)"
  have u: "unat (of_nat ?n :: u32) = ?n" using n by (intro unat_of_nat32) simp
  have tmp': "ld32 (mem ?s) (tty_tmp ptr) - tty_buf ptr = of_nat ?n"
    using tmp tty_fields(6) by (simp add: kbd_set_def ld32_byte_other)
  have bn: "region buf ?n \<subseteq> region buf 511" "region (tty_buf ptr) ?n \<subseteq> region (tty_buf ptr) 512" using n by (simp_all add: region_mono)
  have fr: "?m a = mem s a" if "a \<noteq> tty_kbd ptr" "a \<notin> region (tty_tmp ptr) 4" for a using that by (simp add: st32_frame kbd_set_def)
  have l': "rd ?m (tty_buf ptr) ?n = line"
  proof -
    have "rd ?m (tty_buf ptr) ?n = rd (mem s) (tty_buf ptr) ?n"
      using n bn(2) tty_fields(4) [of ptr] sep_region [OF tty_fields(2) [of ptr]] by (intro rd_cong fr) auto
    then show ?thesis using l by simp
  qed
  have "?n \<le> unat (buf - tty_buf ptr)"
  proof (rule ccontr)
    assume "\<not> ?n \<le> unat (buf - tty_buf ptr)"
    then have "buf \<in> region (tty_buf ptr) ?n" "0 < ?n" by (auto simp: region_def)
    then have "buf \<in> region ptr 524" "buf \<in> region buf 511" using bn(2) tty_fields_in(1) [of ptr] by auto
    then show False using apart by blast
  qed
  then have eq: "s' = ?s\<lparr>mem := wr ?m buf line\<rparr>"
    using tmp' u l' memcpy_wr [of buf "tty_buf ptr" "of_nat ?n" ?m] by (simp add: s' Let_def)
  have w: "wr ?m buf line a = ?m a" if "a \<notin> region buf ?n" for a using that n by (intro wr_frame) auto
  have "tty_kbd ptr \<notin> region buf ?n" using apart bn(1) tty_fields_in(4) [of ptr] by blast
  then have k: "wr ?m buf line (tty_kbd ptr) = mem ?s (tty_kbd ptr)" using w tty_fields(6) by (simp add: st32_frame)
  have "\<not> kbd_get Flush ptr s'" using k kbd_get_set [of Flush ptr Flush False s] by (simp add: eq kbd_get_def)
  moreover have "rd (mem s') buf ?n = line" using rd_wr [of line ?m buf] n by (simp add: eq)
  moreover have "mem s' a = mem s a" if "a \<notin> region ptr 524" "a \<notin> region buf ?n" for a
    using that w fr [of a] tty_fields_in(3,4) [of ptr] by (auto simp: eq)
  ultimately show ?thesis using tmp' by blast
qed

lemma moves_eq: "moves ptr k s s' \<Longrightarrow> \<exists>m t l. s' = s\<lparr>mem := m, io := t, log := l\<rparr>"
  unfolding moves_def by blast

text \<open>A line from the keyboard: the codes up to the enter key are consumed.\<close>

lemma read_line:
  fixes s :: "'a tty_scheme"
  assumes "kbd_inv hw r img ptr 0 (sh, cp, old) s" and "kbd_hooked img ptr s" and "\<not> kbd_get Flush ptr s"
    and "call (img Kbd_irq) = (\<lambda>regs t. Some (Returns (kbd_irq hw img regs t)))" and "unat ptr + 524 \<le> 2 ^ 32"
    and "keyboard hw cs" and "drop (inputs 0x60 (io s)) cs = codes @ ENTER # rest" and "typing_ok codes (sh, cp, [])"
    and "length codes < length evs" and "list_all (\<lambda>v. r_int_no v = 33) evs"
    and "region buf 511 \<inter> region ptr 524 = {}" and "(sh', cp', line) = fold key codes (sh, cp, [])"
  shows "\<exists>s'. tty_read (irq_handler call) evs ptr buf len s = Some (of_nat (length line), s', drop (Suc (length codes)) evs)
    \<and> rd (mem s') buf (length line) = line \<and> \<not> kbd_get Flush ptr s'
    \<and> (\<forall>a. a \<notin> tty_bytes ptr \<longrightarrow> a \<notin> region buf (length line) \<longrightarrow> mem s' a = mem s a)
    \<and> s' = s\<lparr>mem := mem s', io := io s', log := log s'\<rparr> \<and> quiet (log s) (log s')"
proof -
  let ?s = "s\<lparr>mem := st32 (mem s) (tty_bufptr ptr) (tty_buf ptr)\<rparr>"
  have nz: "ptr \<noteq> 0" "current_tty s = ptr" using assms(1) by (auto simp: kbd_inv_def vt_ok_def)
  then have chk: "check_tty ptr s = (ptr, s)" by (simp add: check_tty_def)
  have start: "types hw r img ptr 0 (sh, cp, []) 0 s ?s"
    using tty_fields_in(2) [of ptr] tty_fields(5) [of ptr] by (intro types_mem [OF assms(1)] st32_frame) (auto simp: line_at_def)
  have hooked: "kbd_hooked img ptr ?s" "\<not> kbd_get Flush ptr ?s" using start hooked_moves assms(2,3) by (auto simp: types_def)
  obtain s1 where s1: "wait_until (\<lambda>s. kbd_get Flush ptr s) (irq_handler call) evs ?s = Some (s1, drop (Suc (length codes)) evs)"
      "moves ptr (Suc (length codes)) ?s s1" "kbd_get Flush ptr s1" "kbd_inv hw r img ptr 0 (sh', cp', []) s1"
      "ld32 (mem s1) (tty_tmp ptr) = tty_buf ptr + of_nat (length line)" "rd (mem s1) (tty_buf ptr) (length line) = line"
    using read_loop [where call = call and img = img and hw = hw and s = ?s and evs = evs and r = r and ptr = ptr
        and e = "(sh, cp, [])" and codes = codes and cs = cs and rest = rest]
      assms(4-10) start hooked assms(12) [symmetric] by (auto simp: types_def)
  have n: "length line \<le> 511" using typing_length [OF assms(8)] assms(12) [symmetric] by simp
  define s2 where "s2 = (let s = kbd_set Flush False ptr s1;
        size = ld32 (mem s) (tty_tmp ptr) - tty_buf ptr;
        s = s\<lparr>mem := st32 (mem s) (tty_tmp ptr) (tty_buf ptr)\<rparr>
      in s\<lparr>mem := memcpy (mem s) buf (tty_buf ptr) size\<rparr>)"
  note tl = take_line [OF s1(5,6) n assms(11) s2_def]
  have "tty_read (irq_handler call) evs ptr buf len s = Some (of_nat (length line), s2, drop (Suc (length codes)) evs)"
    using s1(1) chk tl by (simp add: tty_read_def Let_def s2_def)
  moreover have "mem s2 a = mem s a" if "a \<notin> tty_bytes ptr" "a \<notin> region buf (length line)" for a
    using that tl s1(2) start by (auto simp: tty_bytes_def types_def moves_def)
  moreover have "s2 = s\<lparr>mem := mem s2, io := io s2, log := log s2\<rparr>"
  proof -
    obtain m t l where s1': "s1 = s\<lparr>mem := m, io := t, log := l\<rparr>" using moves_eq [OF s1(2)] by auto
    show ?thesis unfolding s2_def s1' by (simp add: Let_def kbd_set_def)
  qed
  moreover have "quiet (log s) (log s2)" using s1(2) by (simp add: moves_def s2_def Let_def kbd_set_def)
  ultimately show ?thesis using tl by blast
qed

section \<open>Properties\<close>

text \<open>
  C5: tty_read. On a terminal whose keyboard is registered, while the user types the scan codes
  given and then the enter key (each code with its interrupt), tty_read returns after exactly these
  interrupts the line an abstract editor makes of the codes, with shift, caps lock and backspace,
  and copies exactly these characters to the destination; nothing but the terminal, the screen and
  the destination changes.
\<close>

theorem tty_read_line:
  fixes s :: "'a tty_scheme"
  assumes "kbd_inv hw r img ptr 0 (sh, cp, old) s" and "kbd_hooked img ptr s" and "\<not> kbd_get Flush ptr s"
    and "call (img Kbd_irq) = (\<lambda>regs t. Some (Returns (kbd_irq hw img regs t)))" and "unat ptr + 524 \<le> 2 ^ 32"
    and "keyboard hw cs" and "drop (inputs 0x60 (io s)) cs = codes @ ENTER # rest" and "typing_ok codes (sh, cp, [])"
    and "length codes < length evs" and "list_all (\<lambda>v. r_int_no v = 33) evs"
    and "region buf 511 \<inter> region ptr 524 = {}" and "(sh', cp', line) = fold key codes (sh, cp, [])"
  shows "\<exists>s'. tty_read (irq_handler call) evs ptr buf len s = Some (of_nat (length line), s', drop (Suc (length codes)) evs)
    \<and> rd (mem s') buf (length line) = line \<and> \<not> kbd_get Flush ptr s'
    \<and> (\<forall>a. a \<notin> tty_bytes ptr \<longrightarrow> a \<notin> region buf (length line) \<longrightarrow> mem s' a = mem s a)"
  using read_line [where s = s and call = call and img = img and hw = hw and r = r and ptr = ptr and sh = sh and cp = cp and evs = evs
    and codes = codes and buf = buf and sh' = sh' and cp' = cp' and len = len, OF assms] by blast

text \<open>A machine with a screen and a keyboard on which someone types the codes \<open>cs\<close>.\<close>

definition desk_hw :: "crtc \<Rightarrow> byte list \<Rightarrow> hw" where
  "desk_hw c cs tr port = (if port = 0x60 then ucast (cs ! inputs 0x60 tr) else crtc_hw c tr port)"

lemma desk_hw_ok: "is_crtc (desk_hw c cs) c" "keyboard (desk_hw c cs) cs"
proof -
  have "ucast (ucast b :: u32) = b" for b :: byte by (rule bit_word_eqI) (simp add: bit_simps)
  then show "keyboard (desk_hw c cs) cs" by (simp add: keyboard_def desk_hw_def)
  show "is_crtc (desk_hw c cs) c" using crtc_hw_ok [of c] by (simp add: is_crtc_def desk_hw_def VGA_DATA_def VGA_CMD_def)
qed

definition desk_img :: image where
  "desk_img = (\<lambda>_. 0)(Scancode_set := 0x1000, Shift_set := 0x1100, Kbd_irq := 0x3000)"

definition desk :: tty where
  "desk = (tty_at (st32 (st32 (wr (wr (\<lambda>_. 0) 0x1000 scancode_set) 0x1100 shift_set) 0x2084 0x3000) 0x400213 0x400013) 0x400010)\<lparr>handlers := 0x2000\<rparr>"

lemma desk_ok:
  assumes c: "c = cursor_regs 0 0"
  shows "kbd_inv (desk_hw c cs) c desk_img 0x400010 0 (False, False, []) desk" "kbd_hooked desk_img 0x400010 desk"
    "\<not> kbd_get Flush 0x400010 desk" "io desk = []"
proof -
  let ?m = "mem desk"
  have len: "length scancode_set = 59" "length shift_set = 59" by (simp_all add: table_codes)
  have apart: "region a 59 \<inter> tty_bytes 0x400010 = {}" if "a \<in> {0x1000, 0x1100}" for a
    using that sep_region [of a 59 VGA_BASE 4000] sep_region [of a 59 "0x400010" 524]
    by (auto simp: sep_def VGA_BASE_def tty_bytes_def)
  have fr: "?m x = wr (wr (\<lambda>_. 0) 0x1000 scancode_set) 0x1100 shift_set x" if "x \<in> region a 59" "a \<in> {0x1000, 0x1100}" for x a
    using that sep_region [of a 59 "0x2084" 4] sep_region [of a 59 "0x400213" 4]
    by (auto simp: desk_def tty_at_def sep_def st32_frame disjoint_iff)
  have "rd ?m 0x1100 59 = shift_set"
    using rd_wr [of shift_set "wr (\<lambda>_. 0) 0x1000 scancode_set" "0x1100"] rd_cong [of "0x1100" 59 ?m, OF fr] len by (simp del: rd_numeral)
  moreover have "rd ?m 0x1000 59 = scancode_set"
  proof -
    have "rd ?m 0x1000 59 = rd (wr (\<lambda>_. 0) 0x1000 scancode_set) 0x1000 59"
    proof (rule rd_cong)
      fix x :: addr assume x: "x \<in> region 0x1000 59"
      then have "x \<notin> region 0x1100 59" using sep_region [of "0x1000 :: addr" 59 "0x1100" 59] by (auto simp: sep_def)
      then show "?m x = wr (\<lambda>_. 0) 0x1000 scancode_set x" using fr [OF x] wr_frame [of x "0x1100" shift_set] len by simp
    qed simp
    then show ?thesis using rd_wr [of scancode_set "\<lambda>_. 0" "0x1000"] len by (simp del: rd_numeral)
  qed
  moreover have bp: "ld32 ?m 0x400213 = 0x400013" by (simp add: desk_def tty_at_def)
  moreover have k: "?m 0x40021B = 0"
  proof -
    have "(0x40021B :: addr) \<notin> region 0x400213 4" "(0x40021B :: addr) \<notin> region 0x2084 4" "(0x40021B :: addr) \<notin> region 0x1000 59" "(0x40021B :: addr) \<notin> region 0x1100 59"
      by (simp_all add: region_def)
    then show ?thesis using len by (simp add: desk_def tty_at_def st32_frame wr_frame)
  qed
  moreover have "vt_ok (desk_hw c cs) c 0x400010 desk" "current_tty desk = 0x400010"
    using tty_at_ok(1) [OF c, of ?m "0x400010"] desk_hw_ok(1) by (simp_all add: vt_ok_def vt_state_def desk_def tty_at_def)
  ultimately show "kbd_inv (desk_hw c cs) c desk_img 0x400010 0 (False, False, []) desk" using apart
    by (simp add: kbd_inv_def desk_img_def line_at_def tty_offsets kbd_get_def del: rd_numeral)
  show "\<not> kbd_get Flush 0x400010 desk" using k by (simp add: kbd_get_def tty_kbd_def)
  have "sep (0x2084 :: addr) 4 0x400213 4" by (simp add: sep_def)
  moreover have "region 0x2084 4 \<inter> tty_bytes 0x400010 = {}"
    using sep_region [of "0x2084 :: addr" 4 VGA_BASE 4000] sep_region [of "0x2084 :: addr" 4 "0x400010" 524]
    by (auto simp: sep_def VGA_BASE_def tty_bytes_def)
  ultimately show "kbd_hooked desk_img 0x400010 desk"
    by (simp add: kbd_hooked_def desk_img_def handler_at_def desk_def tty_at_def ld32_st32_other)
  show "io desk = []" by (simp add: desk_def tty_at_def)
qed

theorem tty_read_line_witness:
  "\<exists>s'. tty_read (irq_handler (\<lambda>a regs t. Some (Returns (kbd_irq (desk_hw (cursor_regs 0 0) [0x2A, 0x23, 0xAA, 0x17, 0x2D, 0x0E, 0x1C]) desk_img regs t))))
      (replicate 7 (vector_regs 33)) 0x400010 0x5000 100 desk = Some (2, s', []) \<and> rd (mem s') 0x5000 2 = [0x48, 0x69]"
proof -
  let ?cs = "[0x2A, 0x23, 0xAA, 0x17, 0x2D, 0x0E, 0x1C] :: byte list" and ?codes = "[0x2A, 0x23, 0xAA, 0x17, 0x2D, 0x0E] :: byte list"
  let ?hw = "desk_hw (cursor_regs 0 0) ?cs"
  let ?call = "\<lambda>a regs t. Some (Returns (kbd_irq ?hw desk_img regs t))"
  note codes_def = key_def sym_def table_codes toupper_def tolower_def promote_def key_ok_def
    TAB_def CTRL_def LSHIFT_def RSHIFT_def CAPS_def ALT_def ENTER_def BACKSPACE_def
  have line: "fold key ?codes (False, False, []) = (False, False, [0x48, 0x69])" by (simp add: codes_def)
  have typing: "typing_ok ?codes (False, False, [])" by (simp add: codes_def)
  have d: "drop (inputs 0x60 (io desk)) ?cs = ?codes @ ENTER # []" by (simp add: desk_ok(4) [OF refl] ENTER_def)
  have "region 0x5000 511 \<inter> region (0x400010 :: addr) 524 = {}" by (rule sep_region) (simp add: sep_def)
  from tty_read_line [where call = ?call and evs = "replicate 7 (vector_regs 33)" and len = 100,
      OF desk_ok(1-3) [OF refl] refl _ desk_hw_ok(2) d typing _ _ this line [symmetric]]
  show ?thesis by (auto simp: vector_regs_def list_all_iff)
qed

end
