(* ===== verification/Ramdisk.thy ===== *)
theory Ramdisk
  imports Device Heap_Client Pit
begin

text \<open>
  The RAM disk driver (kernel/dev/ramdisk.c): a structure in the heap with the address and the
  size of a region of memory.
\<close>

section \<open>Operations\<close>

definition rd_addr :: "addr \<Rightarrow> addr" where "rd_addr r = r"
definition rd_size :: "addr \<Rightarrow> addr" where "rd_size r = r + 4"
definition sizeof_ramdisk :: u32 where "sizeof_ramdisk = 8"
definition RD_SETADDR :: u32 where "RD_SETADDR = 0x01"
definition RD_SETSIZE :: u32 where "RD_SETSIZE = 0x02"
definition RD_GETADDR :: u32 where "RD_GETADDR = 0x11"
definition RD_GETSIZE :: u32 where "RD_GETSIZE = 0x12"

definition ramdisk_open :: "addr \<Rightarrow> u32 \<Rightarrow> 'a heap_scheme \<Rightarrow> (u32 \<times> 'a heap_scheme) option" where
  "ramdisk_open dev flags s =
     (if ld32 (mem s) (dev_data dev) = 0
      then do {
        r \<leftarrow> kmalloc s sizeof_ramdisk;
        Some (0, (snd r)\<lparr>mem := st32 (mem (snd r)) (dev_data dev) (fst r)\<rparr>)
      }
      else Some (- EBUSY, s\<lparr>errno := EBUSY\<rparr>))"

definition ramdisk_close :: "addr \<Rightarrow> 'a heap_scheme \<Rightarrow> (u32 \<times> 'a heap_scheme) option" where
  "ramdisk_close dev s =
     (if ld32 (mem s) (dev_data dev) \<noteq> 0
      then do { s \<leftarrow> kfree s (ld32 (mem s) (dev_data dev)); Some (0, s) }
      else Some (0, s))"

definition ramdisk_ioctl :: "addr \<Rightarrow> u32 \<Rightarrow> addr \<Rightarrow> 'a machine_scheme \<Rightarrow> u32 \<times> 'a machine_scheme" where
  "ramdisk_ioctl dev request arg s =
     (let rd = ld32 (mem s) (dev_data dev)
      in if rd = 0 then (EINVAL, s)
         else if request = RD_SETADDR then (0, s\<lparr>mem := st32 (mem s) (rd_addr rd) (ld32 (mem s) arg)\<rparr>)
         else if request = RD_GETADDR then (0, s\<lparr>mem := st32 (mem s) arg (ld32 (mem s) (rd_addr rd))\<rparr>)
         else if request = RD_SETSIZE then (0, s\<lparr>mem := st32 (mem s) (rd_size rd) (ld32 (mem s) arg)\<rparr>)
         else if request = RD_GETSIZE then (0, s\<lparr>mem := st32 (mem s) arg (ld32 (mem s) (rd_size rd))\<rparr>)
         else (EINVAL, s))"

definition ramdisk_read :: "addr \<Rightarrow> addr \<Rightarrow> u32 \<Rightarrow> u32 \<Rightarrow> 'a machine_scheme \<Rightarrow> u32 \<times> 'a machine_scheme" where
  "ramdisk_read dev buf off len s =
     (let rd = ld32 (mem s) (dev_data dev);
          src = ld32 (mem s) (rd_addr rd) + off
      in if rd = 0 then (- EINVAL, s\<lparr>errno := EINVAL\<rparr>)
         else (len, s\<lparr>mem := memcpy (mem s) buf src len\<rparr>))"

section \<open>The driver behind the device table\<close>

text \<open>
  What the device layer relies on: the functions at the driver's addresses are the ones above, and
  the entry of the table has these addresses.
\<close>

locale ramdisk_driver =
  fixes img :: image and code :: "'a heap_scheme devcode"
  assumes read_code: "fn_read code (img Ramdisk_read) dev buf off len s = Some (ramdisk_read dev buf off len s)"
    and open_code: "fn_open code (img Ramdisk_open) dev flags s = ramdisk_open dev flags s"
    and close_code: "fn_close code (img Ramdisk_close) dev s = ramdisk_close dev s"
    and ioctl_code: "fn_ioctl code (img Ramdisk_ioctl) dev req args s = Some (ramdisk_ioctl dev req args s)"

text \<open>The entry of the RAM disk, and a disk whose region starts at \<open>a\<close>.\<close>

definition ramdisk_entry :: "image \<Rightarrow> mem \<Rightarrow> bool" where
  "ramdisk_entry img m \<longleftrightarrow> (let d = dev_ptr img DEV_RAMDISK in
     ld32 m (dev_write_fn d) = 0 \<and> ld32 m (dev_read_fn d) = img Ramdisk_read \<and> ld32 m (dev_open_fn d) = img Ramdisk_open
     \<and> ld32 m (dev_close_fn d) = img Ramdisk_close \<and> ld32 m (dev_ioctl_fn d) = img Ramdisk_ioctl
     \<and> img Ramdisk_read \<noteq> 0 \<and> img Ramdisk_open \<noteq> 0 \<and> img Ramdisk_close \<noteq> 0 \<and> img Ramdisk_ioctl \<noteq> 0)"

definition ramdisk_at :: "image \<Rightarrow> mem \<Rightarrow> addr \<Rightarrow> bool" where
  "ramdisk_at img m a \<longleftrightarrow> ramdisk_entry img m \<and> ld32 m (dev_data (dev_ptr img DEV_RAMDISK)) \<noteq> 0
     \<and> ld32 m (ld32 m (dev_data (dev_ptr img DEV_RAMDISK))) = a"

text \<open>The memory a read depends on: the entry and the structure.\<close>

definition ramdisk_meta :: "image \<Rightarrow> mem \<Rightarrow> addr set" where
  "ramdisk_meta img m = region (dev_ptr img DEV_RAMDISK) 44 \<union> region (ld32 m (dev_data (dev_ptr img DEV_RAMDISK))) 8"

section \<open>Lemmas\<close>

lemma dev_fields:
  "sep (dev_offset d) 4 (dev_data d) 4" "sep (dev_offset d) 4 (dev_write_fn d) 4" "sep (dev_offset d) 4 (dev_read_fn d) 4"
  "sep (dev_offset d) 4 (dev_open_fn d) 4" "sep (dev_offset d) 4 (dev_close_fn d) 4" "sep (dev_offset d) 4 (dev_ioctl_fn d) 4"
  by (simp_all add: sep_def dev_offset_def dev_data_def dev_write_fn_def dev_read_fn_def dev_open_fn_def dev_close_fn_def dev_ioctl_fn_def)

lemma field_in: "i + 4 \<le> 44 \<Longrightarrow> region (d + of_nat i) 4 \<subseteq> region d 44"
  by (intro region_sub) auto

lemma dev_field_in:
  "region (dev_offset d) 4 \<subseteq> region d 44" "region (dev_data d) 4 \<subseteq> region d 44" "region (dev_write_fn d) 4 \<subseteq> region d 44"
  "region (dev_read_fn d) 4 \<subseteq> region d 44" "region (dev_open_fn d) 4 \<subseteq> region d 44" "region (dev_close_fn d) 4 \<subseteq> region d 44"
  "region (dev_ioctl_fn d) 4 \<subseteq> region d 44"
  using field_in [of 16 d] field_in [of 20 d] field_in [of 24 d] field_in [of 28 d] field_in [of 32 d] field_in [of 36 d] field_in [of 40 d]
  by (simp_all add: dev_offset_def dev_data_def dev_write_fn_def dev_read_fn_def dev_open_fn_def dev_close_fn_def dev_ioctl_fn_def)

lemma ramdisk_cong:
  assumes at: "ramdisk_at img m a" and same: "\<And>x. x \<in> ramdisk_meta img m \<Longrightarrow> x \<notin> region (dev_offset (dev_ptr img DEV_RAMDISK)) 4 \<Longrightarrow> m' x = m x"
    and apart: "region (ld32 m (dev_data (dev_ptr img DEV_RAMDISK))) 8 \<inter> region (dev_offset (dev_ptr img DEV_RAMDISK)) 4 = {}"
  shows "ramdisk_at img m' a \<and> ramdisk_meta img m' = ramdisk_meta img m"
proof -
  let ?d = "dev_ptr img DEV_RAMDISK" and ?r = "ld32 m (dev_data (dev_ptr img DEV_RAMDISK))"
  have f: "ld32 m' p = ld32 m p" if "region p 4 \<subseteq> region ?d 44" "sep (dev_offset ?d) 4 p 4" for p
    using that(1) same sep_region [OF that(2)] by (intro ld32_cong) (auto simp: ramdisk_meta_def)
  note g = f [OF dev_field_in(2) dev_fields(1)] f [OF dev_field_in(3) dev_fields(2)] f [OF dev_field_in(4) dev_fields(3)]
    f [OF dev_field_in(5) dev_fields(4)] f [OF dev_field_in(6) dev_fields(5)] f [OF dev_field_in(7) dev_fields(6)]
  have "region ?r 4 \<subseteq> region ?r 8" by (rule region_mono) simp
  then have "ld32 m' ?r = ld32 m ?r" using same apart by (intro ld32_cong) (auto simp: ramdisk_meta_def)
  then show ?thesis using at g by (simp add: ramdisk_at_def ramdisk_entry_def ramdisk_meta_def Let_def)
qed

text \<open>The offset field as a word of the table.\<close>

definition ramdisk_offset :: "image \<Rightarrow> mem \<Rightarrow> u32" where
  "ramdisk_offset img m = ld32 m (dev_offset (dev_ptr img DEV_RAMDISK))"

text \<open>A destination for \<open>n\<close> bytes: apart from the driver's data and not inside the source.\<close>

definition dest_ok :: "image \<Rightarrow> mem \<Rightarrow> addr \<Rightarrow> addr \<Rightarrow> u32 \<Rightarrow> bool" where
  "dest_ok img m src buf n \<longleftrightarrow> region buf (unat n) \<inter> ramdisk_meta img m = {} \<and> unat n \<le> unat (buf - src)"

context ramdisk_driver
begin

lemma dev_read_ramdisk:
  fixes s :: "'a heap_scheme"
  assumes at: "ramdisk_at img (mem s) a" and n: "0 < sint n" and src: "src = a + ramdisk_offset img (mem s)"
    and dest: "dest_ok img (mem s) src buf n"
    and apart: "region (ld32 (mem s) (dev_data (dev_ptr img DEV_RAMDISK))) 8 \<inter> region (dev_offset (dev_ptr img DEV_RAMDISK)) 4 = {}"
  shows "\<exists>m. dev_read img code DEV_RAMDISK buf n s = Some (n, s\<lparr>mem := m\<rparr>)
    \<and> rd m buf (unat n) = rd (mem s) src (unat n) \<and> ramdisk_at img m a
    \<and> ramdisk_offset img m = ramdisk_offset img (mem s) + n \<and> ramdisk_meta img m = ramdisk_meta img (mem s)
    \<and> (\<forall>x. x \<notin> region buf (unat n) \<longrightarrow> x \<notin> region (dev_offset (dev_ptr img DEV_RAMDISK)) 4 \<longrightarrow> m x = mem s x)"
proof -
  let ?d = "dev_ptr img DEV_RAMDISK"
  let ?o = "dev_offset ?d" and ?m1 = "wr (mem s) buf (rd (mem s) src (unat n))"
  let ?m = "st32 ?m1 ?o (ld32 ?m1 ?o + n)"
  have om: "region ?o 4 \<subseteq> ramdisk_meta img (mem s)" using dev_field_in(1) by (auto simp: ramdisk_meta_def)
  then have ob: "region ?o 4 \<inter> region buf (unat n) = {}" using dest by (auto simp: dest_ok_def)
  have b: "unat n \<le> 2 ^ 32" using unat_lt32 [of n] by simp
  have m1: "?m1 x = mem s x" if "x \<notin> region buf (unat n)" for x using wr_frame [of x buf "rd (mem s) src (unat n)"] that b by simp
  have "ld32 ?m1 ?o = ld32 (mem s) ?o" using ob m1 by (intro ld32_cong) auto
  then have off: "ramdisk_offset img ?m = ramdisk_offset img (mem s) + n" by (simp add: ramdisk_offset_def)
  have cp: "memcpy (mem s) buf src n = ?m1" using dest memcpy_wr [of buf src n "mem s"] by (auto simp: dest_ok_def)
  have run: "dev_read img code DEV_RAMDISK buf n s = Some (n, s\<lparr>mem := ?m\<rparr>)"
    using at n cp src
    by (simp add: dev_read_def ramdisk_at_def ramdisk_entry_def read_code ramdisk_read_def Let_def rd_addr_def ramdisk_offset_def)
  have rdb: "rd ?m buf (unat n) = rd (mem s) src (unat n)"
  proof -
    have "rd ?m buf (unat n) = rd ?m1 buf (unat n)" using ob b by (intro rd_cong st32_frame) auto
    then show ?thesis using rd_wr [of "rd (mem s) src (unat n)" "mem s" buf] b by simp
  qed
  have fr: "?m x = mem s x" if "x \<notin> region buf (unat n)" "x \<notin> region ?o 4" for x
    using that m1 [of x] st32_frame [of x ?o ?m1] by simp
  have "ramdisk_at img ?m a \<and> ramdisk_meta img ?m = ramdisk_meta img (mem s)"
    using dest by (intro ramdisk_cong [OF at _ apart] fr) (auto simp: dest_ok_def)
  with run off rdb fr show ?thesis by (intro exI [of _ ?m]) blast
qed

text \<open>Two reads in a row give two consecutive pieces of the disk.\<close>

lemma read_twice:
  fixes s :: "'a heap_scheme"
  assumes at: "ramdisk_at img (mem s) a" and n: "0 < sint n" "0 < sint k" and src: "src = a + ramdisk_offset img (mem s)"
    and apart: "region (ld32 (mem s) (dev_data (dev_ptr img DEV_RAMDISK))) 8 \<inter> region (dev_offset (dev_ptr img DEV_RAMDISK)) 4 = {}"
    and dest: "dest_ok img (mem s) src buf n" "dest_ok img (mem s) (src + n) buf2 k"
    and keep: "region buf (unat n) \<inter> region buf2 (unat k) = {}" "region (src + n) (unat k) \<inter> region buf (unat n) = {}"
      "region (src + n) (unat k) \<inter> region (dev_offset (dev_ptr img DEV_RAMDISK)) 4 = {}"
  shows "\<exists>s1 s2. dev_read img code DEV_RAMDISK buf n s = Some (n, s1) \<and> dev_read img code DEV_RAMDISK buf2 k s1 = Some (k, s2)
    \<and> rd (mem s2) buf (unat n) = rd (mem s) src (unat n) \<and> rd (mem s2) buf2 (unat k) = rd (mem s) (src + n) (unat k)"
proof -
  let ?d = "dev_ptr img DEV_RAMDISK"
  obtain m1 where f: "dev_read img code DEV_RAMDISK buf n s = Some (n, s\<lparr>mem := m1\<rparr>)"
    "rd m1 buf (unat n) = rd (mem s) src (unat n)" "ramdisk_at img m1 a"
    "ramdisk_offset img m1 = ramdisk_offset img (mem s) + n" "ramdisk_meta img m1 = ramdisk_meta img (mem s)"
    "\<And>x. x \<notin> region buf (unat n) \<Longrightarrow> x \<notin> region (dev_offset ?d) 4 \<Longrightarrow> m1 x = mem s x"
    using dev_read_ramdisk [OF at n(1) src dest(1) apart] by blast
  have "region (dev_data ?d) 4 \<subseteq> ramdisk_meta img (mem s)" using dev_field_in(2) by (auto simp: ramdisk_meta_def)
  then have same: "ld32 m1 (dev_data ?d) = ld32 (mem s) (dev_data ?d)"
    using f(6) dest(1) sep_region [OF dev_fields(1) [of ?d]] by (intro ld32_cong) (auto simp: dest_ok_def)
  have src2: "src + n = a + ramdisk_offset img m1" by (simp add: f(4) src)
  have d2: "dest_ok img m1 (src + n) buf2 k" using dest(2) f(5) by (simp add: dest_ok_def)
  obtain m2 where g: "dev_read img code DEV_RAMDISK buf2 k (s\<lparr>mem := m1\<rparr>) = Some (k, s\<lparr>mem := m2\<rparr>)"
    "rd m2 buf2 (unat k) = rd m1 (src + n) (unat k)"
    "\<And>x. x \<notin> region buf2 (unat k) \<Longrightarrow> x \<notin> region (dev_offset ?d) 4 \<Longrightarrow> m2 x = m1 x"
    using dev_read_ramdisk [of "s\<lparr>mem := m1\<rparr>" a k "src + n" buf2] f(3) n(2) src2 d2 apart same by auto
  have b: "unat k \<le> 2 ^ 32" "unat n \<le> 2 ^ 32" using unat_lt32 [of k] unat_lt32 [of n] by simp_all
  have "rd m1 (src + n) (unat k) = rd (mem s) (src + n) (unat k)" using keep b f(6) by (intro rd_cong) auto
  moreover have "rd m2 buf (unat n) = rd m1 buf (unat n)"
  proof (rule rd_cong)
    fix x assume x: "x \<in> region buf (unat n)"
    have "region (dev_offset ?d) 4 \<subseteq> ramdisk_meta img (mem s)" using dev_field_in(1) by (auto simp: ramdisk_meta_def)
    then have "x \<notin> region (dev_offset ?d) 4" using x dest(1) by (auto simp: dest_ok_def)
    then show "m2 x = m1 x" using x keep(1) g(3) by auto
  qed (rule b)
  ultimately show ?thesis using f(1,2) g(1,2) by (intro exI [of _ "s\<lparr>mem := m1\<rparr>"] exI [of _ "s\<lparr>mem := m2\<rparr>"]) simp
qed

lemma dev_write_refused:
  assumes "ramdisk_entry img (mem s)"
  shows "dev_write img code DEV_RAMDISK buf n s = Some (- ENOSYS, s\<lparr>errno := ENOSYS\<rparr>)"
  using assms by (simp add: dev_write_def ramdisk_entry_def no_such_def Let_def)

end

lemma data_fields:
  "sep (dev_data d) 4 (dev_write_fn d) 4" "sep (dev_data d) 4 (dev_read_fn d) 4" "sep (dev_data d) 4 (dev_open_fn d) 4"
  "sep (dev_data d) 4 (dev_close_fn d) 4" "sep (dev_data d) 4 (dev_ioctl_fn d) 4"
  by (simp_all add: sep_def dev_data_def dev_write_fn_def dev_read_fn_def dev_open_fn_def dev_close_fn_def dev_ioctl_fn_def)

context ramdisk_driver
begin

lemma open_setaddr:
  fixes s :: "'a heap_scheme"
  defines "d \<equiv> dev_ptr img DEV_RAMDISK"
  assumes ok: "heap_ok s bs" "fits bs 8" and entry: "ramdisk_entry img (mem s)" "ld32 (mem s) (dev_data d) = 0"
    and out: "outside_heap d 44" "outside_heap arg 4" and arg: "region arg 4 \<inter> region d 44 = {}"
  shows "\<exists>s1 s2 cs. dev_open img code DEV_RAMDISK flags s = Some (0, s1) \<and> dev_ioctl img code DEV_RAMDISK RD_SETADDR arg s1 = Some (0, s2)
    \<and> heap_ok s2 cs \<and> owns cs (ld32 (mem s2) (dev_data d)) 8 \<and> ramdisk_at img (mem s2) (ld32 (mem s) arg)
    \<and> (\<forall>x. outside x \<longrightarrow> x \<notin> region d 44 \<longrightarrow> mem s2 x = mem s x)"
proof -
  let ?s0 = "s\<lparr>mem := st32 (mem s) (dev_offset d) 0\<rparr>"
  note f = dev_fields [of d] and fin = dev_field_in [of d]
  have m0: "mem ?s0 x = mem s x" if "x \<notin> region (dev_offset d) 4" for x using that by (simp add: st32_frame)
  have ok0: "heap_ok ?s0 bs"
    using out(1) fin(1) by (intro heap_ok_outside [OF ok(1)] st32_frame) (auto simp: outside_heap_def)
  obtain p m l cs where k: "kmalloc ?s0 8 = Some (p, ?s0\<lparr>log := l, mem := m\<rparr>)" "heap_ok (?s0\<lparr>log := l, mem := m\<rparr>) cs"
    "grows bs cs p 8" "keeps bs (mem ?s0) m"
    using kmalloc_zeroed [OF ok0, of 8] ok(2) by auto
  have o: "owns cs p 8" using k(3) by (simp add: grows_def)
  have p0: "p \<noteq> 0" using owns_range [OF k(2) o] by auto
  have pd: "region p 8 \<inter> region d 44 = {}" using out(1) owns_outside [OF k(2) o] by (auto simp: outside_heap_def)
  have mo: "m x = mem ?s0 x" if "outside x" for x using keeps_outside [OF k(4) that] .
  let ?m1 = "st32 m (dev_data d) p"
  let ?s1 = "?s0\<lparr>log := l, mem := ?m1\<rparr>"
  let ?s2 = "?s0\<lparr>log := l, mem := st32 ?m1 p (ld32 ?m1 arg)\<rparr>"
  have fld: "ld32 m q = ld32 (mem s) q" if "region q 4 \<subseteq> region d 44" "sep (dev_offset d) 4 q 4" for q
  proof (rule ld32_cong)
    fix x assume x: "x \<in> region q 4"
    then have "outside x" using that(1) out(1) by (auto simp: outside_heap_def)
    moreover have "x \<notin> region (dev_offset d) 4" using x sep_region [OF that(2)] by auto
    ultimately show "m x = mem s x" using mo m0 by simp
  qed
  have run1: "dev_open img code DEV_RAMDISK flags s = Some (0, ?s1)"
    using k(1) entry f(1,4) by (simp add: dev_open_def ramdisk_entry_def Let_def d_def [symmetric] ld32_st32_other sep_sym open_code
      ramdisk_open_def sizeof_ramdisk_def)
  let ?m2 = "mem ?s2"
  have p8: "?m2 x = ?m1 x" if "x \<notin> region p 8" for x
    using that region_mono [of 4 8 p] st32_frame [of x p ?m1 "ld32 ?m1 arg"] by auto
  have far: "ld32 ?m2 q = ld32 ?m1 q" if "region q 4 \<subseteq> region d 44" for q
    using that pd by (intro ld32_cong p8) auto
  have d8: "?m1 x = m x" if "x \<notin> region d 44" for x using that fin(2) by (intro st32_frame) auto
  have data: "ld32 ?m2 (dev_data d) = p" using far [OF fin(2)] by simp
  have fld2: "ld32 ?m1 q = ld32 (mem s) q" if "region q 4 \<subseteq> region d 44" "sep (dev_offset d) 4 q 4" "sep (dev_data d) 4 q 4" for q
    using fld [OF that(1,2)] that(3) by (simp add: ld32_st32_other sep_sym)
  note g = fld2 [OF fin(3) f(2) data_fields(1)] fld2 [OF fin(4) f(3) data_fields(2)] fld2 [OF fin(5) f(4) data_fields(3)]
    fld2 [OF fin(6) f(5) data_fields(4)] fld2 [OF fin(7) f(6) data_fields(5)]
  have e2: "ramdisk_entry img ?m2" "ramdisk_entry img ?m1"
    using entry(1) g far [OF fin(3)] far [OF fin(4)] far [OF fin(5)] far [OF fin(6)] far [OF fin(7)]
    by (simp_all add: ramdisk_entry_def d_def)
  have run2: "dev_ioctl img code DEV_RAMDISK RD_SETADDR arg ?s1 = Some (0, ?s2)"
    using e2(2) p0 by (simp add: dev_ioctl_def ramdisk_entry_def Let_def d_def ioctl_code ramdisk_ioctl_def rd_addr_def)
  have fr: "?m2 x = mem s x" if "outside x" "x \<notin> region d 44" for x
    using p8 [OF owns_outside [OF k(2) o that(1)]] d8 [OF that(2)] mo [OF that(1)] m0 [of x] that(2) fin(1) by auto
  have a: "ld32 ?m1 arg = ld32 (mem s) arg"
  proof (rule ld32_cong)
    fix x assume x: "x \<in> region arg 4"
    then have "outside x" "x \<notin> region d 44" using out(2) arg by (auto simp: outside_heap_def)
    then show "?m1 x = mem s x" using d8 [of x] mo [of x] m0 [of x] fin(1) by auto
  qed
  have at: "ramdisk_at img ?m2 (ld32 (mem s) arg)" using e2(1) data p0 a by (simp add: ramdisk_at_def d_def)
  have "heap_ok ?s1 cs"
    using heap_ok_outside [OF k(2), of ?m1] out(1) d8 by (auto simp: outside_heap_def)
  from owns_store [OF this o, of ?m2] p8 have "heap_ok ?s2 cs" by simp
  then show ?thesis using run1 run2 at o data fr by (intro exI [of _ ?s1] exI [of _ ?s2] exI [of _ cs]) simp
qed

lemma disk_session:
  fixes s :: "'a heap_scheme"
  defines "d \<equiv> dev_ptr img DEV_RAMDISK"
  assumes ok: "heap_ok s bs" "fits bs 8" and entry: "ramdisk_entry img (mem s)" "ld32 (mem s) (dev_data d) = 0"
    and out: "outside_heap d 44" "outside_heap arg 4" and arg: "region arg 4 \<inter> region d 44 = {}" "src = ld32 (mem s) arg + off"
    and n: "0 < sint n" and buf: "outside_heap buf (unat n)" "region buf (unat n) \<inter> region d 44 = {}"
    and src: "outside_heap src (unat n)" "region src (unat n) \<inter> region d 44 = {}" "unat n \<le> unat (buf - src)"
  shows "\<exists>s1 s2 s3 s4 cs. dev_open img code DEV_RAMDISK flags s = Some (0, s1) \<and> dev_ioctl img code DEV_RAMDISK RD_SETADDR arg s1 = Some (0, s2)
    \<and> dev_seek img DEV_RAMDISK off SEEK_SET s2 = (off, s3) \<and> dev_read img code DEV_RAMDISK buf n s3 = Some (n, s4)
    \<and> rd (mem s4) buf (unat n) = rd (mem s) src (unat n) \<and> heap_ok s4 cs"
proof -
  obtain s1 s2 cs where a: "dev_open img code DEV_RAMDISK flags s = Some (0, s1)"
    "dev_ioctl img code DEV_RAMDISK RD_SETADDR arg s1 = Some (0, s2)" "heap_ok s2 cs" "owns cs (ld32 (mem s2) (dev_data d)) 8"
    "ramdisk_at img (mem s2) (ld32 (mem s) arg)" "\<And>x. outside x \<Longrightarrow> x \<notin> region d 44 \<Longrightarrow> mem s2 x = mem s x"
    using open_setaddr [of s bs arg flags] ok entry out arg(1) unfolding d_def by blast
  let ?r = "ld32 (mem s2) (dev_data d)" and ?m3 = "st32 (mem s2) (dev_offset d) off"
  let ?s3 = "s2\<lparr>mem := ?m3\<rparr>"
  have seek: "dev_seek img DEV_RAMDISK off SEEK_SET s2 = (off, ?s3)" by (simp add: dev_seek_at d_def)
  have b: "unat n \<le> 2 ^ 32" using unat_lt32 [of n] by simp
  have rout: "x \<notin> region ?r 8" if "outside x" for x by (rule owns_outside [OF a(3,4) that])
  have off_d: "region (dev_offset d) 4 \<subseteq> region d 44" by (rule dev_field_in)
  have rd: "region ?r 8 \<inter> region (dev_offset d) 4 = {}" using rout off_d out(1) by (auto simp: outside_heap_def)
  have at3: "ramdisk_at img ?m3 (ld32 (mem s) arg)" "ramdisk_meta img ?m3 = ramdisk_meta img (mem s2)"
    using ramdisk_cong [OF a(5), of ?m3] rd by (auto simp: d_def st32_frame)
  have r3: "ld32 ?m3 (dev_data d) = ?r" using dev_fields(1) [of d] by (simp add: ld32_st32_other sep_sym)
  have o3: "ramdisk_offset img ?m3 = off" by (simp add: ramdisk_offset_def d_def)
  have "region buf (unat n) \<inter> ramdisk_meta img ?m3 = {}"
    using buf rout at3(2) by (auto simp: ramdisk_meta_def outside_heap_def d_def)
  then have dest: "dest_ok img (mem ?s3) src buf n" using src(3) by (simp add: dest_ok_def)
  obtain m4 where r: "dev_read img code DEV_RAMDISK buf n ?s3 = Some (n, ?s3\<lparr>mem := m4\<rparr>)" "rd m4 buf (unat n) = rd ?m3 src (unat n)"
    "\<And>x. x \<notin> region buf (unat n) \<Longrightarrow> x \<notin> region (dev_offset d) 4 \<Longrightarrow> m4 x = ?m3 x"
    using dev_read_ramdisk [of ?s3 "ld32 (mem s) arg" n src buf] at3(1) n arg(2) o3 dest rd r3 unfolding d_def by auto
  have "m4 x = mem s2 x" if "\<not> outside x" for x
    using r(3) [of x] that buf(1) off_d out(1) st32_frame [of x "dev_offset d" "mem s2" off] by (auto simp: outside_heap_def)
  then have "heap_ok (s2\<lparr>mem := m4\<rparr>) cs" by (rule heap_ok_outside [OF a(3)])
  moreover have "rd ?m3 src (unat n) = rd (mem s) src (unat n)"
  proof (rule rd_cong [OF _ b])
    fix x assume "x \<in> region src (unat n)"
    then have "outside x" "x \<notin> region d 44" using src by (auto simp: outside_heap_def)
    then show "?m3 x = mem s x" using a(6) [of x] off_d st32_frame [of x "dev_offset d" "mem s2" off] by auto
  qed
  ultimately show ?thesis using a(1,2) seek r(1,2)
    by (intro exI [of _ s1] exI [of _ s2] exI [of _ ?s3] exI [of _ "s2\<lparr>mem := m4\<rparr>"] exI [of _ cs]) simp
qed

end

section \<open>The initial table\<close>

lemma loaded_entry:
  assumes "devs_loaded img m" "list_all (\<lambda>f. img f \<noteq> 0) [Ramdisk_read, Ramdisk_open, Ramdisk_close, Ramdisk_ioctl]"
  shows "ramdisk_entry img m \<and> ld32 m (dev_data (dev_ptr img DEV_RAMDISK)) = 0"
proof -
  have at: "ld32 m (img Devs + of_nat k) = w" if "k + 4 \<le> 88" "take 4 (drop k (devs_bytes img)) = word_bytes w" for k w
    using that assms(1) unfolding devs_loaded_def by (intro ld32_slice [of m "img Devs" 88]) auto
  note f = at [of 64 0] at [of 68 0] at [of 72 "img Ramdisk_read"] at [of 76 "img Ramdisk_open"] at [of 80 "img Ramdisk_close"] at [of 84 "img Ramdisk_ioctl"]
  have d: "length (name16 ''tty'') = 16" "length (name16 ''ramdisk'') = 16" "\<And>w. length (word_bytes w) = 4"
    by (simp_all add: name16_def bytes_def word_bytes_def)
  show ?thesis using f assms(2)
    by (simp add: devs_bytes_def d ramdisk_entry_def Let_def dev_ptr_def sizeof_device_def DEV_RAMDISK_def
      dev_data_def dev_write_fn_def dev_read_fn_def dev_open_fn_def dev_close_fn_def dev_ioctl_fn_def ac_simps)
qed

end
