(* ===== verification/Console.thy ===== *)
theory Console
  imports Tty Ramdisk Libc_Printf
begin

text \<open>
  The kernel behind its tables: the functions at the addresses stored in the handler table and in
  the device table, and the console calls of the C library (libc/output.c, libc/input.c) on them.
\<close>

section \<open>The code of the kernel\<close>

text \<open>
  The interrupts that arrive while the kernel waits for one are part of the state. An address of
  no function of the source has no meaning.
\<close>

record console = tty +
  pending :: "registers list"

definition kernel_call :: "hw \<Rightarrow> image \<Rightarrow> addr \<Rightarrow> 'a tty_scheme code" where
  "kernel_call hw img ebp a regs s =
     (if a = img Kbd_irq then Some (Returns (kbd_irq hw img regs s))
      else if a = img Pit_irq then Some (Returns (pit_irq regs s))
      else if a = img Zero_division then Some (zero_division regs s)
      else if a = img General_protection then Some (general_protection regs s)
      else if a = img Page_fault then page_fault ebp regs s
      else None)"

text \<open>A call that may wait takes the interrupts from the state and leaves the rest there.\<close>

definition waiting :: "(registers list \<Rightarrow> 'a console_scheme \<Rightarrow> ('r \<times> 'a console_scheme \<times> registers list) option)
   \<Rightarrow> 'a console_scheme \<Rightarrow> ('r \<times> 'a console_scheme) option" where
  "waiting f s = do { r \<leftarrow> f (pending s) s; Some (fst r, (fst (snd r))\<lparr>pending := snd (snd r)\<rparr>) }"

definition kernel_code :: "hw \<Rightarrow> image \<Rightarrow> addr \<Rightarrow> 'a console_scheme devcode" where
  "kernel_code hw img ebp = \<lparr>
     fn_write = (\<lambda>a dev buf len s.
       if a = img Ttydev_write then Some (ttydev_write hw dev buf len s) else None),
     fn_read = (\<lambda>a dev buf off len s.
       if a = img Ramdisk_read then Some (ramdisk_read dev buf off len s)
       else if a = img Ttydev_read
       then waiting (\<lambda>evs. ttydev_read (irq_handler (kernel_call hw img ebp)) evs dev buf off len) s else None),
     fn_open = (\<lambda>a dev flags s.
       if a = img Ramdisk_open then ramdisk_open dev flags s
       else if a = img Ttydev_open then ttydev_open hw img dev flags s else None),
     fn_close = (\<lambda>a dev s.
       if a = img Ramdisk_close then ramdisk_close dev s
       else if a = img Ttydev_close then ttydev_close hw dev s else None),
     fn_ioctl = (\<lambda>a dev request args s.
       if a = img Ramdisk_ioctl then Some (ramdisk_ioctl dev request args s)
       else if a = img Ttydev_ioctl then Some (ttydev_ioctl hw dev request args s) else None)\<rparr>"

interpretation kernel_disk: ramdisk_driver img "kernel_code hw img ebp" for img hw ebp
  by unfold_locales (simp_all add: kernel_code_def)

section \<open>output.c and input.c\<close>

text \<open>\<open>_puts\<close>; a variable whose address is passed on lives at the address \<open>sp\<close> on the stack.\<close>

definition raw_puts :: "hw \<Rightarrow> image \<Rightarrow> addr \<Rightarrow> addr \<Rightarrow> 'a console_scheme \<Rightarrow> (u32 \<times> 'a console_scheme) option" where
  "raw_puts hw img ebp str s = dev_write img (kernel_code hw img ebp) DEV_TTY str (strlen (mem s) str) s"

definition putchar :: "hw \<Rightarrow> image \<Rightarrow> addr \<Rightarrow> addr \<Rightarrow> u32 \<Rightarrow> 'a console_scheme \<Rightarrow> (u32 \<times> 'a console_scheme) option" where
  "putchar hw img ebp sp c s =
     do {
       r \<leftarrow> dev_write img (kernel_code hw img ebp) DEV_TTY sp 1 (s\<lparr>mem := st32 (mem s) sp c\<rparr>);
       Some (ld32 (mem (snd r)) sp, snd r)
     }"

text \<open>puts has no return statement: it gives a state only.\<close>

definition puts :: "hw \<Rightarrow> image \<Rightarrow> addr \<Rightarrow> addr \<Rightarrow> addr \<Rightarrow> 'a console_scheme \<Rightarrow> 'a console_scheme option" where
  "puts hw img ebp sp str s =
     do {
       r \<leftarrow> raw_puts hw img ebp str s;
       r \<leftarrow> putchar hw img ebp sp 0x0A (snd r);
       Some (snd r)
     }"

text \<open>
  vprintf and printf (libc/printf.c): \<open>buf\<close> is the local array, \<open>tmp\<close> that of vsprintf; printf
  takes its arguments from the stack words at \<open>args\<close>.
\<close>

definition vprintf :: "hw \<Rightarrow> image \<Rightarrow> addr \<Rightarrow> addr \<Rightarrow> addr \<Rightarrow> addr \<Rightarrow> addr \<Rightarrow> 'a console_scheme \<Rightarrow> (u32 \<times> 'a console_scheme) option" where
  "vprintf hw img ebp tmp buf fmt vlist s =
     do {
       r \<leftarrow> vsprintf (mem s) tmp buf fmt vlist;
       q \<leftarrow> raw_puts hw img ebp buf (s\<lparr>mem := fst r\<rparr>);
       Some (snd r, snd q)
     }"

definition printf :: "hw \<Rightarrow> image \<Rightarrow> addr \<Rightarrow> addr \<Rightarrow> addr \<Rightarrow> addr \<Rightarrow> addr \<Rightarrow> 'a console_scheme \<Rightarrow> (u32 \<times> 'a console_scheme) option" where
  "printf hw img ebp tmp buf fmt args s = vprintf hw img ebp tmp buf fmt args s"

definition getchar :: "hw \<Rightarrow> image \<Rightarrow> addr \<Rightarrow> 'a console_scheme \<Rightarrow> (u32 \<times> 'a console_scheme) option" where
  "getchar hw img ebp s =
     do {
       r \<leftarrow> waiting (\<lambda>evs. tty_readchar hw img (irq_handler (kernel_call hw img ebp)) evs 0) s;
       Some (promote (fst r), snd r)
     }"

definition BUFSIZ :: u32 where "BUFSIZ = 512"

definition gets :: "hw \<Rightarrow> image \<Rightarrow> addr \<Rightarrow> addr \<Rightarrow> 'a console_scheme \<Rightarrow> (addr \<times> 'a console_scheme) option" where
  "gets hw img ebp buf s =
     do {
       r \<leftarrow> waiting (\<lambda>evs. tty_read (irq_handler (kernel_call hw img ebp)) evs (current_tty s) buf BUFSIZ) s;
       Some (buf, snd r)
     }"

section \<open>Lemmas\<close>

subsection \<open>The console\<close>

text \<open>The terminal at \<open>ptr\<close> is the open device 0; its table entry is out of reach of the output.\<close>

definition console_at :: "image \<Rightarrow> addr \<Rightarrow> mem \<Rightarrow> bool" where
  "console_at img ptr m \<longleftrightarrow> img Ttydev_write \<noteq> 0 \<and> ld32 m (dev_write_fn (dev_ptr img DEV_TTY)) = img Ttydev_write
     \<and> ld32 m (dev_data (dev_ptr img DEV_TTY)) = ptr \<and> region (dev_ptr img DEV_TTY) 44 \<inter> out_bytes ptr = {}"

lemma console_cong:
  assumes "console_at img ptr m" "\<And>x. x \<in> region (dev_ptr img DEV_TTY) 44 \<Longrightarrow> m' x = m x"
  shows "console_at img ptr m'"
proof -
  have "ld32 m' q = ld32 m q" if "region q 4 \<subseteq> region (dev_ptr img DEV_TTY) 44" for q
    using that assms(2) by (intro ld32_cong) auto
  then show ?thesis using assms(1) dev_field_in [of "dev_ptr img DEV_TTY"] by (simp add: console_at_def)
qed

lemma dev_write_tty:
  "console_at img ptr (mem s) \<Longrightarrow> dev_write img (kernel_code hw img ebp) DEV_TTY buf len s = Some (tty_write hw ptr buf len s)"
  by (simp add: dev_write_def console_at_def kernel_code_def ttydev_write_def Let_def)

lemma console_write:
  assumes "console_at img ptr (mem s)" "vt_ok hw r ptr s" "region buf (unat len) \<inter> out_bytes ptr = {}" "0x08 \<notin> set (rd (mem s) buf (unat len))"
  shows "\<exists>s'. dev_write img (kernel_code hw img ebp) DEV_TTY buf len s = Some (len, s') \<and> vt_ok hw r ptr s' \<and> console_at img ptr (mem s')
    \<and> vt_state r s' = fold (vt_put (mem s ptr)) (rd (mem s) buf (unat len)) (vt_state r s)
    \<and> (\<forall>a. a \<notin> out_bytes ptr \<longrightarrow> mem s' a = mem s a) \<and> mem s' ptr = mem s ptr"
proof -
  obtain s' where w: "tty_write hw ptr buf len s = (len, s')" "vt_ok hw r ptr s'" "prints ptr s s'"
    "vt_state r s' = fold (vt_put (mem s ptr)) (rd (mem s) buf (unat len)) (vt_state r s)"
    using write_loop_vt [OF assms(3), of s 0 "unat len" hw r] assms(2,4) by (auto simp: tty_write_def)
  have fr: "mem s' a = mem s a" if "a \<notin> out_bytes ptr" for a using w(3) that by (simp add: prints_def)
  have "console_at img ptr (mem s')" using assms(1) fr by (intro console_cong [OF assms(1)] fr) (auto simp: console_at_def)
  moreover have "mem s' ptr = mem s ptr" using color_kept [OF _ w(3)] w(2) by (simp add: vt_ok_def)
  ultimately show ?thesis using w fr dev_write_tty [OF assms(1)] by auto
qed

lemma raw_puts_vt:
  assumes con: "console_at img ptr (mem s)" and vt: "vt_ok hw r ptr s"
    and str: "cstr (mem s) str txt" "length txt < 2 ^ 32 - 1" "0x08 \<notin> set txt" "region str (length txt) \<inter> out_bytes ptr = {}"
  shows "\<exists>s'. raw_puts hw img ebp str s = Some (of_nat (length txt), s') \<and> vt_ok hw r ptr s' \<and> console_at img ptr (mem s')
    \<and> vt_state r s' = fold (vt_put (mem s ptr)) txt (vt_state r s)
    \<and> (\<forall>a. a \<notin> out_bytes ptr \<longrightarrow> mem s' a = mem s a) \<and> mem s' ptr = mem s ptr"
proof -
  have n: "strlen (mem s) str = of_nat (length txt)" "unat (of_nat (length txt) :: u32) = length txt"
    using str(1,2) by (simp_all add: unat_of_nat32)
  have "rd (mem s) str (length txt) = txt" using str(1) by (simp add: cstr_iff)
  then show ?thesis using console_write [OF con vt, of str "of_nat (length txt)" ebp] str(3,4) n by (auto simp: raw_puts_def)
qed

text \<open>A store that the terminal does not see.\<close>

lemma console_store:
  fixes s :: "'a console_scheme"
  assumes "console_at img ptr (mem s)" "vt_ok hw r ptr s" "\<And>a. a \<notin> W \<Longrightarrow> m a = mem s a"
    and "W \<inter> (out_bytes ptr \<union> region (dev_ptr img DEV_TTY) 44 \<union> {ptr}) = {}"
  shows "console_at img ptr m \<and> vt_ok hw r ptr (s\<lparr>mem := m\<rparr>) \<and> vt_state r (s\<lparr>mem := m\<rparr>) = vt_state r s \<and> m ptr = mem s ptr"
proof -
  have "console_at img ptr m" using assms(4) by (intro console_cong [OF assms(1)] assms(3)) auto
  moreover have "screen m = screen (mem s)" using assms(4) by (intro screen_cong assms(3)) (auto simp: out_bytes_def)
  ultimately show ?thesis using assms by (auto simp: vt_state_def vt_ok_def)
qed

lemma puts_vt:
  assumes con: "console_at img ptr (mem s)" and vt: "vt_ok hw r ptr s"
    and str: "cstr (mem s) str txt" "length txt < 2 ^ 32 - 1" "0x08 \<notin> set txt" "region str (length txt) \<inter> out_bytes ptr = {}"
    and sp: "region sp 4 \<inter> (out_bytes ptr \<union> region (dev_ptr img DEV_TTY) 44 \<union> {ptr}) = {}"
  shows "\<exists>s'. puts hw img ebp sp str s = Some s' \<and> vt_ok hw r ptr s' \<and> console_at img ptr (mem s')
    \<and> vt_state r s' = fold (vt_put (mem s ptr)) (txt @ [0x0A]) (vt_state r s)
    \<and> (\<forall>a. a \<notin> out_bytes ptr \<longrightarrow> a \<notin> region sp 4 \<longrightarrow> mem s' a = mem s a)"
proof -
  obtain s1 where s1: "raw_puts hw img ebp str s = Some (of_nat (length txt), s1)" "vt_ok hw r ptr s1" "console_at img ptr (mem s1)"
    "vt_state r s1 = fold (vt_put (mem s ptr)) txt (vt_state r s)" "\<forall>a. a \<notin> out_bytes ptr \<longrightarrow> mem s1 a = mem s a" "mem s1 ptr = mem s ptr"
    using raw_puts_vt [OF con vt str] by blast
  let ?s2 = "s1\<lparr>mem := st32 (mem s1) sp 0x0A\<rparr>"
  have fr: "st32 (mem s1) sp 0x0A a = mem s1 a" if "a \<notin> region sp 4" for a using that by (rule st32_frame)
  note two = console_store [OF s1(3,2) fr sp]
  have b: "mem ?s2 sp = 0x0A" by (simp add: st32_def)
  have "region sp 1 \<inter> out_bytes ptr = {}" using sp region_mono [of 1 4 sp] by auto
  then obtain s3 where s3: "dev_write img (kernel_code hw img ebp) DEV_TTY sp 1 ?s2 = Some (1, s3)" "vt_ok hw r ptr s3"
    "console_at img ptr (mem s3)" "vt_state r s3 = vt_put (mem s ptr) 0x0A (vt_state r s1)" "\<forall>a. a \<notin> out_bytes ptr \<longrightarrow> mem s3 a = mem ?s2 a"
    using console_write [of img ptr ?s2 hw r sp 1 ebp] two b s1(6) by auto
  have "puts hw img ebp sp str s = Some s3" using s1(1) s3(1) by (simp add: puts_def putchar_def)
  then show ?thesis using s1(4,5) s3(2-) fr by auto
qed

lemma printf_vt:
  assumes con: "console_at img ptr (mem s)" and vt: "vt_ok hw r ptr s"
    and f: "render f as = Some out" "cstr (mem s) fmt f" "args_at (mem s) args as"
    and W: "W = region buf (length out + 1) \<union> region tmp 12" "region fmt (length f + 1) \<inter> W = {}" "foot (mem s) args as \<inter> W = {}"
      "region buf (length out + 1) \<inter> region tmp 12 = {}" "W \<inter> (out_bytes ptr \<union> region (dev_ptr img DEV_TTY) 44 \<union> {ptr}) = {}"
    and n: "length out + 1 < 2 ^ 32" "0 < unat tmp" "unat tmp + 12 < 2 ^ 32" and out: "0 \<notin> set out" "0x08 \<notin> set out"
  shows "\<exists>s'. printf hw img ebp tmp buf fmt args s = Some (of_nat (length out), s') \<and> vt_ok hw r ptr s'
    \<and> vt_state r s' = fold (vt_put (mem s ptr)) out (vt_state r s)
    \<and> (\<forall>a. a \<notin> W \<longrightarrow> a \<notin> out_bytes ptr \<longrightarrow> mem s' a = mem s a)"
proof -
  obtain m where m: "vsprintf (mem s) tmp buf fmt args = Some (m, of_nat (length out))" "rd m buf (length out) = out"
    "m (buf + of_nat (length out)) = 0" "\<And>a. a \<notin> W \<Longrightarrow> m a = mem s a"
    using vsprintf_loop_render [of f as out "mem s" fmt args W buf 0 tmp] f W n unfolding vsprintf_def by (auto simp: emits_def)
  note st = console_store [OF con vt m(4) W(5)]
  have c: "cstr (mem (s\<lparr>mem := m\<rparr>)) buf out" using m(2,3) out(1) by (simp add: cstr_iff)
  have "region buf (length out) \<inter> out_bytes ptr = {}" using W(1,5) region_mono [of "length out" "length out + 1" buf] by auto
  from raw_puts_vt [of img ptr "s\<lparr>mem := m\<rparr>" hw r, OF _ _ c _ out(2) this, of ebp] st n(1)
  obtain s' where "raw_puts hw img ebp buf (s\<lparr>mem := m\<rparr>) = Some (of_nat (length out), s')" "vt_ok hw r ptr s'"
    "vt_state r s' = fold (vt_put (mem s ptr)) out (vt_state r s)" "\<forall>a. a \<notin> out_bytes ptr \<longrightarrow> mem s' a = m a" by auto
  with m(1,4) show ?thesis by (simp add: printf_def vprintf_def)
qed

section \<open>Properties\<close>

text \<open>
  C8: the RAM disk through the device table. In a kernel whose table of devices is as the source has it,
  opening the device, giving it the address of a disk, seeking and reading put exactly the n bytes
  at that offset of the disk into the buffer, for every disk, table and buffer outside the heap;
  the heap stays well-formed.
\<close>

theorem ramdisk_session:
  fixes s :: "'a console_scheme"
  assumes "heap_ok s bs" and "fits bs 8" and "devs_loaded img (mem s)"
    and "list_all (\<lambda>f. img f \<noteq> 0) [Ramdisk_read, Ramdisk_open, Ramdisk_close, Ramdisk_ioctl]"
    and "outside_heap (dev_ptr img DEV_RAMDISK) 44" and "outside_heap arg 4" and "region arg 4 \<inter> region (dev_ptr img DEV_RAMDISK) 44 = {}"
    and "src = ld32 (mem s) arg + off" and "0 < sint n"
    and "outside_heap buf (unat n)" and "region buf (unat n) \<inter> region (dev_ptr img DEV_RAMDISK) 44 = {}"
    and "outside_heap src (unat n)" and "region src (unat n) \<inter> region (dev_ptr img DEV_RAMDISK) 44 = {}" and "unat n \<le> unat (buf - src)"
  shows "\<exists>s1 s2 s3 s4 cs. dev_open img (kernel_code hw img ebp) DEV_RAMDISK flags s = Some (0, s1)
    \<and> dev_ioctl img (kernel_code hw img ebp) DEV_RAMDISK RD_SETADDR arg s1 = Some (0, s2)
    \<and> dev_seek img DEV_RAMDISK off SEEK_SET s2 = (off, s3) \<and> dev_read img (kernel_code hw img ebp) DEV_RAMDISK buf n s3 = Some (n, s4)
    \<and> rd (mem s4) buf (unat n) = rd (mem s) src (unat n) \<and> heap_ok s4 cs"
  using loaded_entry [OF assms(3,4)] assms(1,2,5-) by (intro kernel_disk.disk_session [of s bs]) blast+

text \<open>A kernel with an image, a heap of one block, a table of devices, and a disk at 0x5000.\<close>

definition demo_img :: image where
  "demo_img = (\<lambda>_. 0)(Devs := 0x2000, Ttydev_write := 0x1000, Ramdisk_read := 0x1010, Ramdisk_open := 0x1020,
     Ramdisk_close := 0x1030, Ramdisk_ioctl := 0x1040)"

definition demo_mem :: "mem \<Rightarrow> mem" where
  "demo_mem low = (\<lambda>x. if outside x then low x else mk_chain 0 HEAP_BASE [(True, 24)] x)"

definition console_of :: "mem \<Rightarrow> addr \<Rightarrow> console" where
  "console_of m p = \<lparr>mem = m, errno = 0, log = [], io = [], serial_enabled = 0, root = HEAP_BASE, entries = 0, handlers = 0,
     idtr = \<lparr>limit = 0, base = 0\<rparr>, idt_reg = \<lparr>limit = 0, base = 0\<rparr>, frame_set = 0, tables = 0, cr0 = 0x11, cr2 = 0, cr3 = 0,
     busy = 0, ticks = 0, current_tty = p, tty_initialised = 1, pending = []\<rparr>"

lemma demo_heap: "heap_ok (console_of (demo_mem low) p) [(True, 24)]"
proof -
  have "heap_ok (heap_of [(True, 24)]) [(True, 24)]" by (simp add: heap_eval)
  from heap_ok_outside [OF this, of "demo_mem low"] show ?thesis
    by (simp add: demo_mem_def heap_of_def console_of_def heap_ok_def)
qed

lemma low_region: "unat p + n \<le> unat HEAP_BASE \<Longrightarrow> outside_heap p n"
  using region_unat [of p n] by (auto simp: outside_heap_def outside_def HEAP_BASE_def)

lemma demo_low: "unat p + n \<le> unat HEAP_BASE \<Longrightarrow> x \<in> region p n \<Longrightarrow> demo_mem low x = low x"
  using low_region [of p n] by (simp add: demo_mem_def outside_heap_def)

lemma length_devs_bytes: "length (devs_bytes img) = 88"
  by (simp add: devs_bytes_def name16_def bytes_def word_bytes_def)

theorem ramdisk_session_witness:
  "\<exists>s1 s2 s3 s4. let low = wr (st32 (wr (\<lambda>_. 0) 0x2000 (devs_bytes demo_img)) 0x3000 0x5000) 0x5000 [1, 2, 3, 4];
     code = kernel_code (\<lambda>_ _. 0) demo_img 0 in
     dev_open demo_img code DEV_RAMDISK 0 (console_of (demo_mem low) 0) = Some (0, s1)
     \<and> dev_ioctl demo_img code DEV_RAMDISK RD_SETADDR 0x3000 s1 = Some (0, s2)
     \<and> dev_seek demo_img DEV_RAMDISK 1 SEEK_SET s2 = (1, s3) \<and> dev_read demo_img code DEV_RAMDISK 0x6000 3 s3 = Some (3, s4)
     \<and> rd (mem s4) 0x6000 3 = [2, 3, 4]"
proof -
  let ?tab = "wr (\<lambda>_. 0) 0x2000 (devs_bytes demo_img)"
  let ?low = "wr (st32 ?tab 0x3000 0x5000) 0x5000 [1, 2, 3, 4]"
  let ?s = "console_of (demo_mem ?low) 0" and ?d = "dev_ptr demo_img DEV_RAMDISK"
  have d: "?d = 0x202C" by (simp add: dev_ptr_def demo_img_def sizeof_device_def DEV_RAMDISK_def)
  have hb: "unat HEAP_BASE = 0x400000" by (simp add: HEAP_BASE_def)
  have apart: "region (0x2000 :: addr) 88 \<inter> region 0x5000 4 = {}" "region (0x2000 :: addr) 88 \<inter> region 0x3000 4 = {}"
    "region (0x3000 :: addr) 4 \<inter> region 0x5000 4 = {}" by (rule sep_region; simp add: sep_def)+
  have four: "length [1, 2, 3, 4 :: byte] = 4" by simp
  have w: "?low x = st32 ?tab 0x3000 0x5000 x" if "x \<notin> region 0x5000 4" for x
    using wr_frame [of x "0x5000" "[1, 2, 3, 4]" "st32 ?tab 0x3000 0x5000", unfolded four] that by simp
  have loaded: "devs_loaded demo_img (mem ?s)"
  proof -
    have "rd (demo_mem ?low) 0x2000 88 = rd ?tab 0x2000 88"
    proof (rule rd_cong)
      fix x :: addr assume x: "x \<in> region 0x2000 88"
      then have "x \<notin> region 0x5000 4" "x \<notin> region 0x3000 4" using apart by auto
      then show "demo_mem ?low x = ?tab x" using demo_low [OF _ x, of ?low] w [of x] by (simp add: hb st32_frame del: wr.simps)
    qed simp
    then show ?thesis using rd_wr [of "devs_bytes demo_img" "\<lambda>_. 0" "0x2000"]
      by (simp add: devs_loaded_def console_of_def length_devs_bytes del: rd_numeral) (simp add: demo_img_def)
  qed
  have addr: "ld32 (mem ?s) 0x3000 = 0x5000"
  proof -
    have "ld32 (mem ?s) 0x3000 = ld32 (st32 ?tab 0x3000 0x5000) 0x3000"
    proof (rule ld32_cong)
      fix x :: addr assume x: "x \<in> region 0x3000 4"
      then have "x \<notin> region 0x5000 4" using apart by auto
      then show "mem ?s x = st32 ?tab 0x3000 0x5000 x" using demo_low [OF _ x, of ?low] w [of x] by (simp add: hb console_of_def del: wr.simps)
    qed
    then show ?thesis by simp
  qed
  have src: "rd (mem ?s) 0x5001 3 = [2, 3, 4]"
    by (simp add: console_of_def demo_mem_def outside_def hb)
  have z: "list_all (\<lambda>f. demo_img f \<noteq> 0) [Ramdisk_read, Ramdisk_open, Ramdisk_close, Ramdisk_ioctl]" by (simp add: demo_img_def)
  have out: "outside_heap p n" if "unat p + n \<le> 0x400000" for p n using that low_region hb by simp
  have sp: "region 0x3000 4 \<inter> region ?d 44 = {}" "region 0x6000 (unat (3 :: u32)) \<inter> region ?d 44 = {}" "region 0x5001 (unat (3 :: u32)) \<inter> region ?d 44 = {}"
    unfolding d by (rule sep_region; simp add: sep_def)+
  have "fits [(True, 24)] 8" by (simp add: fits_def top_of_def HEAP_END_def hb)
  moreover have "outside_heap ?d 44" "outside_heap 0x3000 4" "outside_heap 0x6000 (unat (3 :: u32))" "outside_heap 0x5001 (unat (3 :: u32))"
    by (simp_all add: out d)
  moreover have "0x5001 = ld32 (mem ?s) 0x3000 + 1" "0 < sint (3 :: u32)" "unat (3 :: u32) \<le> unat (0x6000 - 0x5001 :: u32)" "unat (3 :: u32) = 3"
    using addr by simp_all
  ultimately show ?thesis using ramdisk_session [OF demo_heap _ loaded z, of "0x3000" "0x5001" 1 3 "0x6000" "\<lambda>_ _. 0" 0 0] sp src
    unfolding Let_def by metis
qed

text \<open>
  puts on the console: the characters of the string and a line feed go through the device
  table to the terminal, where they refine the abstract terminal; but the screen, two bytes of the
  terminal and the stack slot of putchar, the memory stays.
\<close>

lemma console_puts:
  assumes "console_at img ptr (mem s)" and "vt_ok hw r ptr s"
    and "cstr (mem s) str txt" and "length txt < 2 ^ 32 - 1" and "0x08 \<notin> set txt" and "region str (length txt) \<inter> out_bytes ptr = {}"
    and "region sp 4 \<inter> (out_bytes ptr \<union> region (dev_ptr img DEV_TTY) 44 \<union> {ptr}) = {}"
  shows "\<exists>s'. puts hw img ebp sp str s = Some s' \<and> vt_ok hw r ptr s' \<and> console_at img ptr (mem s')
    \<and> vt_state r s' = fold (vt_put (mem s ptr)) (txt @ [0x0A]) (vt_state r s)
    \<and> (\<forall>a. a \<notin> out_bytes ptr \<longrightarrow> a \<notin> region sp 4 \<longrightarrow> mem s' a = mem s a)"
  by (rule puts_vt [OF assms])

lemma out_low: "unat a + n \<le> 0x8000 \<Longrightarrow> region a n \<inter> out_bytes 0x400010 = {}"
proof -
  assume a: "unat a + n \<le> 0x8000"
  have "region a n \<inter> region VGA_BASE 4000 = {}"
    using a region_unat [of a n] region_unat [of VGA_BASE 4000] by (auto simp: VGA_BASE_def)
  moreover have "(0x400011 :: addr) \<notin> region a n" "(0x400012 :: addr) \<notin> region a n" using a region_unat [of a n] by auto
  ultimately show ?thesis by (auto simp: out_bytes_def)
qed

lemma console_puts_example:
  "\<exists>s'. puts (crtc_hw (cursor_regs 0 78)) demo_img 0 0x7000 0x100
      (console_of (wr (st32 (st32 (\<lambda>_. 0) 0x2018 0x1000) 0x2014 0x400010) 0x100 [0x48, 0x69, 0]) 0x400010) = Some s'
     \<and> snd (vt_state (cursor_regs 0 78) s') = 160"
proof -
  let ?c = "cursor_regs 0 78" and ?base = "st32 (st32 (\<lambda>_. 0) 0x2018 0x1000) 0x2014 0x400010"
  let ?m = "wr ?base 0x100 [0x48, 0x69, 0]"
  let ?s = "console_of ?m 0x400010"
  have d: "dev_ptr demo_img DEV_TTY = 0x2000" by (simp add: dev_ptr_def demo_img_def sizeof_device_def DEV_TTY_def)
  have "sep (0x2018 :: addr) 4 0x2014 4" by (simp add: sep_def)
  then have mb: "ld32 ?base 0x2018 = 0x1000" "ld32 ?base 0x2014 = 0x400010" by (simp_all add: ld32_st32_other)
  have "ld32 ?m a = ld32 ?base a" if "sep a 4 0x100 3" for a
    using sep_region [OF that] by (intro ld32_cong wr_frame) (auto simp: numeral_3_eq_3)
  from this [of "0x2018"] this [of "0x2014"] mb have m: "ld32 ?m 0x2018 = 0x1000" "ld32 ?m 0x2014 = 0x400010" by (simp_all add: sep_def)
  have con: "console_at demo_img 0x400010 (mem ?s)" using m out_low [of "0x2000" 44]
    by (simp add: console_at_def d dev_write_fn_def dev_data_def console_of_def) (simp add: demo_img_def)
  have vt: "vt_ok (crtc_hw ?c) ?c 0x400010 ?s" "snd (vt_state ?c ?s) = 78"
    using tty_at_ok [of ?c 0 78 ?m "0x400010"] by (simp_all add: vt_ok_def vt_state_def tty_at_def console_of_def)
  have str: "cstr (mem ?s) 0x100 [0x48, 0x69]" by (simp add: console_of_def)
  have sp: "region 0x7000 4 \<inter> (out_bytes 0x400010 \<union> region (dev_ptr demo_img DEV_TTY) 44 \<union> {0x400010}) = {}"
    using out_low [of "0x7000" 4] sep_region [of "0x7000 :: addr" 4 "0x2000" 44] by (auto simp: d sep_def region_def)
  have "region 0x100 (length [0x48, 0x69 :: byte]) \<inter> out_bytes 0x400010 = {}" by (rule out_low) simp
  from console_puts [where ebp = 0, OF con vt(1) str _ _ this sp] vt(2)
  show ?thesis by (auto simp: vt_put_def vt_next_def split_beta Let_def)
qed

text \<open>
  C6: printf. For a format whose conversions fit the arguments, the terminal shows the text that
  the format and the arguments mean, as the abstract terminal would print it, and the result is
  its length; but the screen, the terminal and the two local arrays, the memory stays.
\<close>

theorem printf_screen:
  assumes "console_at img ptr (mem s)" and "vt_ok hw r ptr s"
    and "render f as = Some out" and "cstr (mem s) fmt f" and "args_at (mem s) args as"
    and "W = region buf (length out + 1) \<union> region tmp 12" and "region fmt (length f + 1) \<inter> W = {}" and "foot (mem s) args as \<inter> W = {}"
    and "region buf (length out + 1) \<inter> region tmp 12 = {}" and "W \<inter> (out_bytes ptr \<union> region (dev_ptr img DEV_TTY) 44 \<union> {ptr}) = {}"
    and "length out + 1 < 2 ^ 32" and "0 < unat tmp" and "unat tmp + 12 < 2 ^ 32" and "0 \<notin> set out" and "0x08 \<notin> set out"
  shows "\<exists>s'. printf hw img ebp tmp buf fmt args s = Some (of_nat (length out), s') \<and> vt_ok hw r ptr s'
    \<and> vt_state r s' = fold (vt_put (mem s ptr)) out (vt_state r s)
    \<and> (\<forall>a. a \<notin> W \<longrightarrow> a \<notin> out_bytes ptr \<longrightarrow> mem s' a = mem s a)"
  by (rule printf_vt [OF assms])

theorem printf_screen_witness:
  "\<exists>s'. printf (crtc_hw (cursor_regs 0 0)) demo_img 0 2000 1000 100 500
      (console_of (st32 (st32 sample_mem 0x2018 0x1000) 0x2014 0x400010) 0x400010) = Some (5, s')
     \<and> snd (vt_state (cursor_regs 0 0) s') = 5"
proof -
  let ?c = "cursor_regs 0 0" and ?m = "st32 (st32 sample_mem 0x2018 0x1000) 0x2014 0x400010" and ?out = "bytes ''n=-7%''"
  let ?s = "console_of ?m 0x400010" and ?W = "region 1000 (length (bytes ''n=-7%'') + 1) \<union> region 2000 12"
  have d: "dev_ptr demo_img DEV_TTY = 0x2000" by (simp add: dev_ptr_def demo_img_def sizeof_device_def DEV_TTY_def)
  have "sep (0x2018 :: addr) 4 0x2014 4" by (simp add: sep_def)
  then have con: "console_at demo_img 0x400010 (mem ?s)" using out_low [of "0x2000" 44]
    by (simp add: console_at_def d dev_write_fn_def dev_data_def console_of_def ld32_st32_other) (simp add: demo_img_def)
  have vt: "vt_ok (crtc_hw ?c) ?c 0x400010 ?s" "snd (vt_state ?c ?s) = 0"
    using tty_at_ok [of ?c 0 0 ?m "0x400010"] by (simp_all add: vt_ok_def vt_state_def tty_at_def console_of_def)
  have low: "mem ?s x = sample_mem x" if "x \<in> region a n" "unat a + n \<le> 0x2000" for x a n
  proof -
    have "x \<notin> region 0x2014 4" "x \<notin> region 0x2018 4" using that region_unat [of a n] by (auto simp: region_unat)
    then show ?thesis by (simp add: console_of_def st32_frame)
  qed
  have foot: "foot sample_mem 500 [PW (- 7)] = region 500 4" by simp
  have args: "args_at (mem ?s) 500 [PW (- 7)]" "foot (mem ?s) 500 [PW (- 7)] = foot sample_mem 500 [PW (- 7)]"
    using args_cong [OF sample_args, of "mem ?s"] low [of _ 500 4] unfolding foot by auto
  have fmt: "cstr (mem ?s) 100 (bytes ''n=%d%%'')"
    using low by (intro cstr_cong [OF sample_fmt]) (auto simp: bytes_def)
  have sp: "?W \<inter> (out_bytes 0x400010 \<union> region (dev_ptr demo_img DEV_TTY) 44 \<union> {0x400010}) = {}"
  proof -
    have "region a n \<inter> (out_bytes 0x400010 \<union> region 0x2000 44 \<union> {0x400010}) = {}" if "unat a + n \<le> 0x2000" for a n
      using out_low [of a n] that region_unat [of a n] region_unat [of "0x2000" 44] by auto
    from this [of 1000 "length (bytes ''n=-7%'') + 1"] this [of 2000 12] show ?thesis unfolding d by (auto simp: bytes_def)
  qed
  have "\<exists>s'. printf (crtc_hw ?c) demo_img 0 2000 1000 100 500 ?s = Some (of_nat (length ?out), s') \<and> vt_ok (crtc_hw ?c) ?c 0x400010 s'
    \<and> vt_state ?c s' = fold (vt_put (mem ?s 0x400010)) ?out (vt_state ?c ?s) \<and> (\<forall>a. a \<notin> ?W \<longrightarrow> a \<notin> out_bytes 0x400010 \<longrightarrow> mem s' a = mem ?s a)"
    by (rule printf_screen [OF con vt(1) sample_render fmt args(1) refl sample_apart(1) _ sample_apart(3) sp])
      (use args(2) sample_apart(2) in \<open>simp_all add: bytes_def\<close>)
  then show ?thesis using vt(2) by (auto simp: bytes_def vt_put_def vt_next_def split_beta Let_def)
qed

end
