(* ===== verification/Libc_Strtok.thy ===== *)
theory Libc_Strtok
  imports Libc_String
begin

text \<open>
  The tokenizer of libc/strtok.c. Its static pointer \<open>old\<close> is passed in and out; the
  delimiters it meets are overwritten by NUL in the caller's string.
\<close>

section \<open>strtok.c\<close>

text \<open>
  The inner loop: it stops at the first delimiter equal to the byte at \<open>str\<close>, which
  it overwrites, and then \<open>i\<close> is set.
\<close>

partial_function (option) strtok_mark ::
  "mem \<Rightarrow> addr \<Rightarrow> addr \<Rightarrow> bool \<Rightarrow> (mem \<times> bool) option" where
  "strtok_mark m str delim i =
     (if m delim = 0 then Some (m, i)
      else if m str = m delim then Some (m(str := 0), True)
      else strtok_mark m str (delim + 1) i)"

partial_function (option) strtok_loop ::
  "mem \<Rightarrow> addr \<Rightarrow> addr \<Rightarrow> addr \<Rightarrow> bool \<Rightarrow> bool \<Rightarrow> (addr \<times> mem \<times> addr) option" where
  "strtok_loop m str delim_start ptr f i =
     (if m str = 0 then Some (ptr, m, str)
      else do {
        mi \<leftarrow> strtok_mark m str delim_start i;
        let m1 = fst mi; i1 = snd mi;
            ptr1 = (if m1 str \<noteq> 0 \<and> f then str else ptr);
            f1 = (if m1 str \<noteq> 0 \<and> f then False else f)
        in if m1 str \<noteq> 0 \<and> \<not> f1 \<and> i1 then Some (ptr1, m1, str)
           else strtok_loop m1 (str + 1) delim_start ptr1 f1 i1
      })"

text \<open>The result is the returned pointer, the memory and the new value of \<open>old\<close>.\<close>

definition strtok :: "mem \<Rightarrow> addr \<Rightarrow> addr \<Rightarrow> addr \<Rightarrow> (addr \<times> mem \<times> addr) option" where
  "strtok m old str delim =
     do {
       let str = (if str = 0 then old else str);
       n \<leftarrow> strspn m str delim;
       strtok_loop m (str + n) delim 0 True False
     }"

text \<open>
  How the callers use it (test_strtok in kernel/shell.c, fs_lookup in libfs/wrap.c): calls
  with a NULL string until NULL is returned. The result is the pointers returned on the way.
\<close>

partial_function (option) strtok_rest :: "mem \<Rightarrow> addr \<Rightarrow> addr \<Rightarrow> (addr list \<times> mem) option" where
  "strtok_rest m old delim =
     do {
       r \<leftarrow> strtok m old 0 delim;
       case r of (ptr, m1, old1) \<Rightarrow>
         if ptr = 0 then Some ([], m1)
         else do { q \<leftarrow> strtok_rest m1 old1 delim; Some (ptr # fst q, snd q) }
     }"

definition strtok_all :: "mem \<Rightarrow> addr \<Rightarrow> addr \<Rightarrow> addr \<Rightarrow> (addr list \<times> mem) option" where
  "strtok_all m old str delim =
     do {
       r \<leftarrow> strtok m old str delim;
       case r of (ptr, m1, old1) \<Rightarrow>
         if ptr = 0 then Some ([], m1)
         else do { q \<leftarrow> strtok_rest m1 old1 delim; Some (ptr # fst q, snd q) }
     }"

section \<open>Specification\<close>

text \<open>The maximal runs of bytes that are not delimiters.\<close>

function tokens :: "byte set \<Rightarrow> byte list \<Rightarrow> byte list list" where
  "tokens D s =
     (case dropWhile (\<lambda>c. c \<in> D) s of
        [] \<Rightarrow> []
      | c # u \<Rightarrow> (c # takeWhile (\<lambda>c. c \<notin> D) u) # tokens D (dropWhile (\<lambda>c. c \<notin> D) u))"
  by pat_completeness auto
termination
proof (relation "measure (\<lambda>(D, s). length s)", goal_cases)
  case (2 D s c u)
  have "length (dropWhile (\<lambda>c. c \<notin> D) u) < length (c # u)"
    by (simp add: le_imp_less_Suc length_dropWhile_le)
  also have "\<dots> \<le> length s" using 2 length_dropWhile_le [of "\<lambda>c. c \<in> D" s] by simp
  finally show ?case by simp
qed simp

declare tokens.simps [simp del]

section \<open>One call\<close>

lemma strtok_mark_cstr:
  "cstr m d ds \<Longrightarrow>
   strtok_mark m p d i = Some (if m p \<in> set ds then (m(p := 0), True) else (m, i))"
proof (induction ds arbitrary: d)
  case Nil
  then show ?case by (subst strtok_mark.simps) simp
next
  case (Cons c ds)
  then show ?case by (subst strtok_mark.simps) auto
qed

lemma strtok_loop_delims:
  "cstr m p s \<Longrightarrow> cstr m d ds \<Longrightarrow> sep p (Suc (length s)) d (Suc (length ds)) \<Longrightarrow>
   k = length (takeWhile (\<lambda>c. c \<in> set ds) s) \<Longrightarrow>
   strtok_loop m p d ptr False True = Some (ptr, wr m p (replicate k 0), p + of_nat k)"
proof (induction s arbitrary: m p k)
  case Nil
  then show ?case by (subst strtok_loop.simps) simp
next
  case (Cons c s)
  have hd: "m p = c" "c \<noteq> 0" and tl: "cstr m (p + 1) s" using Cons.prems(1) by auto
  have len: "Suc (length s) < 2 ^ 32" using cstr_length [OF Cons.prems(1)] by simp
  note out = sep_Suc [OF Cons.prems(3)]
  show ?case
  proof (cases "c \<in> set ds")
    case True
    let ?m = "m(p := 0)"
    have "cstr ?m d ds" using Cons.prems(2) out(2) len by (intro cstr_upd_other) auto
    moreover have "p \<notin> region (p + 1) (Suc (length s))"
      using len by (simp add: region_def unsigned_minus_1_eq_mask mask_eq_exp_minus_1)
    then have "cstr ?m (p + 1) s" using tl by (intro cstr_upd_other)
    ultimately have "strtok_loop ?m (p + 1) d ptr False True
        = Some (ptr, wr ?m (p + 1) (replicate (k - 1) 0), p + 1 + of_nat (k - 1))"
      using out(1) len True Cons.prems(4) Cons.IH [of ?m "p + 1" "k - 1"]
      by (simp del: fun_upd_apply)
    moreover have "strtok_loop m p d ptr False True = strtok_loop ?m (p + 1) d ptr False True"
      using hd True strtok_mark_cstr [OF Cons.prems(2), of p True]
      by (subst strtok_loop.simps) (simp add: Let_def)
    moreover obtain j where "k = Suc j" using True Cons.prems(4) by simp
    ultimately show ?thesis by (simp add: algebra_simps)
  next
    case False
    with Cons.prems hd strtok_mark_cstr [OF Cons.prems(2), of p True] show ?thesis
      by (subst strtok_loop.simps) simp
  qed
qed

lemma strtok_loop_token:
  "cstr m p s \<Longrightarrow> cstr m d ds \<Longrightarrow> sep p (Suc (length s)) d (Suc (length ds)) \<Longrightarrow>
   a = length (takeWhile (\<lambda>c. c \<notin> set ds) s) \<Longrightarrow>
   k = length (takeWhile (\<lambda>c. c \<in> set ds) (dropWhile (\<lambda>c. c \<notin> set ds) s)) \<Longrightarrow>
   strtok_loop m p d ptr False False =
     Some (ptr, wr m (p + of_nat a) (replicate k 0), p + of_nat (a + k))"
proof (induction s arbitrary: m p k a)
  case Nil
  then show ?case by (subst strtok_loop.simps) simp
next
  case (Cons c s)
  have hd: "m p = c" "c \<noteq> 0" and tl: "cstr m (p + 1) s" using Cons.prems(1) by auto
  have len: "Suc (length s) < 2 ^ 32" using cstr_length [OF Cons.prems(1)] by simp
  note mark = strtok_mark_cstr [OF Cons.prems(2), of p False]
  show ?case
  proof (cases "c \<in> set ds")
    case True
    have "strtok_loop m p d ptr False False = strtok_loop m p d ptr False True"
      using hd True mark strtok_mark_cstr [OF Cons.prems(2), of p True]
      by (subst (1 2) strtok_loop.simps) (simp add: Let_def)
    also have "\<dots> = Some (ptr, wr m p (replicate k 0), p + of_nat k)"
      using Cons.prems(5) True by (intro strtok_loop_delims [OF Cons.prems(1-3)]) simp
    finally show ?thesis using True Cons.prems(4) by simp
  next
    case False
    obtain b where b: "a = Suc b" using False Cons.prems(4) by simp
    have "strtok_loop m p d ptr False False = strtok_loop m (p + 1) d ptr False False"
      using hd False mark by (subst strtok_loop.simps) (simp add: Let_def)
    also have "\<dots> = Some (ptr, wr m (p + 1 + of_nat b) (replicate k 0), p + 1 + of_nat (b + k))"
      using Cons.prems False tl sep_Suc(1) [OF Cons.prems(3)] len b by (intro Cons.IH) auto
    finally show ?thesis using b by (simp add: algebra_simps)
  qed
qed

text \<open>What one call does to a string \<open>pre @ tok @ dl @ rest\<close>.\<close>

lemma strtok_step:
  fixes D :: "byte set"
  defines "pre \<equiv> takeWhile (\<lambda>c. c \<in> D)" and "tok \<equiv> takeWhile (\<lambda>c. c \<notin> D)"
    and "skip \<equiv> dropWhile (\<lambda>c. c \<in> D)" and "after \<equiv> dropWhile (\<lambda>c. c \<notin> D)"
  assumes s: "cstr m p s" and d: "cstr m d ds" and D: "D = set ds"
    and sp: "sep p (Suc (length s)) d (Suc (length ds))" and p: "p \<noteq> 0" and ne: "skip s \<noteq> []"
  shows "strtok m old p d = Some (p + of_nat (length (pre s)),
     wr m (p + of_nat (length (pre s) + length (tok (skip s)))) (replicate (length (pre (after (skip s)))) 0),
     p + of_nat (length (pre s) + length (tok (skip s)) + length (pre (after (skip s)))))"
proof -
  let ?q = "p + of_nat (length (pre s))"
  have sk: "s = pre s @ skip s" by (simp add: pre_def skip_def)
  obtain c u where cu: "skip s = c # u" "c \<notin> D"
    using ne hd_dropWhile [of "\<lambda>c. c \<in> D" s] by (cases "skip s") (auto simp: skip_def)
  have q: "cstr m ?q (c # u)" using s sk cu by (metis cstr_append)
  have len: "length s < 2 ^ 32" by (rule cstr_length [OF s])
  have spq: "sep ?q (Suc (length (c # u))) d (Suc (length ds))"
  proof (rule sep_offset [OF sp])
    have "length s = length (pre s) + length (c # u)" using sk cu by (metis length_append)
    then show "length (pre s) + Suc (length (c # u)) \<le> Suc (length s)" by simp
    show "Suc (length s) \<le> 2 ^ 32" using len by simp
  qed
  have spn: "strspn m p d = Some (of_nat (length (pre s)))"
    using strspn_cstr [OF s d] by (simp add: pre_def D)
  have "strtok_loop m ?q d 0 True False = strtok_loop m ?q d ?q False False"
    using q cu strtok_mark_cstr [OF d, of ?q False] D
    by (subst (1 2) strtok_loop.simps) (simp add: Let_def)
  also have "\<dots> = Some (?q, wr m (?q + of_nat (length (tok (c # u)))) (replicate (length (pre (after (c # u)))) 0),
      ?q + of_nat (length (tok (c # u)) + length (pre (after (c # u)))))"
    using strtok_loop_token [OF q d spq refl refl] by (simp add: tok_def pre_def after_def D)
  finally show ?thesis
    using p spn cu by (simp add: strtok_def Let_def add.assoc)
qed

lemma strtok_end:
  assumes s: "cstr m p s" and d: "cstr m d ds" and p: "p \<noteq> 0"
    and e: "dropWhile (\<lambda>c. c \<in> set ds) s = []"
  shows "strtok m old p d = Some (0, m, p + of_nat (length s))"
proof -
  have "takeWhile (\<lambda>c. c \<in> set ds) s = s" using e by (metis append_Nil2 takeWhile_dropWhile_id)
  then have "strspn m p d = Some (of_nat (length s))" using strspn_cstr [OF s d] by (simp only:)
  moreover have "m (p + of_nat (length s)) = 0" using s by (simp add: cstr_iff)
  then have "strtok_loop m (p + of_nat (length s)) d 0 True False = Some (0, m, p + of_nat (length s))"
    by (subst strtok_loop.simps) simp
  ultimately show ?thesis using p by (simp add: strtok_def Let_def)
qed

section \<open>All calls\<close>

lemma strtok_NULL: "q \<noteq> 0 \<Longrightarrow> strtok m q 0 d = strtok m old q d"
  by (simp add: strtok_def)

lemma tokens_none: "dropWhile (\<lambda>c. c \<in> D) s = [] \<Longrightarrow> tokens D s = []"
  by (subst tokens.simps) (simp only: list.case)

lemma tokens_some:
  "dropWhile (\<lambda>c. c \<in> D) s = c # u \<Longrightarrow>
   tokens D s = (c # takeWhile (\<lambda>c. c \<notin> D) u) # tokens D (dropWhile (\<lambda>c. c \<notin> D) u)"
  by (subst tokens.simps) (simp only: list.case)

lemma tokens_skip: "tokens D (dropWhile (\<lambda>c. c \<in> D) s) = tokens D s"
proof (cases "dropWhile (\<lambda>c. c \<in> D) s")
  case Nil
  then have "tokens D s = []" by (rule tokens_none)
  moreover have "tokens D [] = []" by (rule tokens_none) simp
  ultimately show ?thesis unfolding Nil by simp
next
  case (Cons c u)
  then have "dropWhile (\<lambda>c. c \<in> D) (c # u) = c # u" by (metis dropWhile_idem)
  then have "tokens D (c # u) = (c # takeWhile (\<lambda>c. c \<notin> D) u) # tokens D (dropWhile (\<lambda>c. c \<notin> D) u)"
    by (rule tokens_some)
  also have "\<dots> = tokens D s" using Cons by (rule tokens_some [symmetric])
  finally show ?thesis unfolding Cons .
qed

lemma dropWhile_all_if_no_delim:
  "takeWhile (\<lambda>c. c \<in> D) (dropWhile (\<lambda>c. c \<notin> D) u) = [] \<Longrightarrow>
   dropWhile (\<lambda>c. c \<in> D) (dropWhile (\<lambda>c. c \<notin> D) u) = []"
proof (cases "dropWhile (\<lambda>c. c \<notin> D) u")
  case (Cons c v)
  then have "c \<in> D" by (metis dropWhile_eq_Cons_conv)
  then show "takeWhile (\<lambda>c. c \<in> D) (dropWhile (\<lambda>c. c \<notin> D) u) = [] \<Longrightarrow> ?thesis"
    unfolding Cons by simp
qed (simp only: dropWhile.simps)

text \<open>Overwriting the delimiters after a token by NUL cuts the string in two.\<close>

lemma cut_string:
  fixes p :: addr
  defines "e tok \<equiv> p + of_nat (length (tok :: byte list))"
  assumes s: "cstr m p (tok @ dl @ rest)" and dl: "dl = [] \<Longrightarrow> rest = []"
    and p: "unat p + length (tok @ dl @ rest) < 2 ^ 32"
  shows "cstr (wr m (e tok) (replicate (length dl) 0)) p tok"
    and "cstr (wr m (e tok) (replicate (length dl) 0)) (p + of_nat (length tok + length dl)) rest"
proof -
  let ?e = "e tok" and ?M = "wr m (e tok) (replicate (length dl) 0)"
  have un: "unat ?e = unat p + length tok"
    "unat (p + of_nat (length tok + length dl)) = unat p + length tok + length dl"
    unfolding e_def using p by (simp_all only: unat_add_of_nat32 length_append)
  have r: "rd m p (length tok) = tok" "0 \<notin> set tok" "cstr m ?e (dl @ rest)"
    using s by (auto simp: cstr_append e_def)
  have "rd ?M p (length tok) = rd m p (length tok)"
  proof (rule rd_cong)
    have "sep p (length tok) ?e (length dl)" using un p by (intro sep_cases) auto
    then show "?M a = m a" if "a \<in> region p (length tok)" for a
      using that p sep_region by (intro wr_frame) (auto, blast)
  qed (use p in simp)
  moreover have "?M ?e = 0"
  proof (cases "dl = []")
    case False
    then show ?thesis using wr_nth [of 0 "replicate (length dl) 0" m ?e] p by simp
  qed (use dl r in simp)
  ultimately show "cstr ?M p tok" using r by (simp add: cstr_iff e_def)
  show "cstr ?M (p + of_nat (length tok + length dl)) rest"
  proof (rule cstr_after_wr)
    show "cstr m (p + of_nat (length tok + length dl)) rest"
      using r(3) by (simp add: cstr_append e_def algebra_simps)
    show "sep (p + of_nat (length tok + length dl)) (Suc (length rest)) ?e (length (replicate (length dl) 0))"
      using un p by (intro sep_cases) auto
  qed (use p in simp)
qed

text \<open>The state a call leaves: the token is a string of its own, the rest starts at \<open>old\<close>.\<close>

lemma strtok_split:
  assumes s: "cstr m q s" and d: "cstr m d ds" and sp: "sep q (Suc (length s)) d (Suc (length ds))"
    and q: "0 < unat q" "unat q + length s < 2 ^ 32"
    and ne: "dropWhile (\<lambda>c. c \<in> set ds) s = c # u"
  obtains ptr M1 old1 rest where
    "strtok m q 0 d = Some (ptr, M1, old1)" "ptr \<noteq> 0"
    "cstr M1 ptr (c # takeWhile (\<lambda>c. c \<notin> set ds) u)" "cstr M1 old1 rest" "cstr M1 d ds"
    "tokens (set ds) rest = tokens (set ds) (dropWhile (\<lambda>c. c \<notin> set ds) u)"
    "unat old1 + length rest = unat q + length s" "unat q \<le> unat ptr"
    "rest \<noteq> [] \<Longrightarrow> unat ptr + Suc (Suc (length (takeWhile (\<lambda>c. c \<notin> set ds) u))) \<le> unat old1" "unat ptr < unat old1"
    "\<And>a. a \<notin> region q (length s) \<Longrightarrow> M1 a = m a"
proof -
  let ?D = "set ds"
  define pre tok dl rest where "pre = takeWhile (\<lambda>c. c \<in> ?D) s"
    and "tok = c # takeWhile (\<lambda>c. c \<notin> ?D) u"
    and "dl = takeWhile (\<lambda>c. c \<in> ?D) (dropWhile (\<lambda>c. c \<notin> ?D) u)"
    and "rest = dropWhile (\<lambda>c. c \<in> ?D) (dropWhile (\<lambda>c. c \<notin> ?D) u)"
  have c: "c \<notin> ?D" using ne by (metis dropWhile_eq_Cons_conv)
  have s_eq: "s = pre @ tok @ dl @ rest"
    using ne by (simp add: pre_def tok_def dl_def rest_def) (metis takeWhile_dropWhile_id)
  have dl: "dl = [] \<Longrightarrow> rest = []" unfolding dl_def rest_def by (rule dropWhile_all_if_no_delim)
  let ?ptr = "q + of_nat (length pre)" and ?e = "q + of_nat (length pre + length tok)"
  let ?old = "q + of_nat (length pre + length tok + length dl)"
  let ?M = "wr m ?e (replicate (length dl) 0)"
  have len: "length s = length pre + length tok + length dl + length rest" using s_eq by simp
  have un: "unat ?ptr = unat q + length pre" "unat ?e = unat q + length pre + length tok"
    "unat ?old = unat q + length pre + length tok + length dl"
    using q len by (simp_all only: unat_add_of_nat32)
  have call: "strtok m q 0 d = Some (?ptr, ?M, ?old)"
  proof -
    have "q \<noteq> 0" using q(1) by auto
    then show ?thesis
      using strtok_step [OF s d refl sp, of 0] strtok_NULL [of q m d 0] ne c
      by (simp add: pre_def tok_def dl_def add.assoc)
  qed
  have out: "?M a = m a" if "a \<notin> region ?e (length dl)" for a
    using that len q by (intro wr_frame) auto
  have "cstr m ?ptr (tok @ dl @ rest)" using s s_eq by (metis cstr_append)
  from cut_string [OF this dl] have tok: "cstr ?M ?ptr tok" and old: "cstr ?M ?old rest"
    using un(1) len q by (simp_all add: add.assoc)
  have delims: "cstr ?M d ds"
  proof (rule cstr_after_wr [OF d])
    show "sep d (Suc (length ds)) ?e (length (replicate (length dl) 0))"
      using sep_sym [OF sep_offset [OF sp, of "length pre + length tok" "length dl"]] len q by simp
  qed (use len q in simp)
  have fr: "?M a = m a" if "a \<notin> region q (length s)" for a
    using that len q region_sub [of "length pre + length tok" "length dl" "length s" q]
    by (intro out) auto
  show thesis
  proof (rule that [OF call])
    show "?ptr \<noteq> 0" using un(1) q by (metis add_gr_0 less_irrefl unat_0)
    show "tokens ?D rest = tokens ?D (dropWhile (\<lambda>c. c \<notin> ?D) u)"
      unfolding rest_def by (rule tokens_skip)
    show "unat ?ptr + Suc (Suc (length (takeWhile (\<lambda>c. c \<notin> ?D) u))) \<le> unat ?old" if "rest \<noteq> []"
      using un dl that by (cases dl) (auto simp: tok_def)
  qed (use tok old delims fr un len in \<open>simp_all add: tok_def\<close>)
qed

lemma strtok_rest_tokens:
  "cstr m q s \<Longrightarrow> cstr m d ds \<Longrightarrow> sep q (Suc (length s)) d (Suc (length ds)) \<Longrightarrow>
   0 < unat q \<Longrightarrow> unat q + length s < 2 ^ 32 \<Longrightarrow>
   \<exists>ps M. strtok_rest m q d = Some (ps, M) \<and> list_all2 (cstr M) ps (tokens (set ds) s)
     \<and> (\<forall>a. a \<notin> region q (length s) \<longrightarrow> M a = m a)"
proof (induction "length s" arbitrary: m q s rule: less_induct)
  case less
  have q0: "q \<noteq> 0" using less.prems(4) by auto
  show ?case
  proof (cases "dropWhile (\<lambda>c. c \<in> set ds) s")
    case Nil
    then have "tokens (set ds) s = []" by (rule tokens_none)
    moreover have "strtok m q 0 d = Some (0, m, q + of_nat (length s))"
      using strtok_NULL [OF q0] strtok_end [OF less.prems(1,2) q0 Nil] by metis
    then have "strtok_rest m q d = Some ([], m)" by (subst strtok_rest.simps) simp
    ultimately show ?thesis by simp
  next
    case (Cons c u)
    let ?w = "c # takeWhile (\<lambda>c. c \<notin> set ds) u"
    obtain ptr M1 old1 rest where st: "strtok m q 0 d = Some (ptr, M1, old1)" "ptr \<noteq> 0"
      "cstr M1 ptr ?w" "cstr M1 old1 rest" "cstr M1 d ds"
      "tokens (set ds) rest = tokens (set ds) (dropWhile (\<lambda>c. c \<notin> set ds) u)"
      "unat old1 + length rest = unat q + length s" "unat q \<le> unat ptr"
      "rest \<noteq> [] \<Longrightarrow> unat ptr + Suc (Suc (length (takeWhile (\<lambda>c. c \<notin> set ds) u))) \<le> unat old1"
      "unat ptr < unat old1" "\<And>a. a \<notin> region q (length s) \<Longrightarrow> M1 a = m a"
      by (rule strtok_split [OF less.prems Cons]) (rule that, assumption+)
    define j where "j = unat old1 - unat q"
    have j: "old1 = q + of_nat j" "j + length rest = length s" "0 < j"
      using st(7,8,10) less.prems(5) by (auto simp: j_def word_unat_eq_iff unat_add_of_nat32)
    have "sep old1 (Suc (length rest)) d (Suc (length ds))"
      using sep_offset [OF less.prems(3), of j "Suc (length rest)"] j less.prems(5) by simp
    then obtain ps M where IH: "strtok_rest M1 old1 d = Some (ps, M)"
      "list_all2 (cstr M) ps (tokens (set ds) rest)"
      "\<And>a. a \<notin> region old1 (length rest) \<Longrightarrow> M a = M1 a"
      using less.hyps [of rest M1 old1] j st(4,5,7) less.prems(4,5) by auto
    have "cstr M ptr ?w"
    proof (cases "rest = []")
      case False
      then have "sep ptr (Suc (length ?w)) old1 (length rest)"
        using st(7,9) less.prems(5) by (intro sep_cases) auto
      then show ?thesis using IH(3) sep_region by (intro cstr_cong [OF st(3)]) blast
    qed (use IH(3) cstr_cong [OF st(3)] in auto)
    moreover have "strtok_rest m q d = Some (ptr # ps, M)"
      using st(1,2) IH(1) by (subst strtok_rest.simps) simp
    moreover have "M a = m a" if "a \<notin> region q (length s)" for a
    proof -
      have "a \<notin> region old1 (length rest)"
        using that j less.prems(5) region_sub [of j "length rest" "length s" q] by auto
      with IH(3) st(11) that show ?thesis by simp
    qed
    moreover have "tokens (set ds) s = ?w # tokens (set ds) rest"
      using tokens_some [OF Cons] st(6) by simp
    ultimately show ?thesis using IH(2) by simp
  qed
qed

lemma strtok_all_tokens:
  assumes "cstr m p s" and "cstr m d ds" and "sep p (Suc (length s)) d (Suc (length ds))"
    and "0 < unat p" and "unat p + length s < 2 ^ 32"
  shows "\<exists>ps M. strtok_all m old p d = Some (ps, M) \<and> list_all2 (cstr M) ps (tokens (set ds) s)
     \<and> (\<forall>a. a \<notin> region p (length s) \<longrightarrow> M a = m a)"
proof -
  have "p \<noteq> 0" using assms(4) by auto
  then have "strtok_all m old p d = strtok_rest m p d"
    by (subst strtok_rest.simps) (simp add: strtok_all_def strtok_NULL [of p m d old])
  with strtok_rest_tokens [OF assms] show ?thesis by simp
qed

section \<open>Properties\<close>

text \<open>
  C9: The calls of strtok on a string end with NULL, the pointers they return are strings, and
  these strings are the tokens: the maximal runs of bytes that are not delimiters, in order.
  Nothing outside the string is written.
\<close>

theorem strtok_tokens:
  assumes "cstr m p s" and "cstr m d ds" and "sep p (Suc (length s)) d (Suc (length ds))"
    and "0 < unat p" and "unat p + length s < 2 ^ 32"
  shows "\<exists>ps M. strtok_all m old p d = Some (ps, M) \<and> list_all2 (cstr M) ps (tokens (set ds) s)
     \<and> (\<forall>a. a \<notin> region p (length s) \<longrightarrow> M a = m a)"
  by (rule strtok_all_tokens [OF assms])

theorem strtok_tokens_witness:
  "\<exists>ps M. strtok_all (wr (wr (\<lambda>_. 0) 100 [47, 100, 47, 47, 116]) 200 [47]) 0 100 200 = Some (ps, M)
     \<and> list_all2 (cstr M) ps [[100], [116]]"
proof -
  have "tokens {47 :: byte} [47, 100, 47, 47, 116] = [[100], [116]]" by (simp add: tokens.simps)
  with strtok_tokens [of "wr (wr (\<lambda>_. 0) 100 [47, 100, 47, 47, 116]) 200 [47]" 100 "[47, 100, 47, 47, 116]" 200 "[47]" 0]
  show ?thesis by (simp add: sep_def) blast
qed

end
