(* ===== verification/Fs.thy ===== *)
theory Fs
  imports Console Libc_Strtok
begin

text \<open>
  The file systems: the inodes of include/foos/fs.h, the RAM disk file system (libfs/ramfs.c), the
  device directory (libfs/devfs.c) and the calls on top of them (libfs/wrap.c). Inodes are objects
  in memory; the functions they point to are the ones of ramfs.c and devfs.c.
\<close>

section \<open>State\<close>

text \<open>The static variables of ramfs.c, main.c (fs_root) and strtok.c (old).\<close>

record fs = console +
  fs_root :: addr
  rd_files :: addr
  rd_root :: addr
  file_base :: u32
  rd_nfiles :: u32
  strtok_old :: addr

definition FS_FILE :: byte where "FS_FILE = 0x01"
definition FS_DIR :: byte where "FS_DIR = 0x02"
definition FS_CHAR :: byte where "FS_CHAR = 0x03"
definition FS_BLK :: byte where "FS_BLK = 0x04"
definition ENOTDIR :: u32 where "ENOTDIR = 20"

text \<open>struct inode and struct dirent.\<close>

definition i_name :: "addr \<Rightarrow> addr" where "i_name p = p"
definition i_flags :: "addr \<Rightarrow> addr" where "i_flags p = p + 32"
definition i_size :: "addr \<Rightarrow> addr" where "i_size p = p + 36"
definition i_ino :: "addr \<Rightarrow> addr" where "i_ino p = p + 40"
definition i_impl :: "addr \<Rightarrow> addr" where "i_impl p = p + 44"
definition i_open :: "addr \<Rightarrow> addr" where "i_open p = p + 48"
definition i_close :: "addr \<Rightarrow> addr" where "i_close p = p + 52"
definition i_write :: "addr \<Rightarrow> addr" where "i_write p = p + 56"
definition i_read :: "addr \<Rightarrow> addr" where "i_read p = p + 60"
definition i_readdir :: "addr \<Rightarrow> addr" where "i_readdir p = p + 64"
definition i_finddir :: "addr \<Rightarrow> addr" where "i_finddir p = p + 68"
definition i_ptr :: "addr \<Rightarrow> addr" where "i_ptr p = p + 72"
definition sizeof_inode :: u32 where "sizeof_inode = 76"
definition d_name :: "addr \<Rightarrow> addr" where "d_name p = p"
definition d_ino :: "addr \<Rightarrow> addr" where "d_ino p = p + 32"

text \<open>struct rd_header and struct rd_fileheader.\<close>

definition RD_HEADSIG :: u16 where "RD_HEADSIG = 0xD158"
definition RD_FILESIG :: u32 where "RD_FILESIG = 0xDEADF11E"
definition rh_signature :: "addr \<Rightarrow> addr" where "rh_signature p = p"
definition rh_nfiles :: "addr \<Rightarrow> addr" where "rh_nfiles p = p + 2"
definition sizeof_rd_header :: u32 where "sizeof_rd_header = 4"
definition rf_magic :: "addr \<Rightarrow> addr" where "rf_magic p = p"
definition rf_name :: "addr \<Rightarrow> addr" where "rf_name p = p + 4"
definition rf_offset :: "addr \<Rightarrow> addr" where "rf_offset p = p + 36"
definition rf_size :: "addr \<Rightarrow> addr" where "rf_size p = p + 40"
definition sizeof_rd_fileheader :: u32 where "sizeof_rd_fileheader = 44"

text \<open>A failed assertion prints a message and spins: the call does not return.\<close>

definition assert :: "bool \<Rightarrow> 's \<Rightarrow> 's option" where
  "assert b s = (if b then Some s else None)"

text \<open>\<open>strcpy\<close> of a literal.\<close>

definition put_str :: "mem \<Rightarrow> addr \<Rightarrow> string \<Rightarrow> mem" where
  "put_str m p lit = wr m p (bytes lit @ [0])"

section \<open>devfs.c\<close>

fun devfs_entries :: "image \<Rightarrow> addr \<Rightarrow> nat list \<Rightarrow> mem \<Rightarrow> mem option" where
  "devfs_entries img p [] m = Some m"
| "devfs_entries img p (i # is) m =
     (let e = p + sizeof_inode * of_nat i
      in do {
        m \<leftarrow> strcpy m (i_name e) (dev_name (dev_ptr img (of_nat i)));
        let m = m(i_flags e := FS_CHAR);
        let m = st32 m (i_impl e) (of_nat i);
        let m = st32 m (i_read e) (img Devfs_read);
        let m = st32 m (i_write e) (img Devfs_write);
        devfs_entries img p is m
      })"

definition devfs_init :: "image \<Rightarrow> addr \<Rightarrow> 'a fs_scheme \<Rightarrow> (u32 \<times> 'a fs_scheme) option" where
  "devfs_init img devdir s =
     do {
       s \<leftarrow> assert (devdir \<noteq> 0) s;
       let m = put_str (mem s) (i_name devdir) ''dev'';
       let m = m(i_flags devdir := FS_DIR);
       let m = st32 m (i_impl devdir) ndevs;
       r \<leftarrow> kmalloc (s\<lparr>mem := m\<rparr>) (ndevs * sizeof_inode);
       let s = snd r;
       let m = st32 (mem s) (i_ptr devdir) (fst r);
       let m = memset m (ld32 m (i_ptr devdir)) 0 (ndevs * sizeof_inode);
       m \<leftarrow> devfs_entries img (ld32 m (i_ptr devdir)) [0..<unat ndevs] m;
       Some (0, s\<lparr>mem := m\<rparr>)
     }"

text \<open>The macro CHECK_DEV tests bits of the flags: what FS_FILE and FS_DIR share with FS_CHAR passes.\<close>

definition is_dev :: "mem \<Rightarrow> addr \<Rightarrow> bool" where
  "is_dev m d \<longleftrightarrow> m (i_flags d) AND FS_CHAR \<noteq> 0 \<or> m (i_flags d) AND FS_BLK \<noteq> 0"

definition devfs_write ::
  "hw \<Rightarrow> image \<Rightarrow> addr \<Rightarrow> addr \<Rightarrow> addr \<Rightarrow> u32 \<Rightarrow> u32 \<Rightarrow> 'a console_scheme \<Rightarrow> (u32 \<times> 'a console_scheme) option" where
  "devfs_write hw img ebp dev buf sz off s =
     do {
       s \<leftarrow> assert (dev \<noteq> 0) s;
       if \<not> is_dev (mem s) dev then Some (- EINVAL, s\<lparr>errno := EINVAL\<rparr>)
       else let s = snd (dev_seek img (ld32 (mem s) (i_impl dev)) off SEEK_SET s)
            in dev_write img (kernel_code hw img ebp) (ld32 (mem s) (i_impl dev)) buf sz s
     }"

definition devfs_read ::
  "hw \<Rightarrow> image \<Rightarrow> addr \<Rightarrow> addr \<Rightarrow> addr \<Rightarrow> u32 \<Rightarrow> u32 \<Rightarrow> 'a console_scheme \<Rightarrow> (u32 \<times> 'a console_scheme) option" where
  "devfs_read hw img ebp dev buf sz off s =
     do {
       s \<leftarrow> assert (dev \<noteq> 0) s;
       if \<not> is_dev (mem s) dev then Some (- EINVAL, s\<lparr>errno := EINVAL\<rparr>)
       else let s = snd (dev_seek img (ld32 (mem s) (i_impl dev)) off SEEK_SET s)
            in dev_read img (kernel_code hw img ebp) (ld32 (mem s) (i_impl dev)) buf sz s
     }"

section \<open>ramfs.c\<close>

text \<open>The loop over the file headers of the disk; \<open>files\<close> is their array.\<close>

fun ramfs_entries :: "image \<Rightarrow> addr \<Rightarrow> nat list \<Rightarrow> 'a fs_scheme \<Rightarrow> 'a fs_scheme option" where
  "ramfs_entries img files [] s = Some s"
| "ramfs_entries img files (i # is) s =
     (let f = files + sizeof_rd_fileheader * of_nat i; e = rd_files s + sizeof_inode * of_nat i
      in do {
        s \<leftarrow> assert (ld32 (mem s) (rf_magic f) = RD_FILESIG) s;
        let s = say (Serial_printf (''[ramfs] creating inode for `%s'' @ CHR 0x27 # nl) [ArgW (rf_name f)]) s;
        m \<leftarrow> strcpy (mem s) (i_name e) (rf_name f);
        let m = m(i_flags e := FS_FILE);
        let m = st32 m (i_ino e) (of_nat i);
        let m = st32 m (i_impl e) (ld32 m (rf_offset f));
        let m = st32 m (i_size e) (ld32 m (rf_size f));
        let m = st32 m (i_read e) (img Ramfs_read);
        ramfs_entries img files is (s\<lparr>mem := m\<rparr>)
      })"

text \<open>The root directory: the first part of the work on \<open>rd_root\<close>.\<close>

definition ramfs_root :: "image \<Rightarrow> 'a fs_scheme \<Rightarrow> 'a fs_scheme option" where
  "ramfs_root img s =
     do {
       let s = say (Serial_print (''[ramfs] creating inode for `/'' @ CHR 0x27 # nl)) s;
       r \<leftarrow> kmalloc s sizeof_inode;
       let s = (snd r)\<lparr>rd_root := fst r\<rparr>;
       let m = memset (mem s) (rd_root s) 0 sizeof_inode;
       let m = put_str m (i_name (rd_root s)) ''ramdisk'';
       let m = m(i_flags (rd_root s) := FS_DIR);
       let m = st32 m (i_readdir (rd_root s)) (img Ramfs_readdir);
       let m = st32 m (i_finddir (rd_root s)) (img Ramfs_finddir);
       Some (s\<lparr>mem := m\<rparr>)
     }"

text \<open>
  The variable \<open>header\<close>, whose address is passed to the driver, lives at \<open>sp\<close> on the stack. The
  counts are kept at the widths of the source: nfiles has 16 bits, the sums 32.
\<close>

definition ramfs_init :: "hw \<Rightarrow> image \<Rightarrow> addr \<Rightarrow> addr \<Rightarrow> 'a fs_scheme \<Rightarrow> (addr \<times> 'a fs_scheme) option" where
  "ramfs_init hw img ebp sp s =
     do {
       r \<leftarrow> dev_ioctl img (kernel_code hw img ebp) DEV_RAMDISK RD_GETADDR sp s;
       s \<leftarrow> assert (fst r = 0) (snd r);
       let header = ld32 (mem s) sp;
       let files = header + sizeof_rd_header;
       if ld16 (mem s) (rh_signature header) \<noteq> RD_HEADSIG then Some (0, say (Puts ''ramfs: bad signature'') s)
       else do {
         let nfiles = ucast (ld16 (mem s) (rh_nfiles header));
         let s = s\<lparr>file_base := nfiles * sizeof_rd_fileheader + sizeof_rd_header, rd_nfiles := nfiles\<rparr>;
         s \<leftarrow> ramfs_root img s;
         r \<leftarrow> kmalloc s ((ucast (ld16 (mem s) (rh_nfiles header)) + 1) * sizeof_inode);
         let s = (snd r)\<lparr>rd_files := fst r\<rparr>;
         let m = st32 (mem s) (i_ptr (rd_root s)) (rd_files s);
         let m = memset m (rd_files s) 0 ((ucast (ld16 m (rh_nfiles header)) + 1) * sizeof_inode);
         s \<leftarrow> ramfs_entries img files [0..<unat (rd_nfiles s)] (s\<lparr>mem := m\<rparr>);
         let i = rd_nfiles s;
         let s = s\<lparr>rd_nfiles := rd_nfiles s + 1\<rparr>;
         let e = rd_files s + sizeof_inode * i;
         let m = st32 (mem s) (i_ino e) i;
         let m = st32 m (i_finddir e) (img Ramfs_finddir);
         let m = st32 m (i_readdir e) (img Ramfs_readdir);
         r \<leftarrow> devfs_init img e (s\<lparr>mem := m\<rparr>);
         let s = snd r;
         Some (rd_root s, s\<lparr>mem := st32 (mem s) (i_impl (rd_root s)) (rd_nfiles s)\<rparr>)
       }
     }"

definition ramfs_readdir :: "image \<Rightarrow> addr \<Rightarrow> u32 \<Rightarrow> 'a machine_scheme \<Rightarrow> (addr \<times> 'a machine_scheme) option" where
  "ramfs_readdir img node index s =
     (if ld32 (mem s) (i_impl node) \<le> index then Some (0, s)
      else do {
        m \<leftarrow> strcpy (mem s) (d_name (img Dirent)) (i_name (ld32 (mem s) (i_ptr node) + sizeof_inode * index));
        Some (img Dirent, s\<lparr>mem := st32 m (d_ino (img Dirent)) index\<rparr>)
      })"

function ramfs_find_loop :: "mem \<Rightarrow> addr \<Rightarrow> addr \<Rightarrow> u32 \<Rightarrow> addr option" where
  "ramfs_find_loop m node name i =
     (if i < ld32 m (i_impl node)
      then do {
        r \<leftarrow> strcmp m (i_name (ld32 m (i_ptr node) + sizeof_inode * i)) name;
        if r = 0 then Some (ld32 m (i_ptr node) + sizeof_inode * i) else ramfs_find_loop m node name (i + 1)
      }
      else Some 0)"
  by pat_completeness auto
termination
proof (relation "measure (\<lambda>(m, node, name, i). unat (ld32 m (i_impl node)) - unat i)", goal_cases)
  case (2 m node name i r)
  then have "unat i < unat (ld32 m (i_impl node))" by (simp add: word_less_nat_alt)
  moreover from this have "unat (i + 1) = unat i + 1" using unat_lt32 [of "ld32 m (i_impl node)"] by (simp add: unat_Suc32)
  ultimately show ?case by simp
qed simp

definition ramfs_finddir :: "addr \<Rightarrow> addr \<Rightarrow> 'a machine_scheme \<Rightarrow> (addr \<times> 'a machine_scheme) option" where
  "ramfs_finddir node name s = do { p \<leftarrow> ramfs_find_loop (mem s) node name 0; Some (p, s) }"

text \<open>The file is read whole, whatever \<open>sz\<close>; the offset applies to the destination.\<close>

definition ramfs_read ::
  "hw \<Rightarrow> image \<Rightarrow> addr \<Rightarrow> addr \<Rightarrow> addr \<Rightarrow> u32 \<Rightarrow> u32 \<Rightarrow> 'a fs_scheme \<Rightarrow> (u32 \<times> 'a fs_scheme) option" where
  "ramfs_read hw img ebp node buf sz offset s =
     (let s = snd (dev_seek img DEV_RAMDISK (file_base s + ld32 (mem s) (i_impl node)) SEEK_SET s)
      in do {
        r \<leftarrow> dev_read img (kernel_code hw img ebp) DEV_RAMDISK (buf + offset) (ld32 (mem s) (i_size node)) s;
        Some (sz, snd r)
      })"

section \<open>wrap.c\<close>

text \<open>
  The calls through the pointers of an inode. No function of the source is ever stored in the
  fields open and close; a pointer to no function of the source has no meaning.
\<close>

definition fs_open :: "hw \<Rightarrow> image \<Rightarrow> addr \<Rightarrow> addr \<Rightarrow> u32 \<Rightarrow> 'a fs_scheme \<Rightarrow> (u32 \<times> 'a fs_scheme) option" where
  "fs_open hw img ebp node flags s =
     (let k = mem s (i_flags node) AND 0x7
      in if k = FS_CHAR \<or> k = FS_BLK then dev_open img (kernel_code hw img ebp) (ld32 (mem s) (i_impl node)) flags s
         else if ld32 (mem s) (i_open node) \<noteq> 0 then None
         else Some (- ENOSYS, s))"

definition fs_close :: "hw \<Rightarrow> image \<Rightarrow> addr \<Rightarrow> addr \<Rightarrow> 'a fs_scheme \<Rightarrow> (u32 \<times> 'a fs_scheme) option" where
  "fs_close hw img ebp node s =
     (let k = mem s (i_flags node)
      in if k = FS_CHAR \<or> k = FS_BLK then dev_close img (kernel_code hw img ebp) (ld32 (mem s) (i_ino node)) s
         else if ld32 (mem s) (i_close node) \<noteq> 0 then None
         else Some (- ENOSYS, s))"

definition fs_write ::
  "hw \<Rightarrow> image \<Rightarrow> addr \<Rightarrow> addr \<Rightarrow> addr \<Rightarrow> u32 \<Rightarrow> u32 \<Rightarrow> 'a fs_scheme \<Rightarrow> (u32 \<times> 'a fs_scheme) option" where
  "fs_write hw img ebp node buf sz off s =
     (let f = ld32 (mem s) (i_write node)
      in if f = 0 then Some (- ENOSYS, s)
         else if f = img Devfs_write then devfs_write hw img ebp node buf sz off s else None)"

definition fs_read ::
  "hw \<Rightarrow> image \<Rightarrow> addr \<Rightarrow> addr \<Rightarrow> addr \<Rightarrow> u32 \<Rightarrow> u32 \<Rightarrow> 'a fs_scheme \<Rightarrow> (u32 \<times> 'a fs_scheme) option" where
  "fs_read hw img ebp node buf sz off s =
     (let f = ld32 (mem s) (i_read node)
      in if f = 0 then Some (- ENOSYS, s)
         else if f = img Ramfs_read then ramfs_read hw img ebp node buf sz off s
         else if f = img Devfs_read then devfs_read hw img ebp node buf sz off s else None)"

text \<open>The macro CHECK_DIR: \<open>x->flags&0x7!=FS_DIR\<close> is \<open>x->flags&(0x7!=FS_DIR)\<close>, the lowest bit.\<close>

definition not_dir :: "mem \<Rightarrow> addr \<Rightarrow> bool" where
  "not_dir m x \<longleftrightarrow> m (i_flags x) AND (if (0x7 :: u32) \<noteq> ucast FS_DIR then 1 else 0) \<noteq> 0"

definition fs_readdir :: "image \<Rightarrow> addr \<Rightarrow> u32 \<Rightarrow> 'a machine_scheme \<Rightarrow> (addr \<times> 'a machine_scheme) option" where
  "fs_readdir img node index s =
     (if not_dir (mem s) node then Some (0, s\<lparr>errno := ENOTDIR\<rparr>)
      else let f = ld32 (mem s) (i_readdir node)
           in if f = 0 then Some (0, s)
              else if f = img Ramfs_readdir then ramfs_readdir img node index s else None)"

definition fs_finddir :: "image \<Rightarrow> addr \<Rightarrow> addr \<Rightarrow> 'a machine_scheme \<Rightarrow> (addr \<times> 'a machine_scheme) option" where
  "fs_finddir img node name s =
     (if not_dir (mem s) node then Some (0, s\<lparr>errno := ENOTDIR\<rparr>)
      else let f = ld32 (mem s) (i_finddir node)
           in if f = 0 then Some (0, s)
              else if f = img Ramfs_finddir then ramfs_finddir node name s else None)"

text \<open>strtok on the state.\<close>

definition fs_strtok :: "addr \<Rightarrow> addr \<Rightarrow> 'a fs_scheme \<Rightarrow> (addr \<times> 'a fs_scheme) option" where
  "fs_strtok str delim s =
     do { r \<leftarrow> strtok (mem s) (strtok_old s) str delim; Some (fst r, s\<lparr>mem := fst (snd r), strtok_old := snd (snd r)\<rparr>) }"

partial_function (option) lookup_loop :: "image \<Rightarrow> addr \<Rightarrow> 'a fs_scheme \<Rightarrow> (addr \<times> 'a fs_scheme) option" where
  "lookup_loop img node s =
     do {
       r \<leftarrow> fs_strtok 0 (img File_separator) s;
       if fst r \<noteq> 0 \<and> node \<noteq> 0
       then do {
         q \<leftarrow> fs_finddir img node (fst r) (snd r);
         lookup_loop img (fst q) (snd q)
       }
       else Some (node, snd r)
     }"

definition fs_lookup :: "image \<Rightarrow> addr \<Rightarrow> 'a fs_scheme \<Rightarrow> (addr \<times> 'a fs_scheme) option" where
  "fs_lookup img path s =
     do {
       s \<leftarrow> assert (fs_root s \<noteq> 0) s;
       s \<leftarrow> assert (path \<noteq> 0) s;
       s \<leftarrow> assert (0 < strlen (mem s) path) s;
       let node = fs_root s;
       let size = strlen (mem s) path + 1;
       r \<leftarrow> kmalloc s size;
       let tmp = fst r;
       let s = snd r;
       m \<leftarrow> strcpy (memset (mem s) tmp 0 size) tmp path;
       r \<leftarrow> fs_strtok tmp (img File_separator) (s\<lparr>mem := m\<rparr>);
       if fst r = 0
       then do { s \<leftarrow> kfree (snd r) tmp; fs_finddir img node path s }
       else do {
         q \<leftarrow> fs_finddir img node (fst r) (snd r);
         q \<leftarrow> lookup_loop img (fst q) (snd q);
         s \<leftarrow> kfree (snd q) tmp;
         Some (fst q, s)
       }
     }"

section \<open>Specification\<close>

text \<open>
  A tree of directories: a directory is the address of its entries and their names. \<open>N\<close> is the set
  of its inodes. A path is resolved name by name; 0 stands for no inode.
\<close>

type_synonym tree = "addr \<rightharpoonup> addr \<times> byte list list"

fun find_entry :: "addr \<Rightarrow> byte list list \<Rightarrow> byte list \<Rightarrow> addr" where
  "find_entry p [] t = 0"
| "find_entry p (n # ns) t = (if n = t then p else find_entry (p + sizeof_inode) ns t)"

definition tree_step :: "tree \<Rightarrow> addr \<Rightarrow> byte list \<Rightarrow> addr" where
  "tree_step T n t = (case T n of None \<Rightarrow> 0 | Some (p, names) \<Rightarrow> find_entry p names t)"

fun resolve :: "tree \<Rightarrow> addr \<Rightarrow> byte list list \<Rightarrow> addr" where
  "resolve T n [] = n"
| "resolve T n (t # ts) = (if n = 0 then 0 else resolve T (tree_step T n t) ts)"

definition dir_at :: "image \<Rightarrow> mem \<Rightarrow> addr \<Rightarrow> addr \<Rightarrow> byte list list \<Rightarrow> bool" where
  "dir_at img m n p names \<longleftrightarrow> \<not> not_dir m n \<and> img Ramfs_finddir \<noteq> 0 \<and> ld32 m (i_finddir n) = img Ramfs_finddir
     \<and> ld32 m (i_impl n) = of_nat (length names) \<and> length names < 2 ^ 25 \<and> ld32 m (i_ptr n) = p
     \<and> (\<forall>j < length names. cstr m (p + sizeof_inode * of_nat j) (names ! j) \<and> length (names ! j) \<le> 31)"

definition tree_ok :: "image \<Rightarrow> addr set \<Rightarrow> tree \<Rightarrow> mem \<Rightarrow> bool" where
  "tree_ok img N T m \<longleftrightarrow> (\<forall>n \<in> N. n \<noteq> 0 \<and> (case T n of
       None \<Rightarrow> not_dir m n \<or> ld32 m (i_finddir n) = 0
     | Some (p, names) \<Rightarrow> dir_at img m n p names \<and> (\<forall>j < length names. p + sizeof_inode * of_nat j \<in> N)))"

definition inode_bytes :: "addr set \<Rightarrow> addr set" where
  "inode_bytes N = (\<Union>n \<in> N. region n 76)"

section \<open>Lemmas\<close>

lemma find_loop:
  assumes d: "dir_at img m n p names" and t: "cstr m name t"
  shows "i \<le> length names \<Longrightarrow> ramfs_find_loop m n name (of_nat i) = Some (find_entry (p + sizeof_inode * of_nat i) (drop i names) t)"
proof (induction "length names - i" arbitrary: i)
  case 0
  then have "i = length names" by simp
  then show ?case using d by (subst ramfs_find_loop.simps) (simp add: dir_at_def)
next
  case (Suc k)
  then have i: "i < length names" by simp
  let ?e = "p + sizeof_inode * of_nat i"
  have b: "length names < 2 ^ 32" "i < 2 ^ 32" using d i by (auto simp: dir_at_def)
  then have lt: "(of_nat i :: u32) < of_nat (length names)" using i by (simp add: word_less_nat_alt unat_of_nat32)
  have nm: "cstr m ?e (names ! i)" using d i by (simp add: dir_at_def)
  obtain r where r: "strcmp m ?e name = Some r" "sint r = byte_diff (names ! i) t" using strcmp_cstr [OF nm t] by blast
  have "r = 0 \<longleftrightarrow> sint r = 0" using word_eq_iff_signed [of r 0] by simp
  then have "r = 0 \<longleftrightarrow> names ! i = t"
    using r(2) byte_diff_eq_0 [of "names ! i" t] nm t unfolding cstr_iff by metis
  moreover have "ramfs_find_loop m n name (of_nat (Suc i)) = Some (find_entry (p + sizeof_inode * of_nat (Suc i)) (drop (Suc i) names) t)"
    using Suc by (intro Suc.hyps(1)) auto
  moreover have "drop i names = names ! i # drop (Suc i) names" by (rule Cons_nth_drop_Suc [OF i, symmetric])
  ultimately show ?case using d lt r(1)
    by (subst ramfs_find_loop.simps) (simp add: dir_at_def i_name_def algebra_simps)
qed

lemma find_entry_in: "find_entry p names t = 0 \<or> (\<exists>j < length names. find_entry p names t = p + sizeof_inode * of_nat j)"
proof (induction names arbitrary: p)
  case (Cons n ns)
  show ?case
  proof (cases "n = t")
    case False
    with Cons.IH [of "p + sizeof_inode"] show ?thesis
    proof (elim disjE exE conjE)
      fix j assume "j < length ns" "find_entry (p + sizeof_inode) ns t = p + sizeof_inode + sizeof_inode * of_nat j"
      then show ?thesis using False by (intro disjI2 exI [of _ "Suc j"]) (simp add: algebra_simps)
    qed simp
  qed (auto intro: exI [of _ 0])
qed simp

lemma step_in: "tree_ok img N T m \<Longrightarrow> n \<in> N \<Longrightarrow> tree_step T n t = 0 \<or> tree_step T n t \<in> N"
  using find_entry_in by (fastforce simp: tree_ok_def tree_step_def split: option.splits)

lemma finddir_step:
  assumes "tree_ok img N T (mem s)" "n \<in> N" "cstr (mem s) name t"
  shows "\<exists>e. fs_finddir img n name s = Some (tree_step T n t, s\<lparr>errno := e\<rparr>)"
proof (cases "T n")
  case None
  then have "not_dir (mem s) n \<or> ld32 (mem s) (i_finddir n) = 0" using assms(1,2) by (force simp: tree_ok_def)
  then show ?thesis using None
    by (cases "not_dir (mem s) n") (auto simp: fs_finddir_def tree_step_def intro: exI [of _ "errno s"])
next
  case (Some a)
  then obtain p names where T: "T n = Some (p, names)" by (cases a) auto
  then have d: "dir_at img (mem s) n p names" using assms(1,2) by (force simp: tree_ok_def)
  have "ramfs_find_loop (mem s) n name 0 = Some (find_entry p names t)" using find_loop [OF d assms(3), of 0] by simp
  then show ?thesis using d T
    by (intro exI [of _ "errno s"]) (simp add: fs_finddir_def dir_at_def ramfs_finddir_def tree_step_def)
qed

lemma resolve_0: "resolve T 0 ts = 0"
  by (cases ts) auto

text \<open>A tree depends on the bytes of its inodes.\<close>

lemma inode_fields:
  "region (i_impl n) 4 \<subseteq> region n 76" "region (i_finddir n) 4 \<subseteq> region n 76" "region (i_ptr n) 4 \<subseteq> region n 76" "i_flags n \<in> region n 76"
  using region_sub [of 44 4 76 n] region_sub [of 68 4 76 n] region_sub [of 72 4 76 n] region_offset [of 32 n 76]
  by (simp_all add: i_impl_def i_finddir_def i_ptr_def i_flags_def)

lemma tree_cong:
  assumes ok: "tree_ok img N T m" and same: "\<And>a. a \<in> inode_bytes N \<Longrightarrow> m' a = m a"
  shows "tree_ok img N T m'"
proof -
  have fld: "ld32 m' q = ld32 m q" if "n \<in> N" "region q 4 \<subseteq> region n 76" for n q
    using that same by (intro ld32_cong) (auto simp: inode_bytes_def)
  have nd: "not_dir m' n = not_dir m n" if "n \<in> N" for n
  proof -
    have "i_flags n \<in> inode_bytes N" using that inode_fields(4) [of n] unfolding inode_bytes_def by blast
    then show ?thesis using same by (simp add: not_dir_def)
  qed
  have nm: "cstr m' n s" if "cstr m n s" "n \<in> N" "length s \<le> 31" for n s
    using that same region_mono [of "Suc (length s)" 76 n] by (intro cstr_cong [OF that(1)]) (auto simp: inode_bytes_def)
  have "dir_at img m' n p names" if "dir_at img m n p names" "n \<in> N" "\<And>j. j < length names \<Longrightarrow> p + sizeof_inode * of_nat j \<in> N" for n p names
    using that nm fld [OF that(2)] nd [OF that(2)] inode_fields [of n] by (simp add: dir_at_def)
  then show ?thesis using ok nd fld [OF _ inode_fields(2)] by (auto simp: tree_ok_def split: option.splits)
qed

text \<open>The loop over the rest of the path, which lies at \<open>q\<close> apart from the inodes.\<close>

lemma lookup_rest:
  fixes s :: "'a fs_scheme"
  assumes "tree_ok img N T (mem s)" "node = 0 \<or> node \<in> N" "strtok_old s = q" "cstr (mem s) q pth" "cstr (mem s) (img File_separator) [0x2F]"
    and "sep q (Suc (length pth)) (img File_separator) 2" "0 < unat q" "unat q + length pth < 2 ^ 32"
    and "region q (length pth) \<inter> inode_bytes N = {}"
  shows "\<exists>s'. lookup_loop img node s = Some (resolve T node (tokens {0x2F} pth), s') \<and> root s' = root s
    \<and> (\<forall>a. a \<notin> region q (length pth) \<longrightarrow> mem s' a = mem s a)"
  using assms
proof (induction "length pth" arbitrary: s node q pth rule: less_induct)
  case less
  let ?d = "img File_separator"
  have q0: "q \<noteq> 0" using less.prems(7) by auto
  have sp: "sep q (Suc (length pth)) ?d (Suc (length [0x2F :: byte]))" using less.prems(6) by (simp add: numeral_2_eq_2)
  show ?case
  proof (cases "dropWhile (\<lambda>c. c \<in> set [0x2F]) pth")
    case Nil
    have "tokens (set [0x2F]) pth = []" by (rule tokens_none [OF Nil])
    moreover have "strtok (mem s) q 0 ?d = Some (0, mem s, q + of_nat (length pth))"
      using strtok_NULL [OF q0] strtok_end [OF less.prems(4,5) q0 Nil] by metis
    ultimately show ?thesis using less.prems(3) by (subst lookup_loop.simps) (simp add: fs_strtok_def)
  next
    case (Cons c u)
    let ?w = "c # takeWhile (\<lambda>c. c \<notin> set [0x2F]) u"
    obtain ptr M1 old1 rest where st: "strtok (mem s) q 0 ?d = Some (ptr, M1, old1)" "ptr \<noteq> 0"
      "cstr M1 ptr ?w" "cstr M1 old1 rest" "cstr M1 ?d [0x2F]"
      "tokens (set [0x2F]) rest = tokens (set [0x2F]) (dropWhile (\<lambda>c. c \<notin> set [0x2F]) u)"
      "unat old1 + length rest = unat q + length pth" "unat q \<le> unat ptr"
      "rest \<noteq> [] \<Longrightarrow> unat ptr + Suc (Suc (length (takeWhile (\<lambda>c. c \<notin> set [0x2F]) u))) \<le> unat old1"
      "unat ptr < unat old1" "\<And>a. a \<notin> region q (length pth) \<Longrightarrow> M1 a = mem s a"
      by (rule strtok_split [OF less.prems(4,5) sp less.prems(7,8) Cons]) (rule that, assumption+)
    let ?s1 = "s\<lparr>mem := M1, strtok_old := old1\<rparr>"
    have tok: "tokens {0x2F} pth = ?w # tokens {0x2F} rest" using tokens_some [OF Cons] st(6) by simp
    have call: "fs_strtok 0 ?d s = Some (ptr, ?s1)" using st(1) less.prems(3) by (simp add: fs_strtok_def)
    show ?thesis
    proof (cases "node = 0")
      case True
      then show ?thesis using call tok st(11) by (subst lookup_loop.simps) simp
    next
      case False
      then have node: "node \<in> N" using less.prems(2) by simp
      have tr: "tree_ok img N T (mem ?s1)" using less.prems(9) st(11) by (intro tree_cong [OF less.prems(1)]) auto
      obtain e where fd: "fs_finddir img node ptr ?s1 = Some (tree_step T node ?w, ?s1\<lparr>errno := e\<rparr>)"
        using finddir_step [OF tr node, of ptr ?w] st(3) by auto
      let ?s2 = "?s1\<lparr>errno := e\<rparr>"
      define j where "j = unat old1 - unat q"
      have j: "old1 = q + of_nat j" "j + length rest = length pth" "0 < j"
        using st(7,8,10) less.prems(8) by (auto simp: j_def word_unat_eq_iff unat_add_of_nat32)
      have sub: "region old1 (length rest) \<subseteq> region q (length pth)"
        using j less.prems(8) region_sub [of j "length rest" "length pth" q] by auto
      have "sep old1 (Suc (length rest)) ?d 2"
        using sep_offset [OF less.prems(6), of j "Suc (length rest)"] j less.prems(8) by simp
      then obtain s' where IH: "lookup_loop img (tree_step T node ?w) ?s2 = Some (resolve T (tree_step T node ?w) (tokens {0x2F} rest), s')"
        "root s' = root ?s2" "\<And>a. a \<notin> region old1 (length rest) \<Longrightarrow> mem s' a = mem ?s2 a"
        using less.hyps [of rest ?s2 "tree_step T node ?w" old1] tr step_in [OF less.prems(1) node, of ?w] j st(4,5,7) sub less.prems(7,8,9)
        by auto
      have "mem s' a = mem s a" if "a \<notin> region q (length pth)" for a
        using that IH(3) [of a] st(11) [OF that] sub by auto
      then show ?thesis using IH(1,2) call tok fd False st(2) by (subst lookup_loop.simps) auto
    qed
  qed
qed

text \<open>Memory that an allocation does not touch: outside the heap, or in a block in use.\<close>

definition stable :: "ablock list \<Rightarrow> addr set \<Rightarrow> bool" where
  "stable bs A \<longleftrightarrow> (\<forall>x \<in> A. outside x \<or> (\<exists>(q, k) \<in> live_set bs. within x q k))"

text \<open>The block that a request gets can be released at once: it has no free block on both sides.\<close>

definition returns :: "ablock list \<Rightarrow> u32 \<Rightarrow> bool" where
  "returns bs sz \<longleftrightarrow> (case aalloc 0 (unat (round8 sz)) (unat HEAP_BASE) bs of (p, cs) \<Rightarrow> releasable cs (of_nat (p + 16)))"

lemma kmalloc_place:
  fixes s :: "'a heap_scheme"
  assumes "heap_ok s bs" "room bs sz" "kmalloc s sz = Some (q, s')" "returns bs sz"
  shows "\<exists>cs. heap_ok s' cs \<and> releasable cs q"
proof -
  obtain p cs where run: "aalloc 0 (unat (round8 sz)) (unat HEAP_BASE) bs = (p, cs)" by force
  obtain m l where "kmalloca s sz 0 = Some (of_nat (p + 16), s\<lparr>log := l, mem := m\<rparr>)" "heap_ok (s\<lparr>log := l, mem := m\<rparr>) cs"
    using kmalloca_refines [OF assms(1), where sz = sz and align = 0 and p = p and cs = cs] assms(2) run by (auto simp: room_def)
  with assms(3,4) run show ?thesis by (auto simp: kmalloc_def returns_def)
qed

lemma wr_wr: "length xs = length ys \<Longrightarrow> length ys \<le> 2 ^ 32 \<Longrightarrow> wr (wr m p ys) p xs = wr m p xs"
proof
  fix a assume l: "length xs = length ys" "length ys \<le> 2 ^ 32"
  show "wr (wr m p ys) p xs a = wr m p xs a"
  proof (cases "a \<in> region p (length xs)")
    case True
    then obtain i where "i < length xs" "a = p + of_nat i" by (auto elim: regionE)
    then show ?thesis using l by (simp add: wr_nth)
  qed (use l in \<open>simp add: wr_frame\<close>)
qed

text \<open>A copy of a string in a new block.\<close>

lemma kmalloc_strcpy:
  fixes s :: "'a heap_scheme"
  assumes ok: "heap_ok s bs" and rm: "room bs sz" and ret: "returns bs sz" and sz: "sz = of_nat (length pth) + 1" "length pth + 1 < 2 ^ 32"
    and path: "cstr (mem s) path pth" "stable bs (region path (length pth + 1))"
  shows "\<exists>p l m m2 cs k. kmalloc s sz = Some (p, s\<lparr>log := l, mem := m\<rparr>) \<and> strcpy (memset m p 0 sz) p path = Some m2
    \<and> heap_ok (s\<lparr>log := l, mem := m2\<rparr>) cs \<and> releasable cs p \<and> cstr m2 p pth \<and> length pth + 1 \<le> k
    \<and> live_set cs = insert (unat p, k) (live_set bs) \<and> unat p \<notin> fst ` live_set bs \<and> keeps bs (mem s) m2
    \<and> (\<forall>A. stable bs A \<longrightarrow> region p (length pth + 1) \<inter> A = {})"
proof -
  let ?n = "length pth + 1"
  have un: "unat sz = ?n" using sz unat_of_nat32 [of ?n] by (simp add: add.commute)
  obtain p m l cs k where f: "kmalloc s sz = Some (p, s\<lparr>log := l, mem := m\<rparr>)"
    "heap_ok (s\<lparr>log := l, mem := wr m p (pth @ [0])\<rparr>) cs" "?n \<le> k" "live_set cs = insert (unat p, k) (live_set bs)"
    "unat p \<notin> fst ` live_set bs" "\<forall>(q, j) \<in> live_set bs. \<forall>x. within x q j \<longrightarrow> wr m p (pth @ [0]) x = mem s x"
    "\<forall>x. outside x \<longrightarrow> wr m p (pth @ [0]) x = mem s x"
    using kmalloc_fill [OF ok rm, of "pth @ [0]"] un by auto
  let ?s2 = "s\<lparr>log := l, mem := wr m p (pth @ [0])\<rparr>"
  have o: "owns cs p ?n" using f(3,4) by (auto simp: owns_def)
  have rel: "releasable cs p"
  proof -
    obtain ds where d: "heap_ok (s\<lparr>log := l, mem := m\<rparr>) ds" "releasable ds p" using kmalloc_place [OF ok rm f(1) ret] by blast
    have "heap_ok (?s2\<lparr>mem := m\<rparr>) cs" using wr_frame [of _ p "pth @ [0]" m] sz(2) by (intro owns_store [OF f(2) o]) simp
    then have "ds = cs" using d(1) heap_ok_unique by auto
    then show ?thesis using d(2) by simp
  qed
  have dis: "region p ?n \<inter> A = {}" if "stable bs A" for A
  proof -
    have False if x: "x \<in> region p ?n" "x \<in> A" for x
    proof -
      obtain k' where b: "(unat p, k') \<in> live_set cs" "within x (unat p) k'" using owns_within [OF f(2) o x(1)] by blast
      consider "outside x" | q j where "(q, j) \<in> live_set bs" "within x q j" using \<open>stable bs A\<close> x(2) unfolding stable_def by blast
      then show False
      proof cases
        case 2
        then have "unat p \<noteq> q" using f(5) by force
        then show False using kheap.live_disjoint [OF f(2) b(1), of q j] 2 b(2) f(4) by (auto simp: within_def)
      qed (use owns_outside [OF f(2) o] x(1) in blast)
    qed
    then show ?thesis by blast
  qed
  have mz: "memset m p 0 sz = wr m p (replicate ?n 0)" using un by (simp add: memset_wr)
  have src: "cstr (memset m p 0 sz) path pth"
  proof (rule cstr_cong [OF path(1)])
    fix x assume x: "x \<in> region path (Suc (length pth))"
    then have "x \<notin> region p ?n" using dis [OF path(2)] by auto
    then have "wr m p (replicate ?n 0) x = m x" "wr m p (pth @ [0]) x = m x" using sz(2) by (intro wr_frame; simp)+
    then have "memset m p 0 sz x = wr m p (pth @ [0]) x" by (simp only: mz)
    then show "memset m p 0 sz x = mem s x" using x path(2) f(6,7) by (fastforce simp: stable_def)
  qed
  have "length pth < unat (p - path)"
  proof (rule ccontr)
    assume "\<not> length pth < unat (p - path)"
    then have "p \<in> region path ?n" by (simp add: region_def)
    moreover have "p \<in> region p ?n" by simp
    ultimately show False using dis [OF path(2)] by blast
  qed
  then have "strcpy (memset m p 0 sz) p path = Some (wr m p (pth @ [0]))"
    using strcpy_cstr [OF src] wr_wr [of "pth @ [0]" "replicate ?n 0" m p] sz(2) by (simp add: mz)
  moreover have "cstr (wr m p (pth @ [0])) p pth" using path(1) sz(2) by (intro cstr_wr) (auto simp: cstr_iff)
  moreover have "keeps bs (mem s) (wr m p (pth @ [0]))" using f(6,7) by (simp add: keeps_def)
  ultimately show ?thesis using f rel dis by blast
qed

lemma disjoint_sep: "region p n \<inter> region q k = {} \<Longrightarrow> 0 < n \<Longrightarrow> 0 < k \<Longrightarrow> sep p n q k"
proof -
  assume a: "region p n \<inter> region q k = {}" "0 < n" "0 < k"
  have "q \<notin> region p n" "p \<notin> region q k" using a region_base [of q k] region_base [of p n] by blast+
  then show ?thesis by (simp add: sep_def region_def)
qed

lemma stable_keeps: "stable bs A \<Longrightarrow> keeps bs m m' \<Longrightarrow> x \<in> A \<Longrightarrow> m' x = m x"
  unfolding stable_def keeps_def by fast

lemma stable_mono: "stable bs A \<Longrightarrow> B \<subseteq> A \<Longrightarrow> stable bs B"
  unfolding stable_def by blast

text \<open>Entering the loop with the whole path.\<close>

lemma lookup_unroll:
  fixes s :: "'a fs_scheme"
  assumes "fs_strtok tmp (img File_separator) s = Some (ptr, s1)" "ptr \<noteq> 0" "node \<noteq> 0" "tmp \<noteq> 0"
  shows "do { q \<leftarrow> fs_finddir img node ptr s1; lookup_loop img (fst q) (snd q) } = lookup_loop img node (s\<lparr>strtok_old := tmp\<rparr>)"
proof -
  have "fs_strtok 0 (img File_separator) (s\<lparr>strtok_old := tmp\<rparr>) = Some (ptr, s1)"
    using assms(1) strtok_NULL [OF assms(4), of "mem s" "img File_separator" "strtok_old s"] by (auto simp: fs_strtok_def bind_eq_Some_conv)
  then show ?thesis using assms(2,3) by (subst (2) lookup_loop.simps) simp
qed

lemma lookup_resolves:
  fixes s :: "'a fs_scheme"
  assumes ok: "heap_ok s bs" and tree: "tree_ok img N T (mem s)" "fs_root s \<in> N"
    and path: "path \<noteq> 0" "cstr (mem s) path pth" "length pth + 1 < 2 ^ 32" "tokens {0x2F} pth \<noteq> []"
    and sepr: "cstr (mem s) (img File_separator) [0x2F]"
    and st: "stable bs (inode_bytes N \<union> region path (length pth + 1) \<union> region (img File_separator) 2)"
    and room: "room bs (of_nat (length pth) + 1)" "returns bs (of_nat (length pth) + 1)"
  shows "\<exists>s' ds. fs_lookup img path s = Some (resolve T (fs_root s) (tokens {0x2F} pth), s') \<and> heap_ok s' ds
    \<and> live_set ds = live_set bs \<and> (\<forall>(q, k) \<in> live_set bs. \<forall>x. within x q k \<longrightarrow> mem s' x = mem s x)"
proof -
  let ?n = "length pth + 1" and ?sz = "of_nat (length pth) + 1 :: u32" and ?d = "img File_separator"
  have st': "stable bs (inode_bytes N)" "stable bs (region path ?n)" "stable bs (region ?d 2)" using st stable_mono by blast+
  obtain p l m m2 cs k where a: "kmalloc s ?sz = Some (p, s\<lparr>log := l, mem := m\<rparr>)" "strcpy (memset m p 0 ?sz) p path = Some m2"
    "heap_ok (s\<lparr>log := l, mem := m2\<rparr>) cs" "releasable cs p" "cstr m2 p pth" "?n \<le> k"
    "live_set cs = insert (unat p, k) (live_set bs)" "unat p \<notin> fst ` live_set bs" "keeps bs (mem s) m2"
    "\<And>A. stable bs A \<Longrightarrow> region p ?n \<inter> A = {}"
    using kmalloc_strcpy [OF ok room refl path(3,2) st'(2)] by blast
  let ?s2 = "s\<lparr>log := l, mem := m2\<rparr>"
  have o: "owns cs p ?n" using a(6,7) by (auto simp: owns_def)
  note pr = owns_range [OF a(3) o]
  have p0: "p \<noteq> 0" "0 < unat p" "unat p + length pth < 2 ^ 32" using pr by (auto simp: HEAP_END_def)
  have tree2: "tree_ok img N T m2" by (rule tree_cong [OF tree(1) stable_keeps [OF st'(1) a(9)]])
  have sep2: "cstr m2 ?d [0x2F]" by (rule cstr_cong [OF sepr stable_keeps [OF st'(3) a(9)]]) (simp add: numeral_2_eq_2)
  have sp: "sep p (Suc (length pth)) ?d 2" using a(10) [OF st'(3)] by (intro disjoint_sep) simp_all
  have sub: "region p (length pth) \<subseteq> region p ?n" by (rule region_mono) simp
  let ?s3 = "?s2\<lparr>strtok_old := p\<rparr>"
  obtain s' where lk: "lookup_loop img (fs_root s) ?s3 = Some (resolve T (fs_root s) (tokens {0x2F} pth), s')" "root s' = root s"
    "\<And>a. a \<notin> region p (length pth) \<Longrightarrow> mem s' a = m2 a"
    using lookup_rest [of img N T ?s3 "fs_root s" p pth] tree2 tree(2) a(5,10) sep2 sp p0 st'(1) sub by auto
  obtain c u where cu: "dropWhile (\<lambda>c. c \<in> set [0x2F]) pth = c # u"
    using path(4) tokens_none [of "set [0x2F]" pth] by (cases "dropWhile (\<lambda>c. c \<in> set [0x2F]) pth") auto
  have sp': "sep p (Suc (length pth)) ?d (Suc (length [0x2F :: byte]))" using sp by (simp add: numeral_2_eq_2)
  obtain ptr M1 old1 where tk: "strtok m2 p 0 ?d = Some (ptr, M1, old1)" "ptr \<noteq> 0"
    by (rule strtok_split [OF a(5) sep2 sp' p0(2,3) cu]) (rule that, assumption+)
  let ?s1 = "?s2\<lparr>mem := M1, strtok_old := old1\<rparr>"
  have tok: "fs_strtok p ?d ?s2 = Some (ptr, ?s1)"
    using tk(1) strtok_NULL [OF p0(1), of m2 ?d "strtok_old s"] by (simp add: fs_strtok_def)
  have r0: "fs_root s \<noteq> 0" using tree by (auto simp: tree_ok_def)
  have "heap_ok (?s2\<lparr>mem := mem s'\<rparr>) cs" using lk(3) sub by (intro owns_store [OF a(3) o]) auto
  then have ok': "heap_ok s' cs" using lk(2) heap_ok_fields [of s' "?s2\<lparr>mem := mem s'\<rparr>" cs] by simp
  obtain s4 ds j where fr: "kfree s' p = Some s4" "heap_ok s4 ds" "(unat p, j) \<in> live_set cs" "live_set ds = live_set cs - {(unat p, j)}"
    "\<forall>(q, k) \<in> live_set cs. \<forall>x. within x q k \<longrightarrow> mem s4 x = mem s' x"
    using kfree_contract [OF ok' a(4)] by blast
  have "pth \<noteq> []" using cu by auto
  then have len: "0 < (of_nat (length pth) :: u32)" using path(3) of_nat_eq_0_32 [of "length pth"] by (simp add: word_greater_zero_iff)
  have sl: "strlen (mem s) path = of_nat (length pth)" using path(2,3) by simp
  have "fs_lookup img path s = Some (resolve T (fs_root s) (tokens {0x2F} pth), s4)"
  proof -
    obtain q where "fs_finddir img (fs_root s) ptr ?s1 = Some q" "lookup_loop img (fst q) (snd q) = Some (resolve T (fs_root s) (tokens {0x2F} pth), s')"
      using lookup_unroll [of p img ?s2 ptr ?s1 "fs_root s"] tok tk(2) r0 p0(1) lk(1) by (auto simp: bind_eq_Some_conv)
    then show ?thesis using a(1,2) tok tk(2) r0 path(1) len fr(1) by (simp add: fs_lookup_def assert_def sl)
  qed
  moreover have "live_set ds = live_set bs" using fr(3,4) a(7,8) by force
  moreover have "mem s4 x = mem s x" if "(q, k) \<in> live_set bs" "within x q k" for q k x
  proof -
    have "stable bs {x}" using that unfolding stable_def by blast
    then have "x \<notin> region p (length pth)" "m2 x = mem s x" using a(10) [of "{x}"] sub stable_keeps [of bs "{x}" "mem s" m2 x] a(9) by auto
    then show ?thesis using fr(5) that a(7) lk(3) by fastforce
  qed
  ultimately show ?thesis using fr(2) by blast
qed

subsection \<open>Reading a file\<close>

text \<open>A file of the RAM disk: \<open>n\<close> bytes at \<open>src\<close>, its inode apart from the offset field of the device.\<close>

definition file_at :: "image \<Rightarrow> addr \<Rightarrow> 'a fs_scheme \<Rightarrow> addr \<Rightarrow> u32 \<Rightarrow> bool" where
  "file_at img node s src n \<longleftrightarrow> img Ramfs_read \<noteq> 0 \<and> ld32 (mem s) (i_read node) = img Ramfs_read \<and> ld32 (mem s) (i_size node) = n
     \<and> (\<exists>a. ramdisk_at img (mem s) a \<and> src = a + (file_base s + ld32 (mem s) (i_impl node)))
     \<and> region node 76 \<inter> region (dev_offset (dev_ptr img DEV_RAMDISK)) 4 = {}
     \<and> region (ld32 (mem s) (dev_data (dev_ptr img DEV_RAMDISK))) 8 \<inter> region (dev_offset (dev_ptr img DEV_RAMDISK)) 4 = {}
     \<and> region src (unat n) \<inter> region (dev_offset (dev_ptr img DEV_RAMDISK)) 4 = {}"

lemma read_file:
  fixes s :: "'a fs_scheme"
  assumes f: "file_at img node s src n" and n: "0 < sint n" and dest: "dest_ok img (mem s) src (buf + off) n"
  shows "\<exists>s'. fs_read hw img ebp node buf sz off s = Some (sz, s') \<and> rd (mem s') (buf + off) (unat n) = rd (mem s) src (unat n)
    \<and> (\<forall>x. x \<notin> region (buf + off) (unat n) \<longrightarrow> x \<notin> region (dev_offset (dev_ptr img DEV_RAMDISK)) 4 \<longrightarrow> mem s' x = mem s x)
    \<and> s' = s\<lparr>mem := mem s'\<rparr>"
proof -
  let ?d = "dev_ptr img DEV_RAMDISK" and ?k = "file_base s + ld32 (mem s) (i_impl node)"
  let ?m1 = "st32 (mem s) (dev_offset ?d) ?k"
  let ?s1 = "s\<lparr>mem := ?m1\<rparr>"
  obtain a where a: "ramdisk_at img (mem s) a" "src = a + ?k" using f by (auto simp: file_at_def)
  have ap: "region (ld32 (mem s) (dev_data ?d)) 8 \<inter> region (dev_offset ?d) 4 = {}" using f by (simp add: file_at_def)
  have fr: "?m1 x = mem s x" if "x \<notin> region (dev_offset ?d) 4" for x using that by (rule st32_frame)
  have at1: "ramdisk_at img ?m1 a" "ramdisk_meta img ?m1 = ramdisk_meta img (mem s)"
    using ramdisk_cong [OF a(1) fr ap] by auto
  have dd: "ld32 ?m1 (dev_data ?d) = ld32 (mem s) (dev_data ?d)" using dev_fields(1) [of ?d] by (simp add: ld32_st32_other sep_sym)
  have size: "ld32 ?m1 (i_size node) = n"
  proof -
    have "region (i_size node) 4 \<subseteq> region node 76" using region_sub [of 36 4 76 node] by (simp add: i_size_def)
    then have "ld32 ?m1 (i_size node) = ld32 (mem s) (i_size node)" using f by (intro ld32_cong fr) (auto simp: file_at_def)
    then show ?thesis using f by (simp add: file_at_def)
  qed
  have o: "ramdisk_offset img (mem ?s1) = ?k" by (simp add: ramdisk_offset_def)
  have "dest_ok img (mem ?s1) src (buf + off) n" using dest at1(2) by (simp add: dest_ok_def)
  then obtain m where r: "dev_read img (kernel_code hw img ebp) DEV_RAMDISK (buf + off) n ?s1 = Some (n, ?s1\<lparr>mem := m\<rparr>)"
    "rd m (buf + off) (unat n) = rd ?m1 src (unat n)"
    "\<And>x. x \<notin> region (buf + off) (unat n) \<Longrightarrow> x \<notin> region (dev_offset ?d) 4 \<Longrightarrow> m x = ?m1 x"
    using kernel_disk.dev_read_ramdisk [of img ?s1 a n src "buf + off" hw ebp] at1(1) n a(2) o ap dd by auto
  have "rd ?m1 src (unat n) = rd (mem s) src (unat n)"
    using f unat_lt32 [of n] by (intro rd_cong fr) (auto simp: file_at_def)
  moreover have "fs_read hw img ebp node buf sz off s = Some (sz, ?s1\<lparr>mem := m\<rparr>)"
    using f r(1) size by (simp add: fs_read_def file_at_def ramfs_read_def dev_seek_at)
  ultimately show ?thesis using r(2,3) fr by auto
qed

section \<open>Properties\<close>

text \<open>
  C15: fs_read on a file of the RAM disk copies the whole file, as many bytes as the inode says and
  not as many as were asked for, to the destination moved by the offset; the result is the number
  that was asked for. But the destination and the offset of the device, the memory stays.
\<close>

theorem fs_read_file:
  fixes s :: "'a fs_scheme"
  assumes "file_at img node s src n" and "0 < sint n" and "dest_ok img (mem s) src (buf + off) n"
  shows "\<exists>s'. fs_read hw img ebp node buf sz off s = Some (sz, s') \<and> rd (mem s') (buf + off) (unat n) = rd (mem s) src (unat n)
    \<and> (\<forall>x. x \<notin> region (buf + off) (unat n) \<longrightarrow> x \<notin> region (dev_offset (dev_ptr img DEV_RAMDISK)) 4 \<longrightarrow> mem s' x = mem s x)"
  using read_file [OF assms, of hw ebp sz] by blast

definition fs_of :: "mem \<Rightarrow> addr \<Rightarrow> fs" where
  "fs_of m r = \<lparr>mem = m, errno = 0, log = [], io = [], serial_enabled = 0, root = HEAP_BASE, entries = 0, handlers = 0,
     idtr = \<lparr>limit = 0, base = 0\<rparr>, idt_reg = \<lparr>limit = 0, base = 0\<rparr>, frame_set = 0, tables = 0, cr0 = 0x11, cr2 = 0, cr3 = 0,
     busy = 0, ticks = 0, current_tty = 0, tty_initialised = 1, pending = [],
     fs_root = r, rd_files = 0, rd_root = 0, file_base = 0, rd_nfiles = 0, strtok_old = 0\<rparr>"

definition fs_img :: image where
  "fs_img = demo_img(Ramfs_finddir := 0x1050, Ramfs_read := 0x1060, File_separator := 0x5100)"

text \<open>An open RAM disk at 0x5000 and the inode at 0x6000 of its bytes 1 to 3.\<close>

definition disk_low :: mem where
  "disk_low = (st32 (st32 (st32 (st32 (st32 (st32 (st32 (st32 (st32 (\<lambda>_. 0) 0x2048 0x1010) 0x204C 0x1020) 0x2050 0x1030) 0x2054 0x1040)
     0x2040 0x7000) 0x7000 0x5000) 0x603C 0x1060) 0x6024 3) 0x602C 1) (0x5001 := 2, 0x5002 := 3, 0x5003 := 4)"

lemma disk_low_at: "ld32 disk_low 0x2044 = 0" "ld32 disk_low 0x2048 = 0x1010" "ld32 disk_low 0x204C = 0x1020" "ld32 disk_low 0x2050 = 0x1030"
  "ld32 disk_low 0x2054 = 0x1040" "ld32 disk_low 0x2040 = 0x7000" "ld32 disk_low 0x7000 = 0x5000"
  "ld32 disk_low 0x603C = 0x1060" "ld32 disk_low 0x6024 = 3" "ld32 disk_low 0x602C = 1" "rd disk_low 0x5001 3 = [2, 3, 4]"
  by (simp_all add: disk_low_def ld32_def st32_def)

theorem fs_read_file_witness:
  "\<exists>s'. fs_read (\<lambda>_ _. 0) fs_img 0 0x6000 0x8000 100 0 (fs_of disk_low 0x6000) = Some (100, s') \<and> rd (mem s') 0x8000 3 = [2, 3, 4]"
proof -
  let ?s = "fs_of disk_low 0x6000"
  have d: "dev_ptr fs_img DEV_RAMDISK = 0x202C" by (simp add: dev_ptr_def fs_img_def demo_img_def sizeof_device_def DEV_RAMDISK_def)
  have img: "fs_img Ramfs_read = 0x1060" "fs_img Ramdisk_read = 0x1010" "fs_img Ramdisk_open = 0x1020" "fs_img Ramdisk_close = 0x1030"
    "fs_img Ramdisk_ioctl = 0x1040" by (simp_all add: fs_img_def demo_img_def)
  have at: "ramdisk_at fs_img disk_low 0x5000"
    by (simp add: ramdisk_at_def ramdisk_entry_def d img disk_low_at dev_write_fn_def dev_read_fn_def dev_open_fn_def dev_close_fn_def dev_ioctl_fn_def dev_data_def)
  have ap: "region a n \<inter> region (0x203C :: addr) 4 = {}" if "0x2040 \<le> unat a" "unat a + n \<le> 0x10000" for a n
    using that region_unat [of a n] region_unat [of "0x203C" 4] by auto
  have fil: "file_at fs_img 0x6000 ?s 0x5001 3"
    using at ap [of "0x6000" 76] ap [of "0x7000" 8] ap [of "0x5001" 3]
    by (simp add: file_at_def fs_of_def d img disk_low_at i_read_def i_size_def i_impl_def dev_data_def dev_offset_def)
  have "region 0x8000 3 \<inter> region (0x202C :: addr) 44 = {}" "region 0x8000 3 \<inter> region (0x7000 :: addr) 8 = {}" by (rule sep_region; simp add: sep_def)+
  then have "dest_ok fs_img (mem ?s) 0x5001 (0x8000 + 0) 3"
    by (simp add: dest_ok_def ramdisk_meta_def fs_of_def d disk_low_at dev_data_def Int_Un_distrib)
  from fs_read_file [OF fil _ this, of "\<lambda>_ _. 0" 0 100] show ?thesis using disk_low_at(11) by (auto simp: fs_of_def)
qed

text \<open>
  C3: fs_lookup. In a tree of directories, a path with at least one name is resolved name by name
  from the root, with NULL when a name is missing or an inner inode is no directory: the result is
  that of the abstract resolution of the names between the separators. The copy of the path is
  released: the heap has the same blocks in use as before, with the same contents.
\<close>

theorem fs_lookup_resolves:
  fixes s :: "'a fs_scheme"
  assumes "heap_ok s bs" and "tree_ok img N T (mem s)" and "fs_root s \<in> N"
    and "path \<noteq> 0" and "cstr (mem s) path pth" and "length pth + 1 < 2 ^ 32" and "tokens {0x2F} pth \<noteq> []"
    and "cstr (mem s) (img File_separator) [0x2F]"
    and "stable bs (inode_bytes N \<union> region path (length pth + 1) \<union> region (img File_separator) 2)"
    and "room bs (of_nat (length pth) + 1)" and "returns bs (of_nat (length pth) + 1)"
  shows "\<exists>s' ds. fs_lookup img path s = Some (resolve T (fs_root s) (tokens {0x2F} pth), s') \<and> heap_ok s' ds
    \<and> live_set ds = live_set bs \<and> (\<forall>(q, k) \<in> live_set bs. \<forall>x. within x q k \<longrightarrow> mem s' x = mem s x)"
  by (rule lookup_resolves [OF assms])

text \<open>A root directory at 0x6000 with one file a.\<close>

definition fs_low :: mem where
  "fs_low = (st32 (st32 (st32 (\<lambda>_. 0) 0x602C 1) 0x6044 0x1050) 0x6048 0x6100)
     (0x6020 := 2, 0x6100 := 0x61, 0x5000 := 0x2F, 0x5001 := 0x61, 0x5100 := 0x2F)"

lemma fs_low_at: "ld32 fs_low 0x602C = 1" "ld32 fs_low 0x6044 = 0x1050" "ld32 fs_low 0x6048 = 0x6100" "fs_low 0x6020 = 2"
  "ld32 fs_low 0x6144 = 0" "cstr fs_low 0x6100 [0x61]" "cstr fs_low 0x5000 [0x2F, 0x61]" "cstr fs_low 0x5100 [0x2F]"
  by (simp_all add: fs_low_def ld32_def st32_def)

theorem fs_lookup_resolves_witness:
  "\<exists>s'. fs_lookup fs_img 0x5000 (fs_of (demo_mem fs_low) 0x6000) = Some (0x6100, s')"
proof -
  let ?s = "fs_of (demo_mem fs_low) 0x6000" and ?N = "{0x6000, 0x6100 :: addr}" and ?T = "[0x6000 \<mapsto> (0x6100, [[0x61]])] :: tree"
  have hb: "unat HEAP_BASE = 0x400000" by (simp add: HEAP_BASE_def)
  have low: "demo_mem fs_low a = fs_low a" if "unat a < 0x400000" for a using that by (simp add: demo_mem_def outside_def hb)
  have l32: "ld32 (demo_mem fs_low) p = ld32 fs_low p" if "unat p + 4 \<le> 0x400000" for p
    using demo_low [of p 4] that hb by (intro ld32_cong) auto
  have ls: "cstr (demo_mem fs_low) p w" if "cstr fs_low p w" "unat p + length w < 0x400000" for p w
    using demo_low [of p "Suc (length w)"] that hb by (intro cstr_cong [OF that(1)]) auto
  have m: "mem ?s = demo_mem fs_low" "fs_root ?s = 0x6000" by (simp_all add: fs_of_def)
  have img: "fs_img Ramfs_finddir = 0x1050" "fs_img File_separator = 0x5100" by (simp_all add: fs_img_def)
  have heap: "heap_ok ?s [(True, 24)]"
    using demo_heap [of fs_low 0] heap_ok_fields [of ?s "console_of (demo_mem fs_low) 0" "[(True, 24)]"] by (simp add: fs_of_def console_of_def)
  have "not_dir (mem ?s) 0x6000 = False" using low [of "0x6020"] fs_low_at(4) by (simp add: m not_dir_def i_flags_def)
  then have tree: "tree_ok fs_img ?N ?T (mem ?s)"
    using fs_low_at l32 [of "0x602C"] l32 [of "0x6044"] l32 [of "0x6048"] l32 [of "0x6144"] ls [of "0x6100" "[0x61]"]
    by (simp add: tree_ok_def dir_at_def m img i_impl_def i_finddir_def i_ptr_def)
  have path: "cstr (mem ?s) 0x5000 [0x2F, 0x61]" "cstr (mem ?s) (fs_img File_separator) [0x2F]"
    using ls [of "0x5000" "[0x2F, 0x61]"] ls [of "0x5100" "[0x2F]"] fs_low_at by (simp_all add: m img)
  have tok: "tokens {0x2F :: byte} [0x2F, 0x61] = [[0x61]]" by (simp add: tokens.simps)
  have out: "outside_heap p n" if "unat p + n \<le> 0x400000" for p n using that low_region hb by simp
  have "stable [(True, 24)] (inode_bytes ?N \<union> region 0x5000 (length [0x2F, 0x61 :: byte] + 1) \<union> region (fs_img File_separator) 2)"
    using out [of "0x6000" 76] out [of "0x6100" 76] out [of "0x5000" "length [0x2F, 0x61 :: byte] + 1"] out [of "0x5100" 2]
    unfolding stable_def inode_bytes_def outside_heap_def img by auto
  moreover have "room [(True, 24)] (of_nat (length [0x2F, 0x61 :: byte]) + 1)" "returns [(True, 24)] (of_nat (length [0x2F, 0x61 :: byte]) + 1)"
    by (simp_all add: room_def returns_def heap_eval round8_def)
  ultimately obtain s' where "fs_lookup fs_img 0x5000 ?s = Some (resolve ?T (fs_root ?s) (tokens {0x2F} [0x2F, 0x61]), s')"
    using fs_lookup_resolves [OF heap tree _ _ path(1) _ _ path(2)] tok m(2) by auto
  then show ?thesis by (simp add: tok m(2) tree_step_def)
qed

end
