(* ===== verification/Acpi.thy ===== *)
theory Acpi
  imports Fs
begin

text \<open>
  Power management (kernel/acpi.c, include/cpu/acpi.h): the checksums of the tables, the search for
  the FADT and for the object \<open>_S5_\<close> in the AML code, enabling ACPI and switching the machine off.
  The tables lie in memory; the literals that are passed by address are symbols of the image.
\<close>

section \<open>State\<close>

record acpi = fs +
  no_shutdown :: bool
  SLP_TYPa :: u32
  SLP_TYPb :: u32
  SLP_EN :: u32
  PM1a_CNT :: u32
  PM1b_CNT :: u32

text \<open>Offsets in the packed structures.\<close>

definition sdt_signature :: "addr \<Rightarrow> addr" where "sdt_signature p = p"
definition sdt_len :: "addr \<Rightarrow> addr" where "sdt_len p = p + 4"
definition sizeof_sdt_header :: u32 where "sizeof_sdt_header = 36"
definition rsdt_sdt :: "addr \<Rightarrow> nat \<Rightarrow> addr" where "rsdt_sdt p i = p + sizeof_sdt_header + 4 * of_nat i"
definition rsdp_signature :: "addr \<Rightarrow> addr" where "rsdp_signature p = p"
definition rsdp_oem :: "addr \<Rightarrow> addr" where "rsdp_oem p = p + 9"
definition rsdp_revision :: "addr \<Rightarrow> addr" where "rsdp_revision p = p + 15"
definition rsdp_rsdt :: "addr \<Rightarrow> addr" where "rsdp_rsdt p = p + 16"
definition sizeof_rsdp :: u32 where "sizeof_rsdp = 20"
definition fadt_dsdt :: "addr \<Rightarrow> addr" where "fadt_dsdt p = p + 40"
definition fadt_smi_cmdport :: "addr \<Rightarrow> addr" where "fadt_smi_cmdport p = p + 48"
definition fadt_acpi_enable :: "addr \<Rightarrow> addr" where "fadt_acpi_enable p = p + 52"
definition fadt_pm1a_ctrlblk :: "addr \<Rightarrow> addr" where "fadt_pm1a_ctrlblk p = p + 64"
definition fadt_pm1b_ctrlblk :: "addr \<Rightarrow> addr" where "fadt_pm1b_ctrlblk p = p + 68"

section \<open>Operations\<close>

text \<open>The variable \<open>sum\<close> is not initialised: what it holds at the start is a parameter.\<close>

function checksum_loop :: "mem \<Rightarrow> addr \<Rightarrow> u32 \<Rightarrow> u32 \<Rightarrow> byte \<Rightarrow> byte" where
  "checksum_loop m p sz i acc = (if i < sz then checksum_loop m p sz (i + 1) (acc + m (p + i)) else acc)"
  by pat_completeness auto
termination
proof (relation "measure (\<lambda>(m, p, sz, i, acc). unat sz - unat i)", goal_cases)
  case (2 m p sz i acc)
  then have "unat i < unat sz" by (simp add: word_less_nat_alt)
  moreover from this have "unat (i + 1) = unat i + 1" using unat_lt32 [of sz] by (simp add: unat_Suc32)
  ultimately show ?case by simp
qed simp

definition checksum_valid :: "byte \<Rightarrow> mem \<Rightarrow> addr \<Rightarrow> u32 \<Rightarrow> bool" where
  "checksum_valid acc m ptr sz \<longleftrightarrow> checksum_loop m ptr sz 0 acc = 0"

fun list_sdts :: "addr \<Rightarrow> nat list \<Rightarrow> 'a machine_scheme \<Rightarrow> 'a machine_scheme" where
  "list_sdts rsdt [] s = s"
| "list_sdts rsdt (i # is) s =
     (let s = say (Serial_print (''[acpi]'' @ [CHR 0x09])) s;
          s = say (Serial_write (rd (mem s) (sdt_signature (ld32 (mem s) (rsdt_sdt rsdt i))) 4)) s;
          s = say (Serial_send 0x0A) s
      in list_sdts rsdt is s)"

fun find_sdt :: "eflags \<Rightarrow> image \<Rightarrow> mem \<Rightarrow> addr \<Rightarrow> nat list \<Rightarrow> addr" where
  "find_sdt fl img m rsdt [] = 0"
| "find_sdt fl img m rsdt (i # is) =
     (if memcmp fl m (img Str_FACP) (sdt_signature (ld32 m (rsdt_sdt rsdt i))) 4 = 0
      then ld32 m (rsdt_sdt rsdt i) else find_sdt fl img m rsdt is)"

definition find_fadt :: "eflags \<Rightarrow> image \<Rightarrow> addr \<Rightarrow> 'a machine_scheme \<Rightarrow> addr \<times> 'a machine_scheme" where
  "find_fadt fl img rsdt s =
     (let n_sdt = (ld32 (mem s) (sdt_len rsdt) - sizeof_sdt_header) div 4;
          s = say (Serial_printf (''[acpi] Available SDT:'' @ nl) [ArgW n_sdt]) s;
          s = list_sdts rsdt [0..<unat n_sdt] s
      in (find_sdt fl img (mem s) rsdt [0..<unat n_sdt], s))"

text \<open>The loop that waits for the controller: at most \<open>k\<close> polls, with a delay after each.\<close>

fun acpi_poll :: "hw \<Rightarrow> image \<Rightarrow> addr \<Rightarrow> addr \<Rightarrow> nat \<Rightarrow> 'a acpi_scheme \<Rightarrow> (bool \<times> 'a acpi_scheme) option" where
  "acpi_poll hw img ebp fadt 0 s = Some (False, s)"
| "acpi_poll hw img ebp fadt (Suc k) s =
     (let (v, s) = inw hw (ucast (ld32 (mem s) (fadt_pm1a_ctrlblk fadt))) s
      in if v AND 1 \<noteq> 0 then Some (True, s)
         else do {
           r \<leftarrow> waiting (\<lambda>evs. pit_delay (irq_handler (kernel_call hw img ebp)) evs 10) s;
           acpi_poll hw img ebp fadt k (snd r)
         })"

definition acpi_enable :: "hw \<Rightarrow> image \<Rightarrow> addr \<Rightarrow> addr \<Rightarrow> 'a acpi_scheme \<Rightarrow> (u32 \<times> 'a acpi_scheme) option" where
  "acpi_enable hw img ebp fadt s =
     (let s = s\<lparr>PM1a_CNT := ld32 (mem s) (fadt_pm1a_ctrlblk fadt), PM1b_CNT := ld32 (mem s) (fadt_pm1b_ctrlblk fadt)\<rparr>;
          (v, s) = inw hw (ucast (PM1a_CNT s)) s
      in if v AND 1 \<noteq> 0 then Some (0, say (Printf (''[acpi] already enabled'' @ nl) []) s)
         else if ld32 (mem s) (fadt_smi_cmdport fadt) \<noteq> 0 \<and> mem s (fadt_acpi_enable fadt) \<noteq> 0
         then let s = say (Serial_print (''[acpi] enabling'' @ nl)) s;
                  s = outb (ucast (ld32 (mem s) (fadt_smi_cmdport fadt))) (mem s (fadt_acpi_enable fadt)) s
              in do {
                r \<leftarrow> acpi_poll hw img ebp fadt 300 s;
                if fst r then Some (0, say (Puts ''[acpi] enabled!'') (snd r))
                else Some (1, say (Puts ''[acpi] not enabled!'') (snd r))
              }
         else Some (0, s))"

partial_function (option) acpi_search_s5 :: "eflags \<Rightarrow> image \<Rightarrow> mem \<Rightarrow> addr \<Rightarrow> u32 \<Rightarrow> addr option" where
  "acpi_search_s5 fl img m aml aml_len =
     do {
       s5 \<leftarrow> memmem fl m aml aml_len (img Str_S5) 4;
       if s5 \<noteq> 0
       then let pos = s5 - aml
            in if pos \<noteq> 0 \<and> pos + 4 < aml_len \<and> (m (s5 - 1) = 0x08 \<or> (pos \<noteq> 1 \<and> m (s5 - 1) = 0x5C \<and> m (s5 - 2) = 0x08))
                  \<and> m (s5 + 4) = 0x12
               then Some s5
               else acpi_search_s5 fl img m (s5 + 4) (aml_len - (pos + 4))
       else Some 0
     }"

definition acpi_shutdown_init :: "eflags \<Rightarrow> image \<Rightarrow> addr \<Rightarrow> 'a acpi_scheme \<Rightarrow> (u32 \<times> 'a acpi_scheme) option" where
  "acpi_shutdown_init fl img fadt s =
     (let dsdt = ld32 (mem s) (fadt_dsdt fadt);
          aml = dsdt + sizeof_sdt_header;
          aml_len = ld32 (mem s) (sdt_len dsdt)
      in do {
        s5 \<leftarrow> acpi_search_s5 fl img (mem s) aml aml_len;
        if s5 = 0 then Some (1, say (Serial_printf (''[acpi] `_S5_'' @ CHR 0x27 # '' not found'' @ nl) []) s)
        else let s = say (Serial_printf (''[acpi] `_S5_'' @ CHR 0x27 # '' found'' @ nl) []) s;
                 s = say (Serial_printf (''[acpi] `_S5_'' @ CHR 0x27 # '' package size: %d'' @ nl) [ArgW (ucast (mem s (s5 + 6)))]) s
             in Some (0, s\<lparr>SLP_TYPa := push_bit 10 (ucast (mem s (s5 + 8))), SLP_TYPb := push_bit 10 (ucast (mem s (s5 + 10)))\<rparr>)
      })"

definition acpi_shutdown :: "'a acpi_scheme \<Rightarrow> u32 \<times> 'a acpi_scheme" where
  "acpi_shutdown s =
     (let s = say (Serial_printf (''[acpi] shutting down...'' @ nl) []) s;
          s = say (Puts ''Shutting down...'') s
      in if no_shutdown s then (1, s)
         else let s = outw (ucast (PM1a_CNT s)) (ucast (SLP_TYPa s OR SLP_EN s)) s;
                  s = (if PM1b_CNT s \<noteq> 0 then outw (ucast (PM1b_CNT s)) (ucast (SLP_TYPb s OR SLP_EN s)) s else s)
              in (0, s))"

text \<open>The messages of acpi_init about a valid RSDP.\<close>

definition rsdp_report :: "addr \<Rightarrow> 'a machine_scheme \<Rightarrow> 'a machine_scheme" where
  "rsdp_report rsdp s =
     (let s = say (Serial_printf (''[acpi] RSDP at 0x%x is valid'' @ nl) [ArgW rsdp]) s;
          s = say (Serial_print (''[acpi] ******************************'' @ nl)) s;
          s = say (Serial_print ''[acpi] RSDP signature: `'') s;
          s = say (Serial_write (rd (mem s) (rsdp_signature rsdp) 8)) s;
          s = say (Serial_print (CHR 0x27 # nl)) s;
          s = say (Serial_printf ''[acpi] ACPI vendor: `'' []) s;
          s = say (Serial_write (rd (mem s) (rsdp_oem rsdp) 6)) s;
          s = say (Serial_printf (CHR 0x27 # nl @ ''[acpi] ACPI version: %s'' @ nl) [ArgS (if mem s (rsdp_revision rsdp) = 2 then ''2.0'' else ''1.0'')]) s
      in say (Serial_print (''[acpi] ******************************'' @ nl)) s)"

text \<open>\<open>j1\<close> and \<open>j2\<close> are what the two calls of checksum_valid find in their variable \<open>sum\<close>.\<close>

definition acpi_init ::
  "hw \<Rightarrow> eflags \<Rightarrow> image \<Rightarrow> addr \<Rightarrow> byte \<Rightarrow> byte \<Rightarrow> addr \<Rightarrow> 'a acpi_scheme \<Rightarrow> (u32 \<times> 'a acpi_scheme) option" where
  "acpi_init hw fl img ebp j1 j2 rsdp s =
     (if \<not> checksum_valid j1 (mem s) rsdp sizeof_rsdp then Some (1, say (Puts ''[acpi] invalid RSDP! no ACPI'') s)
      else let s = rsdp_report rsdp s;
               rsdt = ld32 (mem s) (rsdp_rsdt rsdp)
           in if \<not> checksum_valid j2 (mem s) rsdt (ld32 (mem s) (sdt_len rsdt)) then Some (1, say (Puts ''[acpi] invalid RSDT! no ACPI'') s)
              else let s = say (Serial_printf (''[acpi] RSDT at 0x%x is valid'' @ nl) [ArgW rsdt]) s;
                       (fadt, s) = find_fadt fl img rsdt s
                   in if fadt = 0 then Some (1, say (Puts ''[acpi] cannot find FADT! no ACPI'') s)
                      else do {
                        r \<leftarrow> acpi_enable hw img ebp fadt s;
                        if fst r \<noteq> 0 then Some (1, snd r)
                        else do {
                          r \<leftarrow> acpi_shutdown_init fl img fadt (snd r);
                          let s = (snd r)\<lparr>no_shutdown := fst r \<noteq> 0\<rparr>;
                          Some (0, if no_shutdown s then say (Serial_printf (''[acpi] shutdown feature unavailable'' @ nl) []) s else s)
                        }
                      })"

section \<open>Specification\<close>

text \<open>
  Where the object \<open>_S5_\<close> is declared: the name, after 0x08 or after 0x08 and a backslash, and
  before the package code 0x12; the first such place in a list of bytes.
\<close>

definition s5_name :: "byte list" where "s5_name = [0x5F, 0x53, 0x35, 0x5F]"

definition s5_at :: "byte list \<Rightarrow> nat \<Rightarrow> bool" where
  "s5_at bs i \<longleftrightarrow> 1 \<le> i \<and> i + 4 < length bs \<and> prefix s5_name (drop i bs)
     \<and> (bs ! (i - 1) = 0x08 \<or> 2 \<le> i \<and> bs ! (i - 1) = 0x5C \<and> bs ! (i - 2) = 0x08) \<and> bs ! (i + 4) = 0x12"

definition first_s5 :: "byte list \<Rightarrow> nat option" where
  "first_s5 bs = find (s5_at bs) [0..<length bs]"

section \<open>Lemmas\<close>

declare checksum_loop.simps [simp del]

lemma checksum_sum: "i \<le> sz \<Longrightarrow> checksum_loop m p sz i acc = acc + sum_list (rd m (p + i) (unat sz - unat i))"
proof (induction m p sz i acc rule: checksum_loop.induct)
  case (1 m p sz i acc)
  show ?case
  proof (cases "i < sz")
    case True
    then have u: "unat (i + 1) = unat i + 1" "i + 1 \<le> sz"
      using unat_lt32 [of sz] by (auto simp: unat_Suc32 word_less_nat_alt word_le_nat_alt)
    then have "unat sz - unat i = Suc (unat sz - unat (i + 1))" using True by (simp add: word_less_nat_alt)
    then show ?thesis using 1 True u(2) by (subst checksum_loop.simps) (simp add: add.assoc)
  next
    case False
    then have "i = sz" using 1 by simp
    then show ?thesis by (subst checksum_loop.simps) simp
  qed
qed

lemma find_sdt_eq:
  assumes "rd m (img Str_FACP) 4 = bytes ''FACP''"
  shows "find_sdt fl img m rsdt is = (case find (\<lambda>i. rd m (ld32 m (rsdt_sdt rsdt i)) 4 = bytes ''FACP'') is of
     None \<Rightarrow> 0 | Some i \<Rightarrow> ld32 m (rsdt_sdt rsdt i))"
proof -
  have "memcmp fl m (img Str_FACP) q 4 = 0 \<longleftrightarrow> rd m q 4 = bytes ''FACP''" for q
    using memcmp_eq_0 [of 4 fl m "img Str_FACP" q] assms by (simp del: rd_numeral) metis
  then show ?thesis by (induction "is") (simp_all add: sdt_signature_def del: rd_numeral)
qed

lemma name_nth:
  assumes "prefix s5_name (drop i bs)"
  shows "i + 4 \<le> length bs" "bs ! i = 0x5F" "bs ! (i + 1) = 0x53" "bs ! (i + 2) = 0x35" "bs ! (i + 3) = 0x5F"
proof -
  obtain zs where z: "drop i bs = s5_name @ zs" using assms by (auto simp: prefix_def)
  have "length (drop i bs) = 4 + length zs" using z by (simp add: s5_name_def)
  then show le: "i + 4 \<le> length bs" by simp
  have n: "bs ! (i + j) = (s5_name @ zs) ! j" if "j < 4" for j using that le z nth_drop [of i bs j] by simp
  show "bs ! i = 0x5F" "bs ! (i + 1) = 0x53" "bs ! (i + 2) = 0x35" "bs ! (i + 3) = 0x5F"
    using n [of 0] n [of 1] n [of 2] n [of 3] by (simp_all add: s5_name_def)
qed

lemma first_s5_Some: "s5_at bs i \<Longrightarrow> (\<And>j. j < i \<Longrightarrow> \<not> s5_at bs j) \<Longrightarrow> first_s5 bs = Some i"
proof -
  assume a: "s5_at bs i" "\<And>j. j < i \<Longrightarrow> \<not> s5_at bs j"
  then have "i < length bs" by (simp add: s5_at_def)
  with a show ?thesis unfolding first_s5_def find_Some_iff by (intro exI [of _ i]) simp
qed

lemma first_s5_None: "(\<And>i. \<not> s5_at bs i) \<Longrightarrow> first_s5 bs = None"
  by (simp add: first_s5_def find_None_iff)

text \<open>Two occurrences of the name overlap in one byte at most, and then the second is no declaration.\<close>

lemma no_overlap:
  assumes "prefix s5_name (drop i bs)" "i < j" "j < i + 4"
  shows "\<not> s5_at bs j"
proof
  assume s: "s5_at bs j"
  note a = name_nth [OF assms(1)]
  have b: "bs ! j = 0x5F" using s name_nth(2) by (auto simp: s5_at_def)
  consider "j = i + 1" | "j = i + 2" | "j = i + 3" using assms(2,3) by linarith
  then show False
  proof cases
    case 3
    then have "bs ! (j - 1) = 0x35" using a(4) by simp
    then show ?thesis using s by (auto simp: s5_at_def)
  qed (use a b in auto)
qed

lemma search_from:
  assumes pat: "rd m (img Str_S5) 4 = s5_name" and bs: "bs = rd m aml L" and b: "0 < unat aml" "unat aml + L < 2 ^ 32"
  shows "k \<le> L \<Longrightarrow> k = 0 \<or> 4 \<le> k \<and> prefix s5_name (drop (k - 4) bs) \<Longrightarrow> (\<And>i. i < k \<Longrightarrow> \<not> s5_at bs i) \<Longrightarrow>
    acpi_search_s5 fl img m (aml + of_nat k) (of_nat (L - k)) = Some (case first_s5 bs of None \<Rightarrow> 0 | Some i \<Rightarrow> aml + of_nat i)"
proof (induction "L - k" arbitrary: k rule: less_induct)
  case less
  let ?a = "aml + of_nat k"
  have len: "length bs = L" by (simp add: bs)
  have rest: "rd m ?a (unat (of_nat (L - k) :: u32)) = drop k bs"
    using less.prems(1) b rd_drop [of k L m aml] unat_of_nat32 [of "L - k"] by (simp add: bs del: of_nat_diff)
  have mm: "memmem fl m ?a (of_nat (L - k)) (img Str_S5) 4 = Some (case first_occ s5_name (drop k bs) of None \<Rightarrow> 0 | Some j \<Rightarrow> ?a + of_nat j)"
    using memmem_rd [of fl m ?a "of_nat (L - k)" "img Str_S5" 4] pat by (simp add: rest del: rd_numeral of_nat_diff)
  show ?case
  proof (cases "first_occ s5_name (drop k bs)")
    case None
    have "\<not> s5_at bs i" for i
    proof
      assume s: "s5_at bs i"
      then have "k \<le> i" using less.prems(3) [of i] by (cases "i < k") auto
      then have "drop i bs = drop (i - k) (drop k bs)" by simp
      then have "sublist s5_name (drop k bs)" using s unfolding s5_at_def by (metis prefix_imp_sublist sublist_drop sublist_order.order.trans)
      then show False using None first_occ_None by auto
    qed
    then show ?thesis using mm None first_s5_None by (subst acpi_search_s5.simps) simp
  next
    case (Some j)
    let ?i = "k + j"
    have pre: "prefix s5_name (drop ?i bs)" "\<And>x. x < j \<Longrightarrow> \<not> prefix s5_name (drop (k + x) bs)"
      using first_occ_Some [OF Some] by (auto simp: add.commute)
    have le: "?i + 4 \<le> L" using name_nth(1) [OF pre(1)] len by simp
    have s5: "?a + of_nat j = aml + of_nat ?i" by (simp add: add.assoc)
    have "unat (aml + of_nat ?i) = unat aml + ?i" using le b by (intro unat_add_of_nat32) simp
    then have nz: "aml + of_nat ?i \<noteq> 0" using b(1) by (metis add_is_0 less_numeral_extra(3) unsigned_0)
    have cond: "(of_nat j \<noteq> (0 :: u32) \<and> of_nat j + 4 < (of_nat (L - k) :: u32)
        \<and> (m (aml + of_nat ?i - 1) = 0x08 \<or> of_nat j \<noteq> (1 :: u32) \<and> m (aml + of_nat ?i - 1) = 0x5C \<and> m (aml + of_nat ?i - 2) = 0x08)
        \<and> m (aml + of_nat ?i + 4) = 0x12) \<longleftrightarrow> s5_at bs ?i"
    proof -
      have w: "of_nat j \<noteq> (0 :: u32) \<longleftrightarrow> j \<noteq> 0" "of_nat j \<noteq> (1 :: u32) \<longleftrightarrow> j \<noteq> 1"
        using le b of_nat_eq_0_32 [of j] of_nat_inj32 [of j 1] by auto
      have "unat (of_nat (j + 4) :: u32) = j + 4" "unat (of_nat (L - k) :: u32) = L - k" using le b by (intro unat_of_nat32; simp)+
      then have lt: "of_nat j + 4 < (of_nat (L - k) :: u32) \<longleftrightarrow> ?i + 4 < L" using less.prems(1) by (auto simp: word_less_nat_alt)
      have at: "m (aml + of_nat x) = bs ! x" if "x < L" for x using that nth_rd [of x L m aml] by (simp add: bs)
      have m1: "m (aml + of_nat ?i - 1) = bs ! (?i - 1)" if "1 \<le> ?i"
        using that le at [of "?i - 1"] by (simp add: of_nat_diff algebra_simps)
      have m2: "m (aml + of_nat ?i - 2) = bs ! (?i - 2)" if "2 \<le> ?i"
        using that le at [of "?i - 2"] by (simp add: of_nat_diff algebra_simps)
      have m4: "m (aml + of_nat ?i + 4) = bs ! (?i + 4)" if "?i + 4 < L" using at [OF that] by (simp add: algebra_simps)
      have before: "bs ! (k - 1) = 0x5F" "4 \<le> k" if "k \<noteq> 0" using less.prems(2) that name_nth(5) [of "k - 4" bs] by auto
      show ?thesis unfolding s5_at_def w lt len using pre(1) m1 m2 m4 before le by (cases "k = 0"; cases "j = 0"; cases "j = 1"; auto)
    qed
    define q where "q = aml + of_nat ?i"
    have mq: "memmem fl m ?a (of_nat (L - k)) (img Str_S5) 4 = Some q" "q - ?a = of_nat j" "q \<noteq> 0"
      using mm Some s5 nz by (simp_all add: q_def)
    have step: "acpi_search_s5 fl img m ?a (of_nat (L - k))
      = (if s5_at bs ?i then Some q else acpi_search_s5 fl img m (q + 4) (of_nat (L - k) - (of_nat j + 4)))"
      using mq(3) unfolding cond [symmetric] q_def [symmetric] by (subst acpi_search_s5.simps) (simp only: mq(1,2) bind.simps Let_def if_True simp_thms)
    have earlier: "\<not> s5_at bs x" if "x < ?i" for x
      using that less.prems(3) [of x] pre(2) [of "x - k"] by (cases "x < k") (auto simp: s5_at_def)
    show ?thesis
    proof (cases "s5_at bs ?i")
      case True
      then show ?thesis using first_s5_Some [OF True earlier] by (simp add: step q_def)
    next
      case False
      have adv: "q + 4 = aml + of_nat (?i + 4)" "of_nat (L - k) - (of_nat j + 4) = (of_nat (L - (?i + 4)) :: u32)"
        using le less.prems(1) by (simp_all add: q_def of_nat_diff algebra_simps)
      have "acpi_search_s5 fl img m ?a (of_nat (L - k)) = acpi_search_s5 fl img m (aml + of_nat (?i + 4)) (of_nat (L - (?i + 4)))"
        using False step unfolding adv by simp
      also have "\<dots> = Some (case first_s5 bs of None \<Rightarrow> 0 | Some i \<Rightarrow> aml + of_nat i)"
      proof (rule less.hyps)
        show "\<not> s5_at bs x" if "x < ?i + 4" for x
          using that earlier [of x] False no_overlap [OF pre(1), of x] by (cases x ?i rule: linorder_cases) auto
      qed (use le pre(1) in auto)
      finally show ?thesis .
    qed
  qed
qed

section \<open>Properties\<close>

text \<open>
  C11: acpi_search_s5 ends and gives the first place in the AML code where the object is declared,
  the name in an absolute path included, or NULL when there is none: skipping to the end of a name
  that is no declaration never skips one that is.
\<close>

theorem acpi_search_s5_first:
  assumes "rd m (img Str_S5) 4 = s5_name" and "0 < unat aml" and "unat aml + unat aml_len < 2 ^ 32"
  shows "acpi_search_s5 fl img m aml aml_len = Some (case first_s5 (rd m aml (unat aml_len)) of None \<Rightarrow> 0 | Some i \<Rightarrow> aml + of_nat i)"
  using search_from [of m img _ aml "unat aml_len" 0 fl] assms by simp

theorem acpi_search_s5_first_witness:
  "acpi_search_s5 (False, False) ((\<lambda>_. 0)(Str_S5 := 0x100)) (wr (wr (\<lambda>_. 0) 0x100 s5_name) 0x200
     [0x5F, 0x53, 0x35, 0x5F, 0x08, 0x5C, 0x5F, 0x53, 0x35, 0x5F, 0x12]) 0x200 11 = Some 0x206"
proof -
  let ?m = "wr (wr (\<lambda>_. 0) 0x100 s5_name) 0x200 [0x5F, 0x53, 0x35, 0x5F, 0x08, 0x5C, 0x5F, 0x53, 0x35, 0x5F, 0x12]"
  have bs: "rd ?m 0x200 (unat (11 :: u32)) = [0x5F, 0x53, 0x35, 0x5F, 0x08, 0x5C, 0x5F, 0x53, 0x35, 0x5F, 0x12]" by (simp add: s5_name_def)
  have "first_s5 [0x5F, 0x53, 0x35, 0x5F, 0x08, 0x5C, 0x5F, 0x53, 0x35, 0x5F, 0x12] = Some 6"
    by (simp add: first_s5_def s5_at_def s5_name_def upt_rec)
  with acpi_search_s5_first [of ?m "(\<lambda>_. 0)(Str_S5 := 0x100)" "0x200" 11 "(False, False)"]
  show ?thesis unfolding bs by (simp add: s5_name_def)
qed

text \<open>
  C16: acpi_shutdown_init and acpi_shutdown. When the object is declared in the AML code behind the
  header of the DSDT, switching off writes the two sleep types, bytes 8 and 10 after the place of
  the name, shifted to bit 10 and with the enable bit, to the PM1a register and to the PM1b
  register if there is one; without a declaration nothing is written and the calls fail.
\<close>

theorem acpi_power_off:
  fixes s :: "'a acpi_scheme"
  assumes "rd (mem s) (img Str_S5) 4 = s5_name"
    and "aml = ld32 (mem s) (fadt_dsdt fadt) + 36" and "n = unat (ld32 (mem s) (sdt_len (ld32 (mem s) (fadt_dsdt fadt))))"
    and "0 < unat aml" and "unat aml + n < 2 ^ 32"
  shows "\<exists>e s1 s2. acpi_shutdown_init fl img fadt s = Some (e, s1) \<and> acpi_shutdown (s1\<lparr>no_shutdown := e \<noteq> 0\<rparr>) = (e, s2) \<and> mem s2 = mem s
    \<and> (case first_s5 (rd (mem s) aml n) of
         None \<Rightarrow> e = 1 \<and> io s2 = io s
       | Some i \<Rightarrow> e = 0 \<and> (let v = (\<lambda>k. ucast (push_bit 10 (ucast (mem s (aml + of_nat i + k))) OR SLP_EN s)) in
           io s2 = io s @ Outw (ucast (PM1a_CNT s)) (v 8) # (if PM1b_CNT s = 0 then [] else [Outw (ucast (PM1b_CNT s)) (v 10)])))"
proof -
  have sr: "acpi_search_s5 fl img (mem s) aml (of_nat n) = Some (case first_s5 (rd (mem s) aml n) of None \<Rightarrow> 0 | Some i \<Rightarrow> aml + of_nat i)"
    using search_from [of "mem s" img _ aml n 0 fl] assms by simp
  show ?thesis
  proof (cases "first_s5 (rd (mem s) aml n)")
    case None
    then show ?thesis using sr assms(2,3)
      by (simp add: acpi_shutdown_init_def acpi_shutdown_def sizeof_sdt_header_def Let_def say_def)
  next
    case (Some i)
    then have "i < n" by (auto simp: first_s5_def find_Some_iff)
    then have "unat (aml + of_nat i) = unat aml + i" using assms(5) by (intro unat_add_of_nat32) simp
    then have "aml + of_nat i \<noteq> 0" using assms(4) by (metis add_is_0 less_numeral_extra(3) unsigned_0)
    then show ?thesis using sr assms(2,3) Some
      by (simp add: acpi_shutdown_init_def acpi_shutdown_def sizeof_sdt_header_def Let_def say_def outw_def)
  qed
qed

definition acpi_of :: "mem \<Rightarrow> acpi" where
  "acpi_of m = \<lparr>mem = m, errno = 0, log = [], io = [], serial_enabled = 0, root = HEAP_BASE, entries = 0, handlers = 0,
     idtr = \<lparr>limit = 0, base = 0\<rparr>, idt_reg = \<lparr>limit = 0, base = 0\<rparr>, frame_set = 0, tables = 0, cr0 = 0x11, cr2 = 0, cr3 = 0,
     busy = 0, ticks = 0, current_tty = 0, tty_initialised = 1, pending = [],
     fs_root = 0, rd_files = 0, rd_root = 0, file_base = 0, rd_nfiles = 0, strtok_old = 0,
     no_shutdown = True, SLP_TYPa = 0, SLP_TYPb = 0, SLP_EN = 0x2000, PM1a_CNT = 0x604, PM1b_CNT = 0\<rparr>"

theorem acpi_power_off_witness:
  "\<exists>s1 s2. acpi_shutdown_init (False, False) ((\<lambda>_. 0)(Str_S5 := 0x100)) 0x1000 (acpi_of (wr (st32 (st32 (wr (\<lambda>_. 0) 0x100 s5_name) 0x1028 0x2000) 0x2004 12)
        0x2024 [0x08, 0x5F, 0x53, 0x35, 0x5F, 0x12, 0, 4, 0x0A, 7, 0x0A, 5])) = Some (0, s1)
     \<and> acpi_shutdown (s1\<lparr>no_shutdown := False\<rparr>) = (0, s2) \<and> io s2 = [Outw 0x604 0x3C00]"
proof -
  let ?bs = "[0x08, 0x5F, 0x53, 0x35, 0x5F, 0x12, 0, 4, 0x0A, 7, 0x0A, 5] :: byte list"
  let ?m = "wr (st32 (st32 (wr (\<lambda>_. 0) 0x100 s5_name) 0x1028 0x2000) 0x2004 12) 0x2024 ?bs" and ?img = "(\<lambda>_. 0)(Str_S5 := 0x100) :: image"
  let ?s = "acpi_of ?m"
  have l: "ld32 (mem ?s) (fadt_dsdt 0x1000) = 0x2000" "ld32 (mem ?s) (sdt_len 0x2000) = 12"
    by (simp_all add: acpi_of_def fadt_dsdt_def sdt_len_def ld32_def st32_def)
  have r: "rd (mem ?s) 0x2024 12 = ?bs" by (simp add: acpi_of_def)
  have p: "rd (mem ?s) (?img Str_S5) 4 = s5_name" by (simp add: acpi_of_def s5_name_def st32_def)
  have f: "first_s5 ?bs = Some 1" by (simp add: first_s5_def s5_at_def s5_name_def upt_rec)
  have b: "mem ?s (0x2024 + of_nat 1 + 8) = 7" by (simp add: acpi_of_def)
  have io: "io ?s = []" "PM1a_CNT ?s = 0x604" "PM1b_CNT ?s = 0" "SLP_EN ?s = 0x2000" by (simp_all add: acpi_of_def)
  have a: "0x2024 = ld32 (mem ?s) (fadt_dsdt 0x1000) + 36" "12 = unat (ld32 (mem ?s) (sdt_len (ld32 (mem ?s) (fadt_dsdt 0x1000))))"
    unfolding l by simp_all
  obtain e s1 s2 where r1: "acpi_shutdown_init (False, False) ?img 0x1000 ?s = Some (e, s1)" "acpi_shutdown (s1\<lparr>no_shutdown := e \<noteq> 0\<rparr>) = (e, s2)" "e = 0"
    "io s2 = io ?s @ Outw (ucast (PM1a_CNT ?s)) (ucast (push_bit 10 (ucast (mem ?s (0x2024 + of_nat 1 + 8))) OR SLP_EN ?s)) # []"
    using acpi_power_off [of ?s ?img "0x2024" "0x1000" 12 "(False, False)"] p a unfolding r f by (auto simp: io simp del: rd_numeral wr.simps)
  have "io s2 = [Outw 0x604 0x3C00]" using r1(4) unfolding b io by simp
  with r1 show ?thesis by auto
qed

text \<open>
  checksum_valid tests that the bytes sum up to zero modulo 256 together with the value that
  the uninitialised variable had before: the answer is the intended one for the value 0 only.
\<close>

lemma checksum_valid_sum:
  "checksum_valid j m p n \<longleftrightarrow> sum_list (rd m p (unat n)) = - j"
  using checksum_sum [of 0 n m p j] by (auto simp: checksum_valid_def add_eq_0_iff)

end
