(* ===== verification/Floppy.thy ===== *)
theory Floppy
  imports Pit
begin

text \<open>
  The floppy driver of kernel/dev/floppy.c, as far as it goes: the flag that the interrupt of the
  controller sets, and the loop that waits for it. Nothing else of dev/floppy.h is defined.
\<close>

section \<open>floppy.c\<close>

record floppy = pit +
  irq :: byte

definition FDC1 :: u16 where "FDC1 = 0x3F0"

definition floppy_irq :: "registers \<Rightarrow> 'a floppy_scheme \<Rightarrow> 'a floppy_scheme" where
  "floppy_irq regs s = s\<lparr>irq := 1\<rparr>"

definition floppy_wait_irq ::
  "('e \<Rightarrow> 'a floppy_scheme \<Rightarrow> 'a floppy_scheme fate option) \<Rightarrow> 'e list \<Rightarrow> 'a floppy_scheme \<Rightarrow> ('a floppy_scheme \<times> 'e list) option" where
  "floppy_wait_irq step evs s =
     do {
       r \<leftarrow> wait_until (\<lambda>s. irq s \<noteq> 0) step evs s;
       Some ((fst r)\<lparr>irq := 0\<rparr>, snd r)
     }"

definition floppy_init :: "image \<Rightarrow> addr \<Rightarrow> 'a intr_scheme \<Rightarrow> u32 \<times> 'a intr_scheme" where
  "floppy_init img reserved s = (0, int_hook_handler 0x26 (img Floppy_irq) s)"

text \<open>The only field of struct floppy is \<open>fdc\<close>.\<close>

definition floppy_create :: "addr \<Rightarrow> 'a machine_scheme \<Rightarrow> 'a machine_scheme" where
  "floppy_create flp s = (if flp = 0 then s else s\<lparr>mem := st16 (mem s) flp FDC1\<rparr>)"

section \<open>Lemmas\<close>

text \<open>The interrupt of the controller and those of other lines, whose handlers leave the driver alone.\<close>

definition floppy_hooked :: "image \<Rightarrow> 'a floppy_scheme code \<Rightarrow> 'a floppy_scheme \<Rightarrow> bool" where
  "floppy_hooked img call s \<longleftrightarrow> img Floppy_irq \<noteq> 0 \<and> handler_at s 0x26 = img Floppy_irq
     \<and> call (img Floppy_irq) = (\<lambda>regs t. Some (Returns (floppy_irq regs t)))"

lemma irq_floppy:
  fixes s :: "'a floppy_scheme"
  assumes "floppy_hooked img call s" "r_int_no regs = 0x26"
  shows "irq_handler call regs s = Some (Returns (s\<lparr>io := io s @ [Outb PIC1_CMD 0x20], irq := 1\<rparr>))"
  using assms by (simp add: irq_handler_def pic_send_eoi_def outb_def handler_at_def floppy_hooked_def floppy_irq_def Let_def word_le_nat_alt)

lemma low_line: "r \<in> {0x20..<0x28} \<Longrightarrow> \<not> 8 \<le> (ucast (r - 0x20) :: byte)" for r :: u32
proof -
  assume "r \<in> {0x20..<0x28}"
  then have "unat (r - 0x20) < 8" by (auto simp: word_le_nat_alt word_less_nat_alt unat_sub)
  then show ?thesis by (simp add: word_le_nat_alt unsigned_ucast_eq take_bit_nat_eq_self)
qed

lemma irq_unhandled:
  fixes s :: "'a floppy_scheme"
  assumes "handler_at s (r_int_no regs) = 0" "r_int_no regs \<in> {0x20..<0x28}"
  shows "irq_handler call regs s = Some (Returns (s\<lparr>io := io s @ [Outb PIC1_CMD 0x20]\<rparr>))"
  using assms(1) low_line [OF assms(2)] by (simp add: irq_handler_def pic_send_eoi_def outb_def handler_at_def Let_def)

text \<open>An interrupt of another line of the first controller for which nothing is registered.\<close>

definition idle_irq :: "'a intr_scheme \<Rightarrow> registers \<Rightarrow> bool" where
  "idle_irq s v \<longleftrightarrow> r_int_no v \<in> {0x20..<0x28} \<and> r_int_no v \<noteq> 0x26 \<and> handler_at s (r_int_no v) = 0"

text \<open>
  After floppy_init, a wait returns with the flag cleared after the first interrupt of the
  controller, whatever unhandled interrupts of the first controller come before it; without one it
  does not return.
\<close>

lemma wait_irq_first:
  fixes s :: "'a floppy_scheme"
  assumes "floppy_hooked img call s" "irq s = 0" "list_all (idle_irq s) before" "r_int_no v = 0x26"
  shows "floppy_wait_irq (irq_handler call) (before @ v # evs) s
      = Some (s\<lparr>io := io s @ replicate (Suc (length before)) (Outb PIC1_CMD 0x20)\<rparr>, evs)
    \<and> floppy_wait_irq (irq_handler call) before s = None"
  using assms(1-3)
proof (induction before arbitrary: s)
  case Nil
  then show ?case using irq_floppy [of img call s v] assms(4) by (cases evs) (simp_all add: floppy_wait_irq_def)
next
  case (Cons e before)
  let ?s = "s\<lparr>io := io s @ [Outb PIC1_CMD 0x20]\<rparr>"
  have same: "handler_at ?s = handler_at s" by (simp add: fun_eq_iff handler_at_def)
  have "idle_irq ?s = idle_irq s" by (simp add: fun_eq_iff idle_irq_def same)
  then have "floppy_hooked img call ?s" "irq ?s = 0" "list_all (idle_irq ?s) before"
    using Cons.prems same by (simp_all add: floppy_hooked_def)
  from Cons.IH [OF this] Cons.prems irq_unhandled [of s e call] show ?case by (simp add: floppy_wait_irq_def idle_irq_def)
qed

end
