(* ===== verification/Shell.thy ===== *)
theory Shell
  imports Acpi Pci
begin

text \<open>
  The kernel shell (kernel/shell.c): the commands, the table of handlers and the loop that reads a
  line and runs the command. The static tables lie in the kernel image; a message that prints
  strings keeps their bytes at the time of the call.
\<close>

section \<open>State\<close>

text \<open>The variable \<open>buf\<close> of main.c: the general-purpose buffer.\<close>

record kernel = acpi +
  buf :: addr

text \<open>
  What the code runs on: the hardware, the image, the frame pointer for stack traces, the flags of
  the processor before \<open>memcmp\<close>, the addresses of local variables, the registers at a fault.
\<close>

record env =
  board :: hw
  kimg :: image
  frame_ptr :: addr
  cpu_flags :: eflags
  local_test :: addr
  local_delim :: addr
  fault_regs :: registers

definition str_at :: "mem \<Rightarrow> addr \<Rightarrow> byte list" where
  "str_at m p = rd m p (unat (strlen m p))"

text \<open>struct cmd_handler.\<close>

definition h_cmd :: "env \<Rightarrow> nat \<Rightarrow> addr" where "h_cmd e i = kimg e Handlers + 52 * of_nat i"
definition h_description :: "env \<Rightarrow> nat \<Rightarrow> addr" where "h_description e i = h_cmd e i + 16"
definition h_handle :: "env \<Rightarrow> nat \<Rightarrow> addr" where "h_handle e i = h_cmd e i + 48"
definition nhandlers :: nat where "nhandlers = 12"

section \<open>Commands\<close>

text \<open>The tables \<open>floppy_type\<close> and \<open>file_type\<close> of pointers to strings.\<close>

definition floppy_type :: "env \<Rightarrow> mem \<Rightarrow> byte \<Rightarrow> addr" where
  "floppy_type e m i = ld32 m (kimg e Floppy_type + 4 * ucast i)"

definition file_type :: "env \<Rightarrow> mem \<Rightarrow> byte \<Rightarrow> addr" where
  "file_type e m i = ld32 m (kimg e File_type + 4 * ucast i)"

definition check_floppy :: "env \<Rightarrow> 'a machine_scheme \<Rightarrow> 'a machine_scheme" where
  "check_floppy e s =
     (let (val, s) = cmos_read (board e) 0x10 s;
          s = say (Put ''fd0: '') s;
          s = say (Puts_bytes (str_at (mem s) (floppy_type e (mem s) (drop_bit 4 val AND 0xF)))) s;
          s = say (Put ''fd1: '') s
      in say (Puts_bytes (str_at (mem s) (floppy_type e (mem s) (val AND 0xF)))) s)"

definition check_memory :: "env \<Rightarrow> 'a heap_scheme \<Rightarrow> 'a heap_scheme option" where
  "check_memory e s =
     (let (high, s) = cmos_read (board e) 0x16 s;
          (low, s) = cmos_read (board e) 0x15 s;
          low_mem = push_bit 8 (ucast high) OR ucast low;
          s = say (Printf (''low memory: 0 - 0x%x'' @ nl) [ArgW (push_bit 10 low_mem)]) s
      in kmalloc_info s)"

definition cat_file :: "env \<Rightarrow> addr \<Rightarrow> 'a kernel_scheme \<Rightarrow> 'a kernel_scheme option" where
  "cat_file e ptr s =
     do {
       r \<leftarrow> fs_finddir (kimg e) (fs_root s) ptr s;
       let fil = fst r;
       let s = snd r;
       if fil = 0 then Some (say (Printf (''%s: No such file or directory'' @ nl) [ArgB (str_at (mem s) ptr)]) s)
       else if mem s (i_flags fil) AND FS_DIR \<noteq> 0 then Some (say (Printf (''%s: Is a directory'' @ nl) [ArgB (str_at (mem s) ptr)]) s)
       else do {
         r \<leftarrow> fs_open (board e) (kimg e) (frame_ptr e) fil 0 s;
         let s = snd r;
         r \<leftarrow> fs_read (board e) (kimg e) (frame_ptr e) fil (buf s) (ld32 (mem s) (i_size fil)) 0 s;
         let s = snd r;
         let s = say (Puts_bytes (str_at (mem s) (buf s))) s;
         r \<leftarrow> fs_close (board e) (kimg e) (frame_ptr e) fil s;
         Some (snd r)
       }
     }"

text \<open>In \<open>i<dir->impl\<close> the int is converted to unsigned.\<close>

partial_function (option) list_loop :: "env \<Rightarrow> addr \<Rightarrow> u32 \<Rightarrow> 'a machine_scheme \<Rightarrow> 'a machine_scheme option" where
  "list_loop e dir i s =
     (if i < ld32 (mem s) (i_impl dir)
      then do {
        r \<leftarrow> fs_readdir (kimg e) dir i s;
        q \<leftarrow> fs_finddir (kimg e) dir (d_name (fst r)) (snd r);
        let tmp = fst q;
        let s = snd q;
        list_loop e dir (i + 1) (say (Printf (''%s'' @ CHR 0x09 # ''%s'' @ CHR 0x09 # ''%d bytes'' @ nl)
          [ArgB (str_at (mem s) (file_type e (mem s) (mem s (i_flags tmp) AND 0xF))), ArgB (str_at (mem s) (i_name tmp)), ArgW (ld32 (mem s) (i_size tmp))]) s)
      }
      else Some s)"

definition list_directory :: "env \<Rightarrow> addr \<Rightarrow> 'a machine_scheme \<Rightarrow> 'a machine_scheme option" where
  "list_directory e dir s =
     (if dir = 0 then Some (say (Puts ''No such file or directory'') s)
      else if mem s (i_flags dir) AND 0x7 \<noteq> FS_DIR
      then Some (say (Printf (''%s: Not a directory'' @ nl) [ArgB (str_at (mem s) (i_name dir))]) s)
      else let s = say (Printf (''%d files in `%s'' @ CHR 0x27 # '':'' @ nl) [ArgW (ld32 (mem s) (i_impl dir)), ArgB (str_at (mem s) (i_name dir))]) s
           in list_loop e dir 0 s)"

definition check_time :: "env \<Rightarrow> 'a machine_scheme \<Rightarrow> 'a machine_scheme" where
  "check_time e s =
     (let (century, s) = cmos_read (board e) 0x32 s;
          (yr, s) = cmos_read (board e) 0x09 s;
          year = push_bit 8 (ucast century) OR ucast yr :: u16;
          (month, s) = cmos_read (board e) 0x08 s;
          (day, s) = cmos_read (board e) 0x07 s;
          (hour, s) = cmos_read (board e) 0x04 s;
          (minute, s) = cmos_read (board e) 0x02 s;
          (second, s) = cmos_read (board e) 0x00 s
      in say (Printf (''%x/%x/%x %x:%x:%x'' @ nl)
           [ArgW (ucast year), ArgW (ucast month), ArgW (ucast day), ArgW (ucast hour), ArgW (ucast minute), ArgW (ucast second)]) s)"

partial_function (option) devs_loop :: "env \<Rightarrow> addr \<Rightarrow> u32 \<Rightarrow> 'a machine_scheme \<Rightarrow> 'a machine_scheme option" where
  "devs_loop e devdir i s =
     do {
       r \<leftarrow> fs_readdir (kimg e) devdir i s;
       let dev = fst r;
       let s = snd r;
       if dev \<noteq> 0
       then devs_loop e devdir (i + 1) (say (Printf (''%d: %s'' @ nl) [ArgW (ld32 (mem s) (d_ino dev)), ArgB (str_at (mem s) (d_name dev))]) s)
       else Some s
     }"

definition list_devs :: "env \<Rightarrow> 'a fs_scheme \<Rightarrow> 'a fs_scheme option" where
  "list_devs e s =
     do {
       r \<leftarrow> fs_finddir (kimg e) (fs_root s) (kimg e (Literal ''dev'')) s;
       devs_loop e (fst r) 0 (say (Puts ''FOOS devices:'') (snd r))
     }"

text \<open>The size of \<open>hello_world\<close> without its NUL is 12.\<close>

definition test_fsdev :: "env \<Rightarrow> 'a fs_scheme \<Rightarrow> 'a fs_scheme option" where
  "test_fsdev e s =
     do {
       r \<leftarrow> fs_lookup (kimg e) (kimg e (Literal ''/dev/tty'')) s;
       let tty = fst r;
       let s = snd r;
       if tty = 0 then Some (say (Puts ''tty not found!'') s)
       else do {
         r \<leftarrow> fs_write (board e) (kimg e) (frame_ptr e) tty (kimg e Hello_world) 12 0 s;
         Some (snd r)
       }
     }"

partial_function (option) tokens_loop :: "addr \<Rightarrow> 'a fs_scheme \<Rightarrow> 'a fs_scheme option" where
  "tokens_loop delim s =
     do {
       r \<leftarrow> fs_strtok 0 delim s;
       let ptr = fst r;
       let s = snd r;
       if ptr \<noteq> 0 then tokens_loop delim (say (Puts_bytes (str_at (mem s) ptr)) s) else Some s
     }"

definition test_strtok :: "env \<Rightarrow> 'a fs_scheme \<Rightarrow> 'a fs_scheme option" where
  "test_strtok e s =
     (let test = local_test e; delim = local_delim e;
          s = s\<lparr>mem := put_str (put_str (mem s) test ''/dev/tty'') delim ''/''\<rparr>;
          s = say (Printf (''Tokenizing `%s'' @ CHR 0x27 # '' by `%s'' @ CHR 0x27 # nl) [ArgB (str_at (mem s) test), ArgB (str_at (mem s) delim)]) s
      in do {
        r \<leftarrow> fs_strtok test delim s;
        let s = snd r;
        tokens_loop delim (say (Puts_bytes (str_at (mem s) (fst r))) s)
      })"

definition test_malloc :: "'a heap_scheme \<Rightarrow> 'a heap_scheme option" where
  "test_malloc s =
     do {
       r \<leftarrow> kmalloc s 10;
       let a = fst r;
       s \<leftarrow> kfree (say (Printf (''kmalloc(10): 0x%x'' @ nl) [ArgW a]) (snd r)) a;
       let s = say (Printf (''kfree(0x%x)'' @ nl) [ArgW a]) s;
       r \<leftarrow> kmalloc s 10;
       let a = fst r;
       kfree (say (Printf (''kmalloc(10) again: 0x%x'' @ nl) [ArgW a]) (snd r)) a
     }"

text \<open>
  A store to an address without a page raises vector 14 with the address in cr2 and the bit for
  writing in the error code; when the handler returns, the store is tried again.
\<close>

definition where_to :: "'a vmem_scheme \<Rightarrow> addr \<Rightarrow> addr option" where
  "where_to s a = (if bit (cr0 s) 31 then translate (mem s) (cr3 s) a else Some a)"

partial_function (option) store_byte :: "env \<Rightarrow> addr \<Rightarrow> byte \<Rightarrow> 'a kernel_scheme \<Rightarrow> 'a kernel_scheme option" where
  "store_byte e a v s =
     (case where_to s a of
        Some p \<Rightarrow> Some (s\<lparr>mem := (mem s)(p := v)\<rparr>)
      | None \<Rightarrow> do {
          f \<leftarrow> int_handler (kernel_call (board e) (kimg e) (frame_ptr e)) ((fault_regs e)\<lparr>r_int_no := 14, r_err_code := 2\<rparr>) (s\<lparr>cr2 := a\<rparr>);
          case f of Returns s \<Rightarrow> store_byte e a v s | Hangs s \<Rightarrow> None
        })"

definition trigger_pf :: "env \<Rightarrow> 'a kernel_scheme \<Rightarrow> 'a kernel_scheme option" where
  "trigger_pf e s = store_byte e 0xFFFFFFFF 0 s"

fun help_loop :: "env \<Rightarrow> nat list \<Rightarrow> 'a machine_scheme \<Rightarrow> 'a machine_scheme" where
  "help_loop e [] s = s"
| "help_loop e (i # is) s =
     help_loop e is (say (Printf (''%s - %s'' @ nl) [ArgB (str_at (mem s) (h_cmd e i)), ArgB (str_at (mem s) (h_description e i))]) s)"

definition shell_help :: "env \<Rightarrow> 'a machine_scheme \<Rightarrow> 'a machine_scheme" where
  "shell_help e s = help_loop e [0..<nhandlers] s"

section \<open>The loop\<close>

text \<open>The function a symbol of the table stands for, and the one at an address.\<close>

fun shell_fn :: "env \<Rightarrow> symbol \<Rightarrow> 'a kernel_scheme \<Rightarrow> 'a kernel_scheme option" where
  "shell_fn e Shell_help s = Some (shell_help e s)"
| "shell_fn e List_devs s = list_devs e s"
| "shell_fn e Check_floppy s = Some (check_floppy e s)"
| "shell_fn e Check_time s = Some (check_time e s)"
| "shell_fn e Check_memory s = check_memory e s"
| "shell_fn e Test_fsdev s = test_fsdev e s"
| "shell_fn e Test_strtok s = test_strtok e s"
| "shell_fn e Test_malloc s = test_malloc s"
| "shell_fn e Trigger_pf s = trigger_pf e s"
| "shell_fn e _ s = None"

definition shell_symbols :: "symbol list" where
  "shell_symbols = [Shell_help, List_devs, Check_floppy, Check_time, Check_memory, Test_fsdev, Test_strtok, Test_malloc, Trigger_pf]"

definition shell_call :: "env \<Rightarrow> addr \<Rightarrow> 'a kernel_scheme \<Rightarrow> 'a kernel_scheme option" where
  "shell_call e a s = do { f \<leftarrow> find (\<lambda>f. kimg e f = a) shell_symbols; shell_fn e f s }"

text \<open>The for loop over the table and what follows it; a result None of the pair is \<open>goto loop\<close>.\<close>

fun run_handler :: "env \<Rightarrow> nat list \<Rightarrow> 'a kernel_scheme \<Rightarrow> 'a kernel_scheme option" where
  "run_handler e [] s =
     Some (if mem s (buf s) \<noteq> 0 then say (Printf (''%s: Unknown command'' @ nl) [ArgB (str_at (mem s) (buf s))]) s else s)"
| "run_handler e (i # is) s =
     do {
       c \<leftarrow> strcmp (mem s) (buf s) (h_cmd e i);
       if c = 0
       then if ld32 (mem s) (h_handle e i) \<noteq> 0 then shell_call e (ld32 (mem s) (h_handle e i)) s
            else Some (say (Printf (''No handler found for `%s'' @ CHR 0x27 # nl) [ArgB (str_at (mem s) (h_cmd e i))]) s)
       else run_handler e is s
     }"

definition run_command :: "env \<Rightarrow> 'a kernel_scheme \<Rightarrow> (u32 option \<times> 'a kernel_scheme) option" where
  "run_command e s =
     do {
       c \<leftarrow> strcmp (mem s) (buf s) (kimg e (Literal ''exit''));
       if c = 0 then Some (Some 0, s)
       else if memcmp (cpu_flags e) (mem s) (buf s) (kimg e (Literal ''ls'')) 2 = 0
       then if strlen (mem s) (buf s) \<le> 3
            then do { s \<leftarrow> list_directory e (fs_root s) s; Some (None, s) }
            else do {
              r \<leftarrow> fs_lookup (kimg e) (buf s + 3) s;
              s \<leftarrow> list_directory e (fst r) (snd r);
              Some (None, s)
            }
       else if memcmp (cpu_flags e) (mem s) (buf s) (kimg e (Literal ''cat '')) 4 = 0
       then do { s \<leftarrow> cat_file e (buf s + 4) s; Some (None, s) }
       else do { s \<leftarrow> run_handler e [0..<nhandlers] s; Some (None, s) }
     }"

definition read_command :: "env \<Rightarrow> 'a kernel_scheme \<Rightarrow> 'a kernel_scheme option" where
  "read_command e s =
     do {
       let s = say (Put ''> '') s;
       r \<leftarrow> gets (board e) (kimg e) (frame_ptr e) (buf s) (s\<lparr>mem := memset (mem s) (buf s) 0 BUFSIZ\<rparr>);
       Some (snd r)
     }"

partial_function (option) shell_loop :: "env \<Rightarrow> 'a kernel_scheme \<Rightarrow> (u32 \<times> 'a kernel_scheme) option" where
  "shell_loop e s =
     do {
       s \<leftarrow> read_command e s;
       r \<leftarrow> run_command e s;
       case fst r of Some v \<Rightarrow> Some (v, snd r) | None \<Rightarrow> shell_loop e (snd r)
     }"

definition shell_main :: "env \<Rightarrow> 'a kernel_scheme \<Rightarrow> (u32 \<times> 'a kernel_scheme) option" where
  "shell_main e s = shell_loop e (say (Putchar 0x0A) s)"

section \<open>Specification\<close>

text \<open>The initial contents of \<open>handlers\<close>, and what else of the image the shell reads.\<close>

definition shell_table :: "(string \<times> string \<times> symbol option) list" where
  "shell_table = [
     (''help'', ''print this message'', Some Shell_help),
     (''ls [FILE]'', ''list directory contents'', None),
     (''cat [FILE]'', ''print out the contents of a file'', None),
     (''devs'', ''list available FOOS devices'', Some List_devs),
     (''floppy'', ''check floppy status'', Some Check_floppy),
     (''time'', ''get the current time'', Some Check_time),
     (''mem'', ''print the status of kernel heap'', Some Check_memory),
     (''tty'', ''write `Hello world'' @ CHR 0x27 # '' to /dev/tty'', Some Test_fsdev),
     (''tok'', ''test tokenizing strings'', Some Test_strtok),
     (''malloc'', ''test the efficiency of malloc()'', Some Test_malloc),
     (''fault'', ''trigger a page fault'', Some Trigger_pf),
     (''exit'', ''quit the shell'', None)]"

definition char_array :: "nat \<Rightarrow> string \<Rightarrow> byte list" where
  "char_array k w = bytes w @ replicate (k - length w) 0"

definition entry_bytes :: "env \<Rightarrow> string \<times> string \<times> symbol option \<Rightarrow> byte list" where
  "entry_bytes e = (\<lambda>(c, d, h). char_array 16 c @ char_array 32 d @ word_bytes (case h of None \<Rightarrow> 0 | Some f \<Rightarrow> kimg e f))"

definition shell_loaded :: "env \<Rightarrow> mem \<Rightarrow> bool" where
  "shell_loaded e m \<longleftrightarrow> rd m (kimg e Handlers) (52 * nhandlers) = concat (map (entry_bytes e) shell_table)
     \<and> (\<forall>w \<in> {''exit'', ''ls'', ''cat ''}. cstr m (kimg e (Literal w)) (bytes w))
     \<and> (\<forall>f \<in> set shell_symbols. kimg e f \<noteq> 0) \<and> distinct (map (kimg e) shell_symbols)"

text \<open>What a line means.\<close>

datatype command = Exit | List_root | List_path | Cat | Builtin symbol | Unknown "byte list" | Nothing

definition builtins :: "(byte list \<times> symbol) list" where
  "builtins = [(bytes ''help'', Shell_help), (bytes ''devs'', List_devs), (bytes ''floppy'', Check_floppy), (bytes ''time'', Check_time),
     (bytes ''mem'', Check_memory), (bytes ''tty'', Test_fsdev), (bytes ''tok'', Test_strtok), (bytes ''malloc'', Test_malloc),
     (bytes ''fault'', Trigger_pf)]"

definition parse :: "byte list \<Rightarrow> command" where
  "parse w =
     (if w = bytes ''exit'' then Exit
      else if take 2 w = bytes ''ls'' then if length w \<le> 3 then List_root else List_path
      else if take 4 w = bytes ''cat '' then Cat
      else case map_of builtins w of Some f \<Rightarrow> Builtin f | None \<Rightarrow> if w = [] then Nothing else Unknown w)"

fun perform :: "env \<Rightarrow> command \<Rightarrow> 'a kernel_scheme \<Rightarrow> (u32 option \<times> 'a kernel_scheme) option" where
  "perform e Exit s = Some (Some 0, s)"
| "perform e List_root s = do { s \<leftarrow> list_directory e (fs_root s) s; Some (None, s) }"
| "perform e List_path s = do { r \<leftarrow> fs_lookup (kimg e) (buf s + 3) s; s \<leftarrow> list_directory e (fst r) (snd r); Some (None, s) }"
| "perform e Cat s = do { s \<leftarrow> cat_file e (buf s + 4) s; Some (None, s) }"
| "perform e (Builtin f) s = do { s \<leftarrow> shell_fn e f s; Some (None, s) }"
| "perform e (Unknown w) s = Some (None, say (Printf (''%s: Unknown command'' @ nl) [ArgB w]) s)"
| "perform e Nothing s = Some (None, s)"

section \<open>Lemmas\<close>

subsection \<open>Strings\<close>

lemma str_at_cstr: "cstr m p w \<Longrightarrow> length w < 2 ^ 32 - 1 \<Longrightarrow> str_at m p = w"
  by (simp add: str_at_def unat_of_nat32 cstr_iff)

lemma strcmp_eq:
  assumes "cstr m p v" "cstr m q w"
  shows "\<exists>c. strcmp m p q = Some c \<and> (c = 0 \<longleftrightarrow> v = w)"
proof -
  obtain r where r: "strcmp m p q = Some r" "sint r = byte_diff v w" using strcmp_cstr [OF assms] by blast
  have "r = 0 \<longleftrightarrow> sint r = 0" by (simp add: signed_eq_0_iff)
  then show ?thesis using r byte_diff_eq_0 [of v w] assms by (simp add: cstr_iff)
qed

lemma cstr_prefix: "cstr m p w \<Longrightarrow> 0 \<notin> set v \<Longrightarrow> rd m p (length v) = v \<longleftrightarrow> take (length v) w = v"
proof (induction v arbitrary: p w)
  case (Cons c v)
  then show ?case by (cases w) auto
qed simp

lemma memcmp_literal:
  assumes "cstr m p w" "cstr m q v" "v \<noteq> []" "n = of_nat (length v)" "length v < 2 ^ 32"
  shows "memcmp fl m p q n = 0 \<longleftrightarrow> take (length v) w = v"
proof -
  have n: "n \<noteq> 0" "unat n = length v" using assms(3-5) by (simp_all add: of_nat_eq_0_32 unat_of_nat32)
  have "rd m q (length v) = v" "0 \<notin> set v" using assms(2) by (simp_all add: cstr_iff)
  then show ?thesis using memcmp_eq_0 [OF n(1), of fl m p q] cstr_prefix [OF assms(1), of v] n(2) by simp
qed

subsection \<open>The table\<close>

lemma char_array_length: "length w \<le> k \<Longrightarrow> length (char_array k w) = k"
  by (simp add: char_array_def)

lemma table_lengths: "length shell_table = 12" "list_all (\<lambda>(c, d, h). length c < 16 \<and> length d \<le> 32) shell_table"
  by (simp_all add: shell_table_def)

lemma entry_length: "x \<in> set shell_table \<Longrightarrow> length (entry_bytes e x) = 52"
  using table_lengths(2) by (auto simp: list_all_iff entry_bytes_def char_array_length word_bytes_def split: prod.splits)

lemma concat_slice:
  "(\<And>x. x \<in> set xs \<Longrightarrow> length (f x) = k) \<Longrightarrow> i < length xs \<Longrightarrow> take k (drop (k * i) (concat (map f xs))) = f (xs ! i)"
proof (induction xs arbitrary: i)
  case (Cons x xs)
  then show ?case by (cases i) simp_all
qed simp

lemma table_entry:
  assumes "shell_loaded e m" "i < nhandlers"
  shows "rd m (h_cmd e i) 52 = entry_bytes e (shell_table ! i)"
proof -
  have i: "i < 12" using assms(2) by (simp add: nhandlers_def)
  have "take 52 (drop (52 * i) (rd m (kimg e Handlers) 624)) = entry_bytes e (shell_table ! i)"
    using assms(1) concat_slice [of shell_table "entry_bytes e" 52 i] entry_length table_lengths(1) i
    by (simp add: shell_loaded_def nhandlers_def del: rd_numeral)
  moreover have "take 52 (drop (52 * i) (rd m (kimg e Handlers) 624)) = rd m (kimg e Handlers + of_nat (52 * i)) 52"
    using i by (simp add: rd_drop rd_take del: rd_numeral of_nat_mult)
  ultimately show ?thesis by (simp add: h_cmd_def del: rd_numeral)
qed

lemma cstr_field: "rd m p n = bytes w @ 0 # rest \<Longrightarrow> 0 \<notin> set (bytes w) \<Longrightarrow> cstr m p (bytes w)"
proof -
  assume r: "rd m p n = bytes w @ 0 # rest" "0 \<notin> set (bytes w)"
  have n: "n = length (bytes w @ 0 # rest)" using r(1) length_rd [of m p n] by simp
  then have "take (length w) (rd m p n) = rd m p (length w)" by (intro rd_take) simp
  moreover have "rd m p n ! length w = m (p + of_nat (length w))" using n by (intro nth_rd) simp
  ultimately show ?thesis using r by (simp add: cstr_iff nth_append)
qed

lemma table_names: "i < nhandlers \<Longrightarrow> 0 \<notin> set (bytes (fst (shell_table ! i))) \<and> 0 \<notin> set (bytes (fst (snd (shell_table ! i))))"
proof -
  have "list_all (\<lambda>(c, d, h). 0 \<notin> set (bytes c) \<and> 0 \<notin> set (bytes d)) shell_table" by (simp add: shell_table_def bytes_def)
  then show "i < nhandlers \<Longrightarrow> ?thesis"
    using table_lengths(1) by (simp add: list_all_length nhandlers_def case_prod_beta)
qed

lemma table_fields:
  assumes "shell_loaded e m" "i < nhandlers" "shell_table ! i = (c, d, h)"
  shows "cstr m (h_cmd e i) (bytes c)" "ld32 m (h_handle e i) = (case h of None \<Rightarrow> 0 | Some f \<Rightarrow> kimg e f)"
    "h = None \<or> length d < 32 \<Longrightarrow> cstr m (h_description e i) (bytes d)"
proof -
  let ?w = "case h of None \<Rightarrow> 0 | Some f \<Rightarrow> kimg e f"
  have len: "length c < 16" "length d \<le> 32"
    using table_lengths assms(2,3) by (auto simp: list_all_length nhandlers_def)
  have r: "rd m (h_cmd e i) 52 = char_array 16 c @ char_array 32 d @ word_bytes ?w"
    using table_entry [OF assms(1,2)] by (simp add: assms(3) entry_bytes_def del: rd_numeral)
  have nz: "0 \<notin> set (bytes c)" "0 \<notin> set (bytes d)" using table_names [OF assms(2)] by (simp_all add: assms(3))
  have "replicate (16 - length c) (0 :: byte) = 0 # replicate (15 - length c) 0"
    using len(1) by (simp flip: replicate_Suc)
  then show "cstr m (h_cmd e i) (bytes c)" using r nz(1) by (intro cstr_field) (simp_all add: char_array_def del: rd_numeral)
  have a: "length (char_array 16 c) = 16" "length (char_array 32 d) = 32" using len by (simp_all add: char_array_length)
  then show "ld32 m (h_handle e i) = ?w"
    using ld32_slice [OF r, of 48 ?w] by (simp add: h_handle_def word_bytes_def)
  have d: "rd m (h_description e i) 36 = char_array 32 d @ word_bytes ?w"
    using rd_drop [of 16 52 m "h_cmd e i"] a(1) by (simp add: r h_description_def del: rd_numeral)
  assume "h = None \<or> length d < 32"
  then have "\<exists>rest. char_array 32 d @ word_bytes ?w = bytes d @ 0 # rest"
  proof
    assume "length d < 32"
    then have "replicate (32 - length d) (0 :: byte) = 0 # replicate (31 - length d) 0" by (simp flip: replicate_Suc)
    then show ?thesis by (simp add: char_array_def)
  next
    assume "h = None"
    then have w: "word_bytes ?w = replicate 4 0" by (simp add: word_bytes_def numeral_eq_Suc)
    have "replicate (32 - length d) (0 :: byte) @ replicate 4 0 = 0 # replicate (35 - length d) 0"
      using len(2) by (simp flip: replicate_add replicate_Suc)
    then show ?thesis unfolding w by (simp add: char_array_def)
  qed
  then show "cstr m (h_description e i) (bytes d)" using d nz(2) cstr_field [of m "h_description e i" 36 d] by auto
qed

subsection \<open>Dispatch\<close>

lemma find_symbol: "distinct (map g fs) \<Longrightarrow> f \<in> set fs \<Longrightarrow> find (\<lambda>x. g x = g f) fs = Some f"
proof (induction fs)
  case (Cons a fs)
  then show ?case by (cases "a = f") auto
qed simp

lemma run_handler_find:
  assumes l: "shell_loaded e (mem s)" and w: "cstr (mem s) (buf s) w"
  shows "set is \<subseteq> {..<nhandlers} \<Longrightarrow> run_handler e is s =
    (case find (\<lambda>i. bytes (fst (shell_table ! i)) = w) is of
       None \<Rightarrow> Some (if w \<noteq> [] then say (Printf (''%s: Unknown command'' @ nl) [ArgB (str_at (mem s) (buf s))]) s else s)
     | Some i \<Rightarrow> case snd (snd (shell_table ! i)) of
         None \<Rightarrow> Some (say (Printf (''No handler found for `%s'' @ CHR 0x27 # nl) [ArgB (str_at (mem s) (h_cmd e i))]) s)
       | Some f \<Rightarrow> shell_call e (kimg e f) s)"
proof (induction "is")
  case Nil
  then show ?case using w by (cases w) auto
next
  case (Cons i "is")
  obtain c d h where t: "shell_table ! i = (c, d, h)" by (cases "shell_table ! i") auto
  have i: "i < nhandlers" using Cons.prems by simp
  obtain k where k: "strcmp (mem s) (buf s) (h_cmd e i) = Some k" "k = 0 \<longleftrightarrow> w = bytes c"
    using strcmp_eq [OF w table_fields(1) [OF l i t]] by blast
  have "h = Some f \<Longrightarrow> kimg e f \<noteq> 0" for f
  proof -
    assume "h = Some f"
    then have "f \<in> set shell_symbols" using t nth_mem [of i shell_table] i table_lengths(1)
      by (auto simp: nhandlers_def shell_table_def shell_symbols_def)
    then show "kimg e f \<noteq> 0" using l by (simp add: shell_loaded_def)
  qed
  then show ?case using Cons k t table_fields(2) [OF l i t] by (auto split: option.split)
qed

lemma table_find:
  assumes "w \<noteq> bytes ''exit''" "take 2 w \<noteq> bytes ''ls''" "take 4 w \<noteq> bytes ''cat ''"
  shows "map_option (\<lambda>i. snd (snd (shell_table ! i))) (find (\<lambda>i. bytes (fst (shell_table ! i)) = w) [0..<nhandlers])
    = map_option Some (map_of builtins w)"
proof -
  have names: "w \<noteq> bytes ''ls [FILE]''" "w \<noteq> bytes ''cat [FILE]''" using assms(2,3) by (auto simp: bytes_def)
  have u: "[0..<nhandlers] = [0, 1, 2, 3, 4, 5, 6, 7, 8, 9, 10, 11]" by (simp add: nhandlers_def upt_rec)
  show ?thesis unfolding u
    using assms(1) names by (auto simp: shell_table_def builtins_def)
qed

lemma find_lt: "find P [0..<n] = Some i \<Longrightarrow> i < n"
  by (auto simp: find_Some_iff)

lemma dispatch:
  assumes l: "shell_loaded e (mem s)" and w: "cstr (mem s) (buf s) w" and n: "length w < 512"
  shows "run_command e s = perform e (parse w) s"
proof -
  have lit: "cstr (mem s) (kimg e (Literal v)) (bytes v)" if "v \<in> {''exit'', ''ls'', ''cat ''}" for v
    using l that unfolding shell_loaded_def by blast
  obtain k where k: "strcmp (mem s) (buf s) (kimg e (Literal ''exit'')) = Some k" "k = 0 \<longleftrightarrow> w = bytes ''exit''"
    using strcmp_eq [OF w lit] by blast
  have ls: "memcmp (cpu_flags e) (mem s) (buf s) (kimg e (Literal ''ls'')) 2 = 0 \<longleftrightarrow> take 2 w = bytes ''ls''"
    using memcmp_literal [OF w lit [of "''ls''"], of 2] by (simp add: bytes_def) (simp add: numeral_2_eq_2)
  have cat: "memcmp (cpu_flags e) (mem s) (buf s) (kimg e (Literal ''cat '')) 4 = 0 \<longleftrightarrow> take 4 w = bytes ''cat ''"
    using memcmp_literal [OF w lit [of "''cat ''"], of 4] by (simp add: bytes_def) (simp add: eval_nat_numeral)
  have len: "strlen (mem s) (buf s) \<le> 3 \<longleftrightarrow> length w \<le> 3" using w n by (simp add: word_le_nat_alt unat_of_nat32)
  have str: "str_at (mem s) (buf s) = w" using str_at_cstr [OF w] n by simp
  have call: "shell_call e (kimg e f) s = shell_fn e f s" if "f \<in> set shell_symbols" for f
    using l find_symbol [OF _ that, of "kimg e"] by (simp add: shell_call_def shell_loaded_def)
  have tail: "do { s \<leftarrow> run_handler e [0..<nhandlers] s; Some (None, s) } = perform e (parse w) s"
    if p: "w \<noteq> bytes ''exit''" "take 2 w \<noteq> bytes ''ls''" "take 4 w \<noteq> bytes ''cat ''"
  proof -
    have "set [0..<nhandlers] \<subseteq> {..<nhandlers}" by auto
    note run = run_handler_find [OF l w this]
    show ?thesis
    proof (cases "map_of builtins w")
      case None
      then have "find (\<lambda>i. bytes (fst (shell_table ! i)) = w) [0..<nhandlers] = None" using table_find [OF p] by simp
      then show ?thesis using None p run by (simp add: parse_def str)
    next
      case (Some f)
      then obtain i where i: "find (\<lambda>i. bytes (fst (shell_table ! i)) = w) [0..<nhandlers] = Some i" "snd (snd (shell_table ! i)) = Some f"
        using table_find [OF p] by (auto simp: map_option_eq_Some)
      have "f \<in> snd ` set builtins" using map_of_SomeD [OF Some] by force
      then have "f \<in> set shell_symbols" by (auto simp: builtins_def shell_symbols_def)
      then show ?thesis using Some p run i by (simp add: parse_def call)
    qed
  qed
  show ?thesis
  proof (cases "w = bytes ''exit''")
    case True
    then show ?thesis using k by (simp add: run_command_def parse_def)
  next
    case False
    then show ?thesis using k ls cat len tail by (simp add: run_command_def parse_def)
  qed
qed

subsection \<open>The list of commands\<close>

definition help_msg :: "string \<times> string \<times> symbol option \<Rightarrow> event" where
  "help_msg = (\<lambda>(c, d, h). Printf (''%s - %s'' @ nl) [ArgB (bytes c), ArgB (bytes d)])"

lemma terminated: "i < nhandlers \<Longrightarrow> shell_table ! i = (c, d, h) \<Longrightarrow> h = None \<or> length d < 32"
proof -
  have "list_all (\<lambda>(c, d, h). h = None \<or> length d < 32) shell_table" by (simp add: shell_table_def)
  then show "i < nhandlers \<Longrightarrow> shell_table ! i = (c, d, h) \<Longrightarrow> ?thesis"
    using table_lengths(1) by (auto simp: list_all_length nhandlers_def)
qed

lemma help_run:
  "shell_loaded e (mem s) \<Longrightarrow> set is \<subseteq> {..<nhandlers} \<Longrightarrow>
   help_loop e is s = s\<lparr>log := log s @ map (\<lambda>i. help_msg (shell_table ! i)) is\<rparr>"
proof (induction "is" arbitrary: s)
  case (Cons i "is")
  obtain c d h where t: "shell_table ! i = (c, d, h)" by (cases "shell_table ! i") auto
  have i: "i < nhandlers" using Cons.prems by simp
  have "length c < 16" "length d \<le> 32" using table_lengths i t by (auto simp: list_all_length nhandlers_def)
  then have "str_at (mem s) (h_cmd e i) = bytes c" "str_at (mem s) (h_description e i) = bytes d"
    using table_fields [OF Cons.prems(1) i t] terminated [OF i t] by (auto intro: str_at_cstr)
  then show ?case using Cons t by (simp add: help_msg_def say_def)
qed simp

section \<open>Properties\<close>

text \<open>
  C18: run_command. With the table and the literals of the image in memory, the chain of
  comparisons on the buffer and the walk through the table do what the line means: exit, a
  directory listing for every line that starts with ls, a file for one that starts with cat and a
  space, else the built-in command with exactly this name. The branch for a command without a
  handler is never taken.
\<close>

theorem shell_dispatch:
  assumes "shell_loaded e (mem s)" and "cstr (mem s) (buf s) w" and "length w < 512"
  shows "run_command e s = perform e (parse w) s"
  by (rule dispatch [OF assms])

text \<open>An image, a memory with the table, the literals and a line, and a kernel with it.\<close>

definition shell_img :: image where
  "shell_img = (\<lambda>_. 0)(Handlers := 0x10000, Literal ''exit'' := 0x20000, Literal ''ls'' := 0x20010, Literal ''cat '' := 0x20020,
     Shell_help := 0x1000, List_devs := 0x1010, Check_floppy := 0x1020, Check_time := 0x1030, Check_memory := 0x1040,
     Test_fsdev := 0x1050, Test_strtok := 0x1060, Test_malloc := 0x1070, Trigger_pf := 0x1080)"

definition demo_env :: env where
  "demo_env = \<lparr>board = \<lambda>_ _. 0, kimg = shell_img, frame_ptr = 0, cpu_flags = (False, False),
     local_test = 0x30000, local_delim = 0x30010, fault_regs = vector_regs 14\<rparr>"

definition table_mem :: mem where
  "table_mem = wr (\<lambda>_. 0) 0x10000 (concat (map (entry_bytes demo_env) shell_table))"

definition shell_mem :: "byte list \<Rightarrow> mem" where
  "shell_mem w = wr (wr (wr (wr table_mem 0x20000 (bytes ''exit'' @ [0])) 0x20010 (bytes ''ls'' @ [0])) 0x20020 (bytes ''cat '' @ [0])) 0x40000 (w @ [0])"

definition kernel_of :: "mem \<Rightarrow> addr \<Rightarrow> kernel" where
  "kernel_of m b = \<lparr>mem = m, errno = 0, log = [], io = [], serial_enabled = 0, root = HEAP_BASE, entries = 0, handlers = 0,
     idtr = \<lparr>limit = 0, base = 0\<rparr>, idt_reg = \<lparr>limit = 0, base = 0\<rparr>, frame_set = 0, tables = 0, cr0 = 0x11, cr2 = 0, cr3 = 0,
     busy = 0, ticks = 0, current_tty = 0, tty_initialised = 1, pending = [],
     fs_root = 0, rd_files = 0, rd_root = 0, file_base = 0, rd_nfiles = 0, strtok_old = 0,
     no_shutdown = True, SLP_TYPa = 0, SLP_TYPb = 0, SLP_EN = 0x2000, PM1a_CNT = 0, PM1b_CNT = 0, buf = b\<rparr>"

lemma shell_mem_loaded:
  assumes "0 \<notin> set w" "length w < 512"
  shows "shell_loaded demo_env (shell_mem w)" "cstr (shell_mem w) 0x40000 w"
proof -
  let ?T = "concat (map (entry_bytes demo_env) shell_table)"
  have len: "length ?T = 624"
  proof -
    have "length (concat (map (entry_bytes demo_env) xs)) = 52 * length xs" if "set xs \<subseteq> set shell_table" for xs
      using that by (induction xs) (simp_all add: entry_length)
    then show ?thesis by (simp add: table_lengths(1))
  qed
  have ap: "a \<notin> region q k" if "a \<in> region p n" "n \<le> unat (q - p)" "k \<le> unat (p - q)" for a p q :: addr and n k
    using sep_region [of p n q k] that by (auto simp: sep_def)
  have i: "kimg demo_env Handlers = 0x10000" "kimg demo_env (Literal ''exit'') = 0x20000" "kimg demo_env (Literal ''ls'') = 0x20010"
    "kimg demo_env (Literal ''cat '') = 0x20020" by (simp_all add: demo_env_def shell_img_def)
  have l: "length (bytes ''exit'' @ [0]) = 5" "length (bytes ''ls'' @ [0]) = 3" "length (bytes ''cat '' @ [0]) = 5" by simp_all
  have fr: "shell_mem w a = table_mem a" if "a \<in> region 0x10000 624" for a
    using ap [OF that, of "0x20000" 5] ap [OF that, of "0x20010" 3] ap [OF that, of "0x20020" 5] ap [OF that, of "0x40000" "Suc (length w)"] assms(2)
      wr_frame [of a "0x20000" "bytes ''exit'' @ [0]" table_mem] wr_frame [of a "0x20010" "bytes ''ls'' @ [0]"] wr_frame [of a "0x20020" "bytes ''cat '' @ [0]"]
      wr_frame [of a "0x40000" "w @ [0]"]
    unfolding l by (simp add: shell_mem_def)
  have "rd (shell_mem w) 0x10000 624 = rd table_mem 0x10000 624" using fr by (intro rd_cong) auto
  then have tab: "rd (shell_mem w) 0x10000 624 = ?T" using rd_wr [of ?T "\<lambda>_. 0" "0x10000"] len by (simp add: table_mem_def del: rd_numeral)
  have last: "shell_mem w a = wr (wr (wr table_mem 0x20000 (bytes ''exit'' @ [0])) 0x20010 (bytes ''ls'' @ [0])) 0x20020 (bytes ''cat '' @ [0]) a"
    if "a \<in> region p n" "p \<in> {0x20000, 0x20010, 0x20020}" "n \<le> 16" for a p n
    using that ap [OF that(1), of "0x40000" "Suc (length w)"] assms(2) by (auto simp: shell_mem_def wr_frame)
  have lit: "cstr (shell_mem w) p v" if "cstr (wr (wr (wr table_mem 0x20000 (bytes ''exit'' @ [0])) 0x20010 (bytes ''ls'' @ [0])) 0x20020 (bytes ''cat '' @ [0])) p v"
    "p \<in> {0x20000, 0x20010, 0x20020}" "length v < 16" for p v
    using that(2,3) by (intro cstr_cong [OF that(1)] last [of _ p "Suc (length v)"]) auto
  have lits: "cstr (shell_mem w) 0x20000 (bytes ''exit'')" "cstr (shell_mem w) 0x20010 (bytes ''ls'')" "cstr (shell_mem w) 0x20020 (bytes ''cat '')"
    by (rule lit; simp add: bytes_def)+
  show "shell_loaded demo_env (shell_mem w)" unfolding shell_loaded_def
    using tab lits by (simp add: i nhandlers_def shell_symbols_def del: rd_numeral) (simp add: demo_env_def shell_img_def)
  show "cstr (shell_mem w) 0x40000 w" using assms by (simp add: shell_mem_def cstr_wr)
qed

theorem shell_dispatch_witness:
  "run_command demo_env (kernel_of (shell_mem (bytes ''foo'')) 0x40000)
     = Some (None, say (Printf (''%s: Unknown command'' @ nl) [ArgB (bytes ''foo'')]) (kernel_of (shell_mem (bytes ''foo'')) 0x40000))"
proof -
  let ?s = "kernel_of (shell_mem (bytes ''foo'')) 0x40000"
  have m: "mem ?s = shell_mem (bytes ''foo'')" "buf ?s = 0x40000" by (simp_all add: kernel_of_def)
  have "shell_loaded demo_env (mem ?s)" "cstr (mem ?s) (buf ?s) (bytes ''foo'')"
    unfolding m by (rule shell_mem_loaded; simp add: bytes_def)+
  from shell_dispatch [OF this] have "run_command demo_env ?s = perform demo_env (parse (bytes ''foo'')) ?s" by simp
  moreover have "parse (bytes ''foo'') = Unknown (bytes ''foo'')" by (simp add: parse_def bytes_def builtins_def)
  ultimately show ?thesis by simp
qed

text \<open>
  C40: shell_help prints every command of the table with its description. The description of cat
  fills its array and has no terminating NUL; it ends at the NULL handler behind it.
\<close>

theorem shell_help_lists:
  assumes "shell_loaded e (mem s)"
  shows "shell_help e s = s\<lparr>log := log s @ map help_msg shell_table\<rparr>"
proof -
  have "map (\<lambda>i. help_msg (shell_table ! i)) [0..<nhandlers] = map help_msg shell_table"
    using table_lengths(1) by (intro nth_equalityI) (simp_all add: nhandlers_def del: upt_rec_numeral)
  moreover have "set [0..<nhandlers] \<subseteq> {..<nhandlers}" by auto
  ultimately show ?thesis using help_run [OF assms, of "[0..<nhandlers]"] by (simp add: shell_help_def)
qed

theorem shell_help_lists_witness:
  "log (shell_help demo_env (kernel_of (shell_mem []) 0x40000)) ! 2
     = Printf (''%s - %s'' @ nl) [ArgB (bytes ''cat [FILE]''), ArgB (bytes ''print out the contents of a file'')]"
proof -
  have "shell_loaded demo_env (mem (kernel_of (shell_mem []) 0x40000))" "log (kernel_of (shell_mem []) 0x40000) = []"
    using shell_mem_loaded(1) [of "[]"] by (simp_all add: kernel_of_def)
  from shell_help_lists [OF this(1)] this(2) show ?thesis by (simp add: shell_table_def help_msg_def)
qed

end
