(* ===== verification/Session.thy ===== *)
theory Session
  imports Shell
begin

text \<open>
  The shell in use: a line typed on the keyboard and what the shell does with it; the cat command
  on a file of the RAM disk.
\<close>

section \<open>A typed line\<close>

lemma kbd_get_cong: "mem s' (tty_kbd ptr) = mem s (tty_kbd ptr) \<Longrightarrow> kbd_get f ptr s' = kbd_get f ptr s"
  by (simp add: kbd_get_def)

text \<open>The invariant of the keyboard depends on the terminal, the screen, the tables of codes and the cursor.\<close>

lemma inv_change:
  fixes s s' :: "'a tty_scheme"
  assumes i: "kbd_inv hw r img ptr b ed s"
    and fr: "\<And>a. a \<in> tty_bytes ptr \<union> region (img Scancode_set) 59 \<union> region (img Shift_set) 59 \<Longrightarrow> mem s' a = mem s a"
    and st: "current_tty s' = current_tty s" "cursor_at r (io s') = cursor_at r (io s)"
  shows "kbd_inv hw r img ptr b ed s'"
proof -
  obtain sh cp line where e: "ed = (sh, cp, line)" by (cases ed) auto
  have k: "kbd_get f ptr s' = kbd_get f ptr s" for f
    using fr [of "tty_kbd ptr"] tty_fields_in(4) [of ptr] by (intro kbd_get_cong) (simp add: tty_bytes_def)
  have la: "line_at ptr (mem s) line" using i by (simp add: kbd_inv_def e)
  have "region (tty_buf ptr) 512 \<subseteq> tty_bytes ptr" "region (tty_bufptr ptr) 4 \<subseteq> tty_bytes ptr"
    using tty_fields_in [of ptr] by (auto simp: tty_bytes_def)
  then have l: "line_at ptr (mem s') line" by (intro line_cong [OF la] fr) blast+
  have "screen (mem s') = screen (mem s)" using fr by (intro screen_cong) (simp add: tty_bytes_def)
  moreover have "rd (mem s') (img f) 59 = rd (mem s) (img f) 59" if "f \<in> {Scancode_set, Shift_set}" for f using that fr by (intro rd_cong) auto
  ultimately show ?thesis using i l k st by (simp add: kbd_inv_def e vt_ok_def vt_state_def del: rd_numeral)
qed

lemma inv_outside:
  fixes s :: "'a tty_scheme"
  assumes "kbd_inv hw r img ptr b ed s"
    and "\<And>a. a \<in> tty_bytes ptr \<union> region (img Scancode_set) 59 \<union> region (img Shift_set) 59 \<Longrightarrow> m a = mem s a"
  shows "kbd_inv hw r img ptr b ed (s\<lparr>mem := m\<rparr>)" "kbd_get f ptr (s\<lparr>mem := m\<rparr>) = kbd_get f ptr s"
proof -
  show "kbd_inv hw r img ptr b ed (s\<lparr>mem := m\<rparr>)" by (rule inv_change [OF assms(1)]) (simp_all add: assms(2))
  show "kbd_get f ptr (s\<lparr>mem := m\<rparr>) = kbd_get f ptr s"
    using assms(2) [of "tty_kbd ptr"] tty_fields_in(4) [of ptr] by (intro kbd_get_cong) (simp add: tty_bytes_def)
qed

text \<open>
  Someone types the codes and the enter key on the keyboard of the terminal at \<open>ptr\<close>, and the
  interrupts for this are pending; the line that results is \<open>line\<close>.
\<close>

definition types_line :: "env \<Rightarrow> crtc \<Rightarrow> addr \<Rightarrow> byte list \<Rightarrow> byte list \<Rightarrow> 'a kernel_scheme \<Rightarrow> bool" where
  "types_line e r ptr codes line s \<longleftrightarrow> (\<exists>sh cp old sh' cp' cs rest.
     kbd_inv (board e) r (kimg e) ptr 0 (sh, cp, old) s \<and> kbd_hooked (kimg e) ptr s \<and> \<not> kbd_get Flush ptr s \<and> unat ptr + 524 \<le> 2 ^ 32
     \<and> keyboard (board e) cs \<and> drop (inputs 0x60 (io s)) cs = codes @ ENTER # rest \<and> typing_ok codes (sh, cp, [])
     \<and> length codes < length (pending s) \<and> list_all (\<lambda>v. r_int_no v = 33) (pending s) \<and> (sh', cp', line) = fold key codes (sh, cp, []))"

text \<open>The buffer is apart from the terminal, the screen, the tables of codes and the handler of the keyboard.\<close>

definition buffer_apart :: "env \<Rightarrow> addr \<Rightarrow> 'a kernel_scheme \<Rightarrow> bool" where
  "buffer_apart e ptr s \<longleftrightarrow> region (buf s) 512 \<inter> (tty_bytes ptr \<union> region (kimg e Scancode_set) 59 \<union> region (kimg e Shift_set) 59
     \<union> region (handlers s + 132) 4) = {}"

lemma types_line_buffer:
  assumes t: "types_line e r ptr codes line s" and b: "buffer_apart e ptr s" and fr: "\<And>a. a \<notin> region (buf s) 512 \<Longrightarrow> m a = mem s a"
  shows "types_line e r ptr codes line (s\<lparr>mem := m\<rparr>)"
proof -
  have "m a = mem s a" if "a \<in> tty_bytes ptr \<union> region (kimg e Scancode_set) 59 \<union> region (kimg e Shift_set) 59" for a
    using that b by (intro fr) (auto simp: buffer_apart_def)
  note i = inv_outside [where s = s and m = m and hw = "board e" and img = "kimg e" and ptr = ptr, OF _ this]
  have "ld32 m (handlers s + 132) = ld32 (mem s) (handlers s + 132)"
    using b by (intro ld32_cong fr) (auto simp: buffer_apart_def)
  then have "kbd_hooked (kimg e) ptr (s\<lparr>mem := m\<rparr>) \<longleftrightarrow> kbd_hooked (kimg e) ptr s" by (simp add: kbd_hooked_def handler_at_def)
  moreover obtain sh cp old sh' cp' cs rest where
    k: "kbd_inv (board e) r (kimg e) ptr 0 (sh, cp, old) s" "kbd_hooked (kimg e) ptr s" "\<not> kbd_get Flush ptr s \<and> unat ptr + 524 \<le> 2 ^ 32
     \<and> keyboard (board e) cs \<and> drop (inputs 0x60 (io s)) cs = codes @ ENTER # rest \<and> typing_ok codes (sh, cp, [])
     \<and> length codes < length (pending s) \<and> list_all (\<lambda>v. r_int_no v = 33) (pending s) \<and> (sh', cp', line) = fold key codes (sh, cp, [])"
    using t unfolding types_line_def by blast
  ultimately show ?thesis unfolding types_line_def using i [OF k(1)]
    by (intro exI [of _ sh] exI [of _ cp] exI [of _ old] exI [of _ sh'] exI [of _ cp'] exI [of _ cs] exI [of _ rest]) simp
qed

lemma say_fields [simp]: "mem (say x s) = mem s" "io (say x s) = io s" "handlers (say x t) = handlers t" "pending (say x u) = pending u" "buf (say x k) = buf k"
  by (simp_all add: say_def)

lemma types_line_say: "types_line e r ptr codes line s \<Longrightarrow> types_line e r ptr codes line (say x s)"
  unfolding types_line_def inv_say by (simp add: kbd_hooked_def handler_at_def kbd_get_def)

lemma gets_line:
  fixes s :: "'a kernel_scheme"
  assumes t: "types_line e r ptr codes line s" and b: "buffer_apart e ptr s"
  shows "\<exists>s'. gets (board e) (kimg e) (frame_ptr e) (buf s) s = Some (buf s, s') \<and> rd (mem s') (buf s) (length line) = line
    \<and> (\<forall>a. a \<notin> tty_bytes ptr \<longrightarrow> a \<notin> region (buf s) (length line) \<longrightarrow> mem s' a = mem s a)
    \<and> length line \<le> 511 \<and> quiet (log s) (log s')
    \<and> (\<exists>m t l. s' = s\<lparr>mem := m, io := t, log := l, pending := drop (Suc (length codes)) (pending s)\<rparr>)"
proof -
  obtain sh cp old sh' cp' cs rest where k: "kbd_inv (board e) r (kimg e) ptr 0 (sh, cp, old) s" "kbd_hooked (kimg e) ptr s" "\<not> kbd_get Flush ptr s"
    "unat ptr + 524 \<le> 2 ^ 32" "keyboard (board e) cs" "drop (inputs 0x60 (io s)) cs = codes @ ENTER # rest" "typing_ok codes (sh, cp, [])"
    "length codes < length (pending s)" "list_all (\<lambda>v. r_int_no v = 33) (pending s)" "(sh', cp', line) = fold key codes (sh, cp, [])"
    using t unfolding types_line_def by blast
  let ?call = "kernel_call (board e) (kimg e) (frame_ptr e) :: 'a kernel_scheme code"
  have c: "?call (kimg e Kbd_irq) = (\<lambda>regs t. Some (Returns (kbd_irq (board e) (kimg e) regs t)))"
    by (simp add: kernel_call_def fun_eq_iff)
  have "region (buf s) 511 \<inter> region ptr 524 = {}"
    using b region_mono [of 511 512 "buf s"] by (auto simp: buffer_apart_def tty_bytes_def)
  from read_line [where s = s and call = ?call and len = BUFSIZ, OF k(1-3) c k(4-9) this k(10)] obtain s1 where
    s1: "tty_read (irq_handler ?call) (pending s) ptr (buf s) BUFSIZ s = Some (of_nat (length line), s1, drop (Suc (length codes)) (pending s))"
    "rd (mem s1) (buf s) (length line) = line" "\<forall>a. a \<notin> tty_bytes ptr \<longrightarrow> a \<notin> region (buf s) (length line) \<longrightarrow> mem s1 a = mem s a"
    "s1 = s\<lparr>mem := mem s1, io := io s1, log := log s1\<rparr>" "quiet (log s) (log s1)" by blast
  let ?s' = "s1\<lparr>pending := drop (Suc (length codes)) (pending s)\<rparr>"
  have cur: "current_tty s = ptr" using inv_current [OF k(1)] .
  have "gets (board e) (kimg e) (frame_ptr e) (buf s) s = Some (buf s, ?s')"
    using s1(1) by (simp add: gets_def waiting_def cur)
  moreover have "length line \<le> 511" using typing_length [OF k(7)] k(10) [symmetric] by simp
  moreover obtain m t l where "s1 = s\<lparr>mem := m, io := t, log := l\<rparr>" using s1(4) by blast
  ultimately show ?thesis using s1(2,3,5) by (intro exI [of _ ?s']) auto
qed

lemma read_typed:
  fixes s :: "'a kernel_scheme"
  assumes t: "types_line e r ptr codes line s" and b: "buffer_apart e ptr s" and nz: "0 \<notin> set line"
  shows "\<exists>s'. read_command e s = Some s' \<and> cstr (mem s') (buf s) line \<and> length line \<le> 511
    \<and> (\<forall>a. a \<notin> tty_bytes ptr \<longrightarrow> a \<notin> region (buf s) 512 \<longrightarrow> mem s' a = mem s a)
    \<and> quiet (log s @ [Put ''> '']) (log s')
    \<and> (\<exists>m t l. s' = s\<lparr>mem := m, io := t, log := l, pending := drop (Suc (length codes)) (pending s)\<rparr>)"
proof -
  let ?m = "memset (mem s) (buf s) 0 BUFSIZ"
  let ?s = "(say (Put ''> '') s)\<lparr>mem := ?m\<rparr>"
  have m: "?m = wr (mem s) (buf s) (replicate 512 0)" by (simp add: memset_wr BUFSIZ_def)
  have fr: "?m a = mem s a" if "a \<notin> region (buf s) 512" for a using that wr_frame [of a "buf s" "replicate 512 0"] by (simp add: m)
  have "types_line e r ptr codes line ?s" "buffer_apart e ptr ?s"
    using types_line_buffer [OF types_line_say [OF t, of "Put ''> ''"], of ?m] b fr unfolding buffer_apart_def by simp_all
  from gets_line [OF this] obtain s' where s': "gets (board e) (kimg e) (frame_ptr e) (buf s) ?s = Some (buf s, s')"
    "rd (mem s') (buf s) (length line) = line" "\<forall>a. a \<notin> tty_bytes ptr \<longrightarrow> a \<notin> region (buf s) (length line) \<longrightarrow> mem s' a = ?m a"
    "length line \<le> 511" "quiet (log ?s) (log s')" "\<exists>m t l. s' = ?s\<lparr>mem := m, io := t, log := l, pending := drop (Suc (length codes)) (pending s)\<rparr>" by auto
  let ?z = "buf s + of_nat (length line)"
  have z: "?z \<in> region (buf s) 512" "?z \<notin> region (buf s) (length line)" using s'(4) by simp_all
  then have "?z \<notin> tty_bytes ptr" using b by (auto simp: buffer_apart_def)
  then have "mem s' ?z = 0" using s'(3) z wr_zeros [of ?z "buf s" 512 "mem s"] by (simp add: m)
  then have c: "cstr (mem s') (buf s) line" using s'(2) nz by (simp add: cstr_iff)
  have "region (buf s) (length line) \<subseteq> region (buf s) 512" using s'(4) by (intro region_mono) simp
  then have "mem s' a = mem s a" if "a \<notin> tty_bytes ptr" "a \<notin> region (buf s) 512" for a using that s'(3) fr by auto
  moreover have "read_command e s = Some s'" using s'(1) by (simp add: read_command_def Let_def)
  moreover have "\<exists>m t l. s' = s\<lparr>mem := m, io := t, log := l, pending := drop (Suc (length codes)) (pending s)\<rparr>"
    using s'(6) by (auto simp: say_def)
  moreover have "quiet (log s @ [Put ''> '']) (log s')" using s'(5) by (simp add: say_def)
  ultimately show ?thesis using c s'(4) by blast
qed

text \<open>The literal that is compared with; it is apart from what typing a line writes.\<close>

lemma typed_exit:
  fixes s :: "'a kernel_scheme"
  assumes t: "types_line e r ptr codes (bytes ''exit'') s" and b: "buffer_apart e ptr s"
    and lit: "cstr (mem s) (kimg e (Literal ''exit'')) (bytes ''exit'')"
    and ap: "region (kimg e (Literal ''exit'')) 5 \<inter> (tty_bytes ptr \<union> region (buf s) 512) = {}"
  shows "\<exists>s' es. shell_main e s = Some (0, s') \<and> pending s' = drop (Suc (length codes)) (pending s)
    \<and> log s' = log s @ [Putchar 0x0A, Put ''> ''] @ es \<and> list_all serial_event es
    \<and> cstr (mem s') (buf s) (bytes ''exit'') \<and> (\<forall>a. a \<notin> tty_bytes ptr \<longrightarrow> a \<notin> region (buf s) 512 \<longrightarrow> mem s' a = mem s a)"
proof -
  let ?s = "say (Putchar 0x0A) s"
  have "0 \<notin> set (bytes ''exit'')" by (simp add: bytes_def)
  from read_typed [OF types_line_say [OF t] _ this, of "Putchar 0x0A"] b obtain s' where
    s': "read_command e ?s = Some s'" "cstr (mem s') (buf s) (bytes ''exit'')"
    "\<forall>a. a \<notin> tty_bytes ptr \<longrightarrow> a \<notin> region (buf s) 512 \<longrightarrow> mem s' a = mem s a"
    "quiet (log ?s @ [Put ''> '']) (log s')"
    "\<exists>m t l. s' = ?s\<lparr>mem := m, io := t, log := l, pending := drop (Suc (length codes)) (pending s)\<rparr>"
    by (auto simp: buffer_apart_def)
  have q: "buf s' = buf s" "pending s' = drop (Suc (length codes)) (pending s)" using s'(5) by auto
  have "length (bytes ''exit'') = 4" by simp
  then have "cstr (mem s') (kimg e (Literal ''exit'')) (bytes ''exit'')"
    using ap s'(3) by (intro cstr_cong [OF lit]) (auto simp: eval_nat_numeral)
  from strcmp_eq [OF s'(2) this] have "run_command e s' = Some (Some 0, s')" by (auto simp: run_command_def q(1))
  then have "shell_main e s = Some (0, s')" using s'(1) by (simp add: shell_main_def) (subst shell_loop.simps, simp)
  moreover obtain es where "log s' = log s @ [Putchar 0x0A, Put ''> ''] @ es" "list_all serial_event es"
    using s'(4) by (auto simp: quiet_def say_def)
  ultimately show ?thesis using q(2) s'(2,3) by blast
qed

section \<open>Printing a file\<close>

text \<open>
  The line in the buffer is \<open>w\<close>, and zeros follow it; \<open>node\<close> is a regular file of the RAM disk
  that is read into the buffer.
\<close>

definition line_in :: "byte list \<Rightarrow> 'a kernel_scheme \<Rightarrow> bool" where
  "line_in w s \<longleftrightarrow> length w \<le> 511 \<and> 0 \<notin> set w \<and> rd (mem s) (buf s) 512 = w @ replicate (512 - length w) 0"

definition plain_file :: "env \<Rightarrow> addr \<Rightarrow> addr \<Rightarrow> u32 \<Rightarrow> 'a kernel_scheme \<Rightarrow> bool" where
  "plain_file e node src n s \<longleftrightarrow> file_at (kimg e) node s src n \<and> 0 < sint n \<and> unat n \<le> 511 \<and> dest_ok (kimg e) (mem s) src (buf s) n
     \<and> mem s (i_flags node) = FS_FILE \<and> ld32 (mem s) (i_open node) = 0 \<and> ld32 (mem s) (i_close node) = 0
     \<and> region node 76 \<inter> region (buf s) 512 = {} \<and> region (buf s) 512 \<inter> region (dev_offset (dev_ptr (kimg e) DEV_RAMDISK)) 4 = {}"

lemma line_cstr: "line_in w s \<Longrightarrow> cstr (mem s) (buf s) w"
  unfolding line_in_def
proof (elim conjE)
  assume a: "length w \<le> 511" "0 \<notin> set w" "rd (mem s) (buf s) 512 = w @ replicate (512 - length w) 0"
  have "take (length w) (rd (mem s) (buf s) 512) = rd (mem s) (buf s) (length w)" using a(1) by (intro rd_take) simp
  then have "rd (mem s) (buf s) (length w) = w" unfolding a(3) by simp
  moreover have "rd (mem s) (buf s) 512 ! length w = mem s (buf s + of_nat (length w))" using a(1) by (intro nth_rd) simp
  ultimately show "cstr (mem s) (buf s) w" using a(1,2) unfolding a(3) by (simp add: cstr_iff nth_append)
qed

lemma overwritten:
  assumes "rd m b N = w @ replicate (N - length w) 0" "length w < N" "n < N" "N < 2 ^ 32" "0 \<notin> set w"
    and "rd m' b n = c" "0 \<notin> set c" "\<And>x. x \<in> region b N \<Longrightarrow> x \<notin> region b n \<Longrightarrow> m' x = m x"
  shows "cstr m' b (c @ drop n w)"
proof -
  have c: "length c = n" using assms(6) by (metis length_rd)
  have at: "m' (b + of_nat i) = (w @ replicate (N - length w) 0) ! i" if "n \<le> i" "i < N" for i
  proof -
    have "b + of_nat i \<in> region b N" "b + of_nat i \<notin> region b n" using that assms(4) by simp_all
    then show ?thesis using assms(8) nth_rd [of i N m b] that(2) unfolding assms(1) by simp
  qed
  show ?thesis
  proof (cases "n \<le> length w")
    case True
    have "rd m' (b + of_nat n) (length w - n) = drop n w"
    proof (rule nth_equalityI)
      fix i assume "i < length (rd m' (b + of_nat n) (length w - n))"
      then have i: "i < length w - n" by simp
      then have "m' (b + of_nat (n + i)) = (w @ replicate (N - length w) 0) ! (n + i)" using assms(2) by (intro at) auto
      then show "rd m' (b + of_nat n) (length w - n) ! i = drop n w ! i" using i less_diff_conv [of i "length w" n] by (simp add: nth_append ac_simps)
    qed simp
    moreover have "m' (b + of_nat (length w)) = 0" using at [OF True assms(2)] by (simp add: nth_append assms(2))
    ultimately have "cstr m' (b + of_nat n) (drop n w)" using assms(5) True in_set_dropD [of 0 n w] by (auto simp: cstr_iff add.assoc)
    then show ?thesis using assms(6,7) c by (simp add: cstr_append)
  next
    case False
    then have "m' (b + of_nat n) = 0" using at [of n] assms(3) by (simp add: nth_append)
    then show ?thesis using False assms(6,7) c by (simp add: cstr_iff)
  qed
qed

lemma cat_run:
  fixes s :: "'a kernel_scheme"
  assumes tree: "tree_ok (kimg e) N T (mem s)" "fs_root s \<in> N" "tree_step T (fs_root s) name = node" "node \<noteq> 0"
    and line: "line_in w s" "w = bytes ''cat '' @ name" and fil: "plain_file e node src n s" and con: "c = rd (mem s) src (unat n)" "0 \<notin> set c"
  shows "\<exists>s'. cat_file e (buf s + 4) s = Some s' \<and> log s' = log s @ [Puts_bytes (c @ drop (unat n) w)]"
proof -
  have "cstr (mem s) (buf s) (bytes ''cat '' @ name)" using line_cstr [OF line(1)] line(2) by simp
  then have nm: "cstr (mem s) (buf s + 4) name" unfolding cstr_append by simp
  obtain er where fd: "fs_finddir (kimg e) (fs_root s) (buf s + 4) s = Some (node, s\<lparr>errno := er\<rparr>)"
    using finddir_step [OF tree(1,2) nm] tree(3) by auto
  let ?s = "s\<lparr>errno := er\<rparr>" and ?O = "region (dev_offset (dev_ptr (kimg e) DEV_RAMDISK)) 4"
  have f: "file_at (kimg e) node s src n" "0 < sint n" "unat n \<le> 511" "dest_ok (kimg e) (mem s) src (buf s) n" "mem s (i_flags node) = FS_FILE"
    "ld32 (mem s) (i_open node) = 0" "ld32 (mem s) (i_close node) = 0" "region node 76 \<inter> region (buf s) 512 = {}" "region (buf s) 512 \<inter> ?O = {}"
    using fil by (auto simp: plain_file_def)
  have fa: "file_at (kimg e) node ?s src n" using f(1) by (simp add: file_at_def)
  have dk: "dest_ok (kimg e) (mem ?s) src (buf s + 0) n" using f(4) by simp
  have sz: "ld32 (mem s) (i_size node) = n" "region node 76 \<inter> ?O = {}" using f(1) by (simp_all add: file_at_def)
  obtain s1 where s1: "fs_read (board e) (kimg e) (frame_ptr e) node (buf s) n 0 ?s = Some (n, s1)" "rd (mem s1) (buf s) (unat n) = c"
    "\<And>x. x \<notin> region (buf s) (unat n) \<Longrightarrow> x \<notin> ?O \<Longrightarrow> mem s1 x = mem s x" "s1 = ?s\<lparr>mem := mem s1\<rparr>"
    using read_file [OF fa f(2) dk, of "board e" "frame_ptr e" n] con(1) by auto
  have bs: "buf s1 = buf s" "log s1 = log s" by (subst s1(4), simp)+
  have sub: "region (buf s) (unat n) \<subseteq> region (buf s) 512" using f(3) by (intro region_mono) simp
  have "cstr (mem s1) (buf s) (c @ drop (unat n) w)"
  proof (rule overwritten [of "mem s" "buf s" 512 w "unat n"])
    show "mem s1 x = mem s x" if "x \<in> region (buf s) 512" "x \<notin> region (buf s) (unat n)" for x
      using that f(9) by (intro s1(3)) auto
  qed (use line(1) f(3) s1(2) con(2) in \<open>simp_all add: line_in_def del: rd_numeral\<close>)
  moreover have "length (c @ drop (unat n) w) < 2 ^ 32 - 1" using con(1) f(3) line(1) by (auto simp: line_in_def simp del: rd_numeral)
  ultimately have out: "str_at (mem s1) (buf s) = c @ drop (unat n) w" by (rule str_at_cstr)
  have kept: "mem s1 x = mem s x" if "x \<in> region node 76" for x using that f(8) sz(2) sub by (intro s1(3)) auto
  have "i_flags node \<in> region node 76" "region (i_close node) 4 \<subseteq> region node 76"
    using inode_fields(4) [of node] region_sub [of 52 4 76 node] by (simp_all add: i_close_def)
  then have cl: "mem s1 (i_flags node) = FS_FILE" "ld32 (mem s1) (i_close node) = 0"
    using kept f(5,7) ld32_cong [of "i_close node" "mem s1" "mem s"] by auto
  have op: "fs_open (board e) (kimg e) (frame_ptr e) node 0 ?s = Some (- ENOSYS, ?s)"
    using f(5,6) by (simp add: fs_open_def FS_FILE_def FS_CHAR_def FS_BLK_def)
  let ?s2 = "say (Puts_bytes (c @ drop (unat n) w)) s1"
  have "fs_close (board e) (kimg e) (frame_ptr e) node ?s2 = Some (- ENOSYS, ?s2)"
    using cl by (simp add: fs_close_def FS_FILE_def FS_CHAR_def FS_BLK_def)
  then have "cat_file e (buf s + 4) s = Some ?s2"
    using fd tree(4) f(5) op s1(1) sz(1) out bs(1) by (simp add: cat_file_def FS_FILE_def FS_DIR_def)
  then show ?thesis using bs(2) by (simp add: say_def)
qed

section \<open>Properties\<close>

text \<open>
  C19: shell_main. When the user types codes that make the line exit and then the enter key, the
  shell ends the current line of the screen, prints the prompt once and makes no other call to print
  (the keyboard interrupt echoes what is typed), reads exactly these interrupts, and returns 0. Besides the newline and the prompt the trace of messages holds
  only what the keyboard driver sends over the serial line; only the terminal, the screen and
  the buffer, which holds the line, change.
\<close>

theorem shell_exit:
  fixes s :: "'a kernel_scheme"
  assumes "types_line e r ptr codes (bytes ''exit'') s" and "buffer_apart e ptr s"
    and "cstr (mem s) (kimg e (Literal ''exit'')) (bytes ''exit'')"
    and "region (kimg e (Literal ''exit'')) 5 \<inter> (tty_bytes ptr \<union> region (buf s) 512) = {}"
  shows "\<exists>s' es. shell_main e s = Some (0, s') \<and> pending s' = drop (Suc (length codes)) (pending s)
    \<and> log s' = log s @ [Putchar 0x0A, Put ''> ''] @ es \<and> list_all serial_event es
    \<and> cstr (mem s') (buf s) (bytes ''exit'') \<and> (\<forall>a. a \<notin> tty_bytes ptr \<longrightarrow> a \<notin> region (buf s) 512 \<longrightarrow> mem s' a = mem s a)"
  by (rule typed_exit [OF assms])

text \<open>The desk of the terminal with the literal of the shell in its memory.\<close>

definition desk_env :: env where
  "desk_env = \<lparr>board = desk_hw (cursor_regs 0 0) [0x12, 0x2D, 0x17, 0x14, 0x1C], kimg = desk_img(Literal ''exit'' := 0x20000), frame_ptr = 0,
     cpu_flags = (False, False), local_test = 0x30000, local_delim = 0x30010, fault_regs = vector_regs 14\<rparr>"

definition desk_mem :: mem where
  "desk_mem = wr (mem desk) 0x20000 (bytes ''exit'' @ [0])"

definition desk_kernel :: kernel where
  "desk_kernel = (kernel_of desk_mem 0x40000)\<lparr>handlers := 0x2000, current_tty := 0x400010, pending := replicate 5 (vector_regs 33)\<rparr>"

theorem shell_exit_witness:
  "\<exists>s' es. shell_main desk_env desk_kernel = Some (0, s') \<and> pending s' = [] \<and> log s' = Putchar 0x0A # Put ''> '' # es \<and> list_all serial_event es"
proof -
  let ?hw = "desk_hw (cursor_regs 0 0) [0x12, 0x2D, 0x17, 0x14, 0x1C]" and ?img = "desk_img(Literal ''exit'' := 0x20000)"
  let ?codes = "[0x12, 0x2D, 0x17, 0x14] :: byte list" and ?s = desk_kernel
  have e: "board desk_env = ?hw" "kimg desk_env = ?img" by (simp_all add: desk_env_def)
  have d: "io desk = []" "current_tty desk = 0x400010" "handlers desk = 0x2000" by (simp_all add: desk_def tty_at_def)
  have ks: "mem ?s = desk_mem" "io ?s = []" "log ?s = []" "current_tty ?s = 0x400010" "handlers ?s = 0x2000" "buf ?s = 0x40000"
    "pending ?s = replicate 5 (vector_regs 33)" by (simp_all add: desk_kernel_def kernel_of_def)
  have V: "unat VGA_BASE = 0xB8000" by (simp add: VGA_BASE_def)
  have ap: "region a n \<inter> region q k = {}" if "unat a + n \<le> unat q \<or> unat q + k \<le> unat a" "unat a + n \<le> 2 ^ 32" "unat q + k \<le> 2 ^ 32" for a q :: addr and n k
    using that region_unat [of a n] region_unat [of q k] by auto
  have fr: "desk_mem a = mem desk a" if "a \<notin> region 0x20000 5" for a
  proof -
    have l: "length (bytes ''exit'' @ [0]) = 5" by simp
    show ?thesis using that wr_frame [of a "0x20000" "bytes ''exit'' @ [0]" "mem desk"] unfolding l desk_mem_def by simp
  qed
  note inv = desk_ok(1) [OF refl, of "[0x12, 0x2D, 0x17, 0x14, 0x1C]"] desk_ok(2,3) [OF refl]
  let ?T = "tty_bytes 0x400010 \<union> region (?img Scancode_set) 59 \<union> region (?img Shift_set) 59"
  have lo: "region 0x20000 5 \<inter> ?T = {}" "region 0x40000 512 \<inter> ?T = {}" "region 0x40000 512 \<inter> region (0x2084 :: addr) 4 = {}"
    "region 0x20000 5 \<inter> region (0x40000 :: addr) 512 = {}" "region 0x20000 5 \<inter> region (0x2084 :: addr) 4 = {}"
    using ap [of "0x20000" 5 "0x400010" 524] ap [of "0x20000" 5 VGA_BASE 4000] ap [of "0x20000" 5 "0x1000" 59] ap [of "0x20000" 5 "0x1100" 59]
      ap [of "0x40000" 512 "0x400010" 524] ap [of "0x40000" 512 VGA_BASE 4000] ap [of "0x40000" 512 "0x1000" 59] ap [of "0x40000" 512 "0x1100" 59]
      ap [of "0x40000" 512 "0x2084" 4] ap [of "0x20000" 5 "0x40000" 512] ap [of "0x20000" 5 "0x2084" 4]
    by (simp_all add: tty_bytes_def desk_img_def V Int_Un_distrib)
  have same: "desk_mem a = mem desk a" if "a \<in> ?T" for a using that lo(1) by (intro fr) auto
  have "kbd_inv ?hw (cursor_regs 0 0) ?img 0x400010 0 (False, False, []) (desk\<lparr>mem := desk_mem\<rparr>)"
    "kbd_get Flush 0x400010 (desk\<lparr>mem := desk_mem\<rparr>) = kbd_get Flush 0x400010 desk"
    using inv_outside [of ?hw "cursor_regs 0 0" ?img "0x400010" 0 "(False, False, [])" desk desk_mem] inv(1) same
    by (auto simp: kbd_inv_def simp del: rd_numeral)
  then have k: "kbd_inv ?hw (cursor_regs 0 0) ?img 0x400010 0 (False, False, []) ?s" "\<not> kbd_get Flush 0x400010 ?s"
    using inv(3) by (simp_all add: kbd_inv_def vt_ok_def vt_state_def kbd_get_def ks d del: rd_numeral)
  have "ld32 desk_mem 0x2084 = ld32 (mem desk) 0x2084" using lo(5) by (intro ld32_cong fr) auto
  then have h: "kbd_hooked ?img 0x400010 ?s" using inv(2) by (simp add: kbd_hooked_def handler_at_def ks d)
  note codes_def = key_def sym_def table_codes toupper_def tolower_def promote_def key_ok_def
    TAB_def CTRL_def LSHIFT_def RSHIFT_def CAPS_def ALT_def ENTER_def BACKSPACE_def
  have "types_line desk_env (cursor_regs 0 0) 0x400010 ?codes (bytes ''exit'') ?s"
    unfolding types_line_def e
    by (rule exI [of _ False], rule exI [of _ False], rule exI [of _ "[]"], rule exI [of _ False], rule exI [of _ False],
        rule exI [of _ "[0x12, 0x2D, 0x17, 0x14, 0x1C]"], rule exI [of _ "[]"])
      (use k h desk_ok(4) desk_hw_ok(2) in \<open>simp add: ks codes_def bytes_def vector_regs_def list_all_iff\<close>)
  moreover have "buffer_apart desk_env 0x400010 ?s" using lo(2,3) by (simp add: buffer_apart_def e ks Int_Un_distrib)
  moreover have "cstr (mem ?s) (kimg desk_env (Literal ''exit'')) (bytes ''exit'')"
    by (simp add: e ks desk_mem_def cstr_wr bytes_def)
  ultimately show ?thesis using shell_exit [of desk_env "cursor_regs 0 0" "0x400010" ?codes ?s] lo(1,4) by (simp add: e ks Int_Un_distrib) blast
qed

text \<open>
  C20: cat_file. For a regular file of the RAM disk the command prints the bytes of the file, followed
  by what the command line in the same buffer has beyond the length of the file: the buffer is
  not cleared before the read, so a file shorter than the command line is printed with its end.
\<close>

theorem cat_prints:
  fixes s :: "'a kernel_scheme"
  assumes "tree_ok (kimg e) N T (mem s)" and "fs_root s \<in> N" and "tree_step T (fs_root s) name = node" and "node \<noteq> 0"
    and "line_in w s" and "w = bytes ''cat '' @ name" and "plain_file e node src n s" and "c = rd (mem s) src (unat n)" and "0 \<notin> set c"
  shows "\<exists>s'. cat_file e (buf s + 4) s = Some s' \<and> log s' = log s @ [Puts_bytes (c @ drop (unat n) w)]"
  by (rule cat_run [OF assms])

text \<open>A root directory at 0x6000 with the file a, the bytes 1 to 3 of a RAM disk at 0x5000, and the line in a buffer.\<close>

definition cat_env :: env where
  "cat_env = demo_env\<lparr>kimg := fs_img\<rparr>"

definition cat_low :: mem where
  "cat_low = (st32 (st32 (st32 (st32 (st32 (st32 (st32 (st32 (st32 (st32 (st32 (st32 (\<lambda>_. 0) 0x2048 0x1010) 0x204C 0x1020) 0x2050 0x1030) 0x2054 0x1040)
     0x2040 0x7000) 0x7000 0x5000) 0x613C 0x1060) 0x6124 3) 0x612C 1) 0x602C 1) 0x6044 0x1050) 0x6048 0x6100)
     (0x5001 := 0x78, 0x5002 := 0x79, 0x5003 := 0x7A, 0x6020 := 2, 0x6120 := 1, 0x6100 := 0x61)"

lemma cat_low_at: "ld32 cat_low 0x2044 = 0" "ld32 cat_low 0x2048 = 0x1010" "ld32 cat_low 0x204C = 0x1020" "ld32 cat_low 0x2050 = 0x1030"
  "ld32 cat_low 0x2054 = 0x1040" "ld32 cat_low 0x2040 = 0x7000" "ld32 cat_low 0x7000 = 0x5000" "ld32 cat_low 0x613C = 0x1060"
  "ld32 cat_low 0x6124 = 3" "ld32 cat_low 0x612C = 1" "ld32 cat_low 0x602C = 1" "ld32 cat_low 0x6044 = 0x1050" "ld32 cat_low 0x6048 = 0x6100"
  "ld32 cat_low 0x6130 = 0" "ld32 cat_low 0x6134 = 0" "ld32 cat_low 0x6144 = 0"
  "cat_low 0x6020 = 2" "cat_low 0x6120 = 1" "rd cat_low 0x5001 3 = [0x78, 0x79, 0x7A]" "cstr cat_low 0x6100 [0x61]"
  by (simp_all add: cat_low_def ld32_def st32_def)

definition cat_kernel :: kernel where
  "cat_kernel = kernel_of (wr cat_low 0x40000 (bytes ''cat a'' @ replicate 507 0)) 0x40000\<lparr>fs_root := 0x6000\<rparr>"

theorem cat_prints_witness:
  "\<exists>s'. cat_file cat_env 0x40004 cat_kernel = Some s'
     \<and> log s' = [Puts_bytes (bytes ''xyz a'')]"
proof -
  let ?w = "bytes ''cat a''" and ?s = cat_kernel
  let ?N = "{0x6000, 0x6100 :: addr}" and ?T = "[0x6000 \<mapsto> (0x6100, [[0x61]])] :: tree"
  have L: "length (?w @ replicate 507 (0 :: byte)) = 512" by simp
  have m: "buf ?s = 0x40000" "fs_root ?s = 0x6000" "log ?s = []" "file_base ?s = 0" "kimg cat_env = fs_img"
    by (simp_all add: cat_kernel_def kernel_of_def cat_env_def)
  have fr: "mem ?s x = cat_low x" if "x \<notin> region 0x40000 512" for x
    using wr_frame [of x "0x40000" "?w @ replicate 507 0" cat_low] that unfolding L by (simp add: cat_kernel_def kernel_of_def)
  have ap: "region a n \<inter> region q k = {}" if "unat a + n \<le> unat q \<or> unat q + k \<le> unat a" "unat a + n \<le> 2 ^ 32" "unat q + k \<le> 2 ^ 32" for a q :: addr and n k
    using that region_unat [of a n] region_unat [of q k] by auto
  have low: "mem ?s x = cat_low x" if "unat x < 0x40000" for x using that region_unat [of "0x40000" 512] by (intro fr) auto
  have l32: "ld32 (mem ?s) p = ld32 cat_low p" if "unat p + 4 \<le> 0x40000" for p
    using that ap [of p 4 "0x40000" 512] by (intro ld32_cong fr) auto
  have d: "dev_ptr fs_img DEV_RAMDISK = 0x202C" by (simp add: dev_ptr_def fs_img_def demo_img_def sizeof_device_def DEV_RAMDISK_def)
  have img: "fs_img Ramfs_read = 0x1060" "fs_img Ramdisk_read = 0x1010" "fs_img Ramdisk_open = 0x1020" "fs_img Ramdisk_close = 0x1030"
    "fs_img Ramdisk_ioctl = 0x1040" "fs_img Ramfs_finddir = 0x1050" by (simp_all add: fs_img_def demo_img_def)
  have at: "ramdisk_at fs_img (mem ?s) 0x5000"
    by (simp add: ramdisk_at_def ramdisk_entry_def d img l32 cat_low_at dev_write_fn_def dev_read_fn_def dev_open_fn_def dev_close_fn_def dev_ioctl_fn_def dev_data_def)
  have nm: "cstr (mem ?s) 0x6100 [0x61]"
    using ap [of "0x6100" "Suc (length [0x61 :: byte])" "0x40000" 512] by (intro cstr_cong [OF cat_low_at(20)] fr) auto
  have tree: "tree_ok fs_img ?N ?T (mem ?s)"
    using nm by (simp add: tree_ok_def dir_at_def img i_impl_def i_finddir_def i_ptr_def l32 low cat_low_at not_dir_def i_flags_def FS_DIR_def)
  have "rd (mem ?s) 0x40000 512 = ?w @ replicate 507 0" using rd_wr [of "?w @ replicate 507 0" cat_low "0x40000"] unfolding L by (simp add: cat_kernel_def kernel_of_def del: rd_numeral)
  then have line: "line_in ?w ?s" unfolding line_in_def m by (simp add: bytes_def del: rd_numeral)
  have con: "rd (mem ?s) 0x5001 3 = [0x78, 0x79, 0x7A]"
    using ap [of "0x5001" 3 "0x40000" 512] rd_cong [of "0x5001" 3 "mem ?s" cat_low] fr cat_low_at(19) by (auto simp del: rd_numeral)
  have "file_at fs_img 0x6100 ?s 0x5001 3" using at ap [of "0x6100" 76 "0x203C" 4] ap [of "0x7000" 8 "0x203C" 4] ap [of "0x5001" 3 "0x203C" 4]
    by (simp add: file_at_def m d img l32 cat_low_at i_read_def i_size_def i_impl_def dev_data_def dev_offset_def)
  moreover have "dest_ok fs_img (mem ?s) 0x5001 0x40000 3" using ap [of "0x40000" 3 "0x202C" 44] ap [of "0x40000" 3 "0x7000" 8]
    by (simp add: dest_ok_def ramdisk_meta_def d l32 cat_low_at dev_data_def Int_Un_distrib)
  ultimately have fil: "plain_file cat_env 0x6100 0x5001 3 ?s" unfolding plain_file_def m
    using ap [of "0x6100" 76 "0x40000" 512] ap [of "0x40000" 512 "0x203C" 4]
    by (simp add: i_flags_def i_open_def i_close_def low l32 cat_low_at FS_FILE_def d dev_offset_def)
  have "\<exists>s'. cat_file cat_env (buf ?s + 4) ?s = Some s' \<and> log s' = log ?s @ [Puts_bytes ([0x78, 0x79, 0x7A] @ drop (unat (3 :: u32)) ?w)]"
    using cat_prints [of cat_env ?N ?T ?s "[0x61]" "0x6100" ?w "0x5001" 3 "[0x78, 0x79, 0x7A]"] tree line fil con
    by (simp add: m tree_step_def bytes_def del: rd_numeral)
  moreover have "[0x78, 0x79, 0x7A] @ drop (unat (3 :: u32)) ?w = bytes ''xyz a''" by (simp add: bytes_def)
  ultimately show ?thesis by (simp add: m)
qed

end
