(* ===== verification/Kernel.thy ===== *)
theory Kernel
  imports Session
begin

text \<open>
  The entry of the kernel (kernel/main.c): the initialisation of the components, the RAM disk and
  its file system, the greeting, the shell, and switching off.
\<close>

section \<open>kernel_main\<close>

text \<open>struct kernel_conf, packed, and its flags.\<close>

definition conf_flags :: "addr \<Rightarrow> addr" where "conf_flags p = p"
definition conf_rsdp_seg :: "addr \<Rightarrow> addr" where "conf_rsdp_seg p = p + 2"
definition conf_rd_start :: "addr \<Rightarrow> addr" where "conf_rd_start p = p + 4"
definition conf_rd_end :: "addr \<Rightarrow> addr" where "conf_rd_end p = p + 8"
definition KF_RAMDISK :: u16 where "KF_RAMDISK = 0x01"
definition KF_RSDP :: u16 where "KF_RSDP = 0x02"

text \<open>
  What else the code finds on the stack: the uninitialised variables of the two checksums, and the
  addresses of \<open>rd_size\<close> and of \<open>header\<close> of ramfs_init, which are passed on.
\<close>

record stack =
  junk1 :: byte
  junk2 :: byte
  local_size :: addr
  local_header :: addr

abbreviation code_of :: "env \<Rightarrow> 'a console_scheme devcode" where
  "code_of e \<equiv> kernel_code (board e) (kimg e) (frame_ptr e)"

text \<open>The initialisations from the interrupts to the timer.\<close>

definition boot :: "env \<Rightarrow> 'a kernel_scheme \<Rightarrow> 'a kernel_scheme option" where
  "boot e s =
     do {
       s \<leftarrow> int_init (board e) (kimg e) s;
       r \<leftarrow> dev_open (kimg e) (code_of e) DEV_TTY 0 s;
       s \<leftarrow> pmem_init (snd r);
       s \<leftarrow> vmem_init (kimg e) s;
       r \<leftarrow> pit_init (kimg e) 1000 s;
       Some (snd r)
     }"

definition start_acpi :: "env \<Rightarrow> stack \<Rightarrow> addr \<Rightarrow> 'a kernel_scheme \<Rightarrow> 'a kernel_scheme option" where
  "start_acpi e k conf s =
     (if ld16 (mem s) (conf_flags conf) AND KF_RSDP \<noteq> 0
      then do {
        r \<leftarrow> acpi_init (board e) (cpu_flags e) (kimg e) (frame_ptr e) (junk1 k) (junk2 k)
          (push_bit 4 (ucast (ld16 (mem s) (conf_rsdp_seg conf)))) s;
        Some (snd r)
      }
      else Some s)"

definition mount :: "env \<Rightarrow> stack \<Rightarrow> addr \<Rightarrow> 'a kernel_scheme \<Rightarrow> 'a kernel_scheme option" where
  "mount e k conf s =
     (let rd_size = ld32 (mem s) (conf_rd_end conf) - ld32 (mem s) (conf_rd_start conf);
          s = s\<lparr>mem := st32 (mem s) (local_size k) rd_size\<rparr>;
          s = say (Serial_printf (''[ramdisk] size=%uKB, start=0x%x'' @ nl) [ArgW (rd_size div 1024), ArgW (ld32 (mem s) (conf_rd_start conf))]) s
      in do {
        r \<leftarrow> dev_open (kimg e) (code_of e) DEV_RAMDISK 0 s;
        r \<leftarrow> dev_ioctl (kimg e) (code_of e) DEV_RAMDISK RD_SETADDR (conf_rd_start conf) (snd r);
        r \<leftarrow> dev_ioctl (kimg e) (code_of e) DEV_RAMDISK RD_SETSIZE (local_size k) (snd r);
        r \<leftarrow> ramfs_init (board e) (kimg e) (frame_ptr e) (local_header k) (snd r);
        Some ((snd r)\<lparr>fs_root := fst r\<rparr>)
      })"

definition greet :: "env \<Rightarrow> 'a kernel_scheme \<Rightarrow> 'a kernel_scheme option" where
  "greet e s =
     do {
       r \<leftarrow> fs_finddir (kimg e) (fs_root s) (kimg e (Literal ''greeting.txt'')) s;
       let tmp = fst r;
       r \<leftarrow> fs_open (board e) (kimg e) (frame_ptr e) tmp 0 (snd r);
       let s = snd r;
       r \<leftarrow> fs_read (board e) (kimg e) (frame_ptr e) tmp (buf s) (ld32 (mem s) (i_size tmp)) 0 s;
       r \<leftarrow> fs_close (board e) (kimg e) (frame_ptr e) tmp (snd r);
       let s = snd r;
       let s = s\<lparr>mem := (mem s)(buf s + ld32 (mem s) (i_size tmp) := 0)\<rparr>;
       r \<leftarrow> dev_ioctl (kimg e) (code_of e) DEV_TTY TTY_GETCOL (kimg e Default_color) s;
       r \<leftarrow> dev_ioctl (kimg e) (code_of e) DEV_TTY TTY_SETCOL (kimg e White_on_black) (snd r);
       let s = snd r;
       let s = say (Put_bytes (str_at (mem s) (buf s))) s;
       r \<leftarrow> dev_ioctl (kimg e) (code_of e) DEV_TTY TTY_SETCOL (kimg e Default_color) s;
       Some (snd r)
     }"

text \<open>
  Interrupts are enabled after \<open>boot\<close>; they are taken where the code waits for one. Without a RAM
  disk the kernel prints a message and spins.
\<close>

definition kernel_main :: "env \<Rightarrow> stack \<Rightarrow> addr \<Rightarrow> 'a kernel_scheme \<Rightarrow> (u32 \<times> 'a kernel_scheme) option" where
  "kernel_main e k conf s =
     do {
       s \<leftarrow> serial_init (board e) (kimg e (Literal (''[serial] enabled!'' @ nl))) s;
       s \<leftarrow> boot e s;
       r \<leftarrow> kmalloc s BUFSIZ;
       let s = (snd r)\<lparr>buf := fst r\<rparr>;
       if ld16 (mem s) (conf_flags conf) AND KF_RAMDISK = 0 then None
       else do {
         s \<leftarrow> start_acpi e k conf s;
         s \<leftarrow> mount e k conf s;
         s \<leftarrow> greet e s;
         r \<leftarrow> shell_main e s;
         r \<leftarrow> dev_close (kimg e) (code_of e) DEV_RAMDISK (say (Puts ''[kernel] start halting system'') (snd r));
         let r = acpi_shutdown (pic_disable (snd r));
         Some (0, if fst r \<noteq> 0 then say (Puts ''Failed to shutdown'') (snd r) else snd r)
       }
     }"

end
