(* ===== verification/Boot.thy ===== *)
theory Boot
  imports Kernel
begin

text \<open>
  The initialisation of the kernel as a whole: opening the terminal on a fresh heap, and the state
  that \<open>boot\<close> leaves behind for the rest of the kernel.
\<close>

section \<open>Opening the terminal\<close>

lemma crtc_only: "only ps tr \<Longrightarrow> VGA_CMD \<notin> ps \<Longrightarrow> VGA_DATA \<notin> ps \<Longrightarrow> crtc_of c tr = c"
proof (induction tr arbitrary: c)
  case (Cons x tr)
  then have "port_of x \<noteq> VGA_CMD" "port_of x \<noteq> VGA_DATA" by (auto simp: only_def)
  then have "crtc_step x c = c" by (cases x; cases c) simp_all
  then show ?case using Cons by (simp add: only_def)
qed simp

lemma cursor_only: "only ps tr \<Longrightarrow> VGA_CMD \<notin> ps \<Longrightarrow> VGA_DATA \<notin> ps \<Longrightarrow> cursor_at r (tr' @ tr) = cursor_at r tr'"
  by (simp add: cursor_at_def crtc_of_append crtc_only)

text \<open>The structure that tty_create writes; \<open>c\<close> is the byte kept of the cursor.\<close>

definition fresh_tty :: "mem \<Rightarrow> addr \<Rightarrow> byte \<Rightarrow> mem" where
  "fresh_tty m ptr c = (st32 (memset m ptr 0 sizeof_tty) (tty_bufptr ptr) (tty_buf ptr))(tty_color ptr := 0x7, tty_cursor ptr := c)"

lemma fresh_tty_frame: "x \<notin> region ptr 524 \<Longrightarrow> fresh_tty m ptr c x = m x"
proof -
  assume x: "x \<notin> region ptr 524"
  have "ptr \<in> region ptr 524" by simp
  then have "x \<noteq> ptr" "x \<noteq> ptr + 1" "x \<notin> region (tty_bufptr ptr) 4" using x tty_fields_in [of ptr] by auto
  then show ?thesis using x wr_frame [of x ptr "replicate 524 0" m]
    by (simp add: fresh_tty_def tty_color_def tty_cursor_def st32_frame memset_wr sizeof_tty_def)
qed

lemma fresh_tty_fields: "line_at ptr (fresh_tty m ptr c) []" "fresh_tty m ptr c (tty_kbd ptr) = 0"
proof -
  have p: "ptr \<notin> region (tty_bufptr ptr) 4" "tty_kbd ptr \<noteq> ptr"
    by (simp_all add: region_def tty_offsets unsigned_minus_1_eq_mask mask_eq_exp_minus_1)
  show "line_at ptr (fresh_tty m ptr c) []"
    using p(1) tty_fields [of ptr] by (simp add: line_at_def fresh_tty_def tty_color_def tty_cursor_def ld32_byte_other)
  show "fresh_tty m ptr c (tty_kbd ptr) = 0"
    using p(2) tty_fields [of ptr] tty_fields_in(4) [of ptr] wr_zeros [of "tty_kbd ptr" ptr 524 m]
    by (simp add: fresh_tty_def tty_color_def tty_cursor_def st32_frame memset_wr sizeof_tty_def)
qed

lemma enable_cursor_run:
  "\<exists>tr. tty_enable_cursor hw a b s = s\<lparr>io := io s @ tr\<rparr> \<and> cursor_at r (io s @ tr) = cursor_at r (io s)"
proof -
  let ?t1 = "[Outb VGA_CMD 0xA]"
  let ?v = "ucast (hw (io s @ ?t1) VGA_DATA) :: byte"
  let ?t2 = "?t1 @ [Inb VGA_DATA ?v, Outb VGA_DATA ((?v AND 0xC0) OR a), Outb VGA_CMD 0xB]"
  let ?w = "ucast (hw (io s @ ?t2) VGA_DATA) :: byte"
  let ?t = "?t2 @ [Inb VGA_DATA ?w, Outb VGA_DATA ((?w AND 0xE0) OR b)]"
  obtain i f where c: "crtc_of r (io s) = (i, f)" by force
  have "tty_enable_cursor hw a b s = s\<lparr>io := io s @ ?t\<rparr>"
    by (simp add: tty_enable_cursor_def inb_eq outb_def Let_def)
  moreover have "cursor_at r (io s @ ?t) = cursor_at r (io s)"
    by (simp add: cursor_at_def crtc_of_append c VGA_CMD_def VGA_DATA_def)
  ultimately show ?thesis by blast
qed

lemma get_cursor_run:
  "\<exists>tr c. tty_get_cursor hw s = (c, s\<lparr>io := io s @ tr\<rparr>) \<and> cursor_at r (io s @ tr) = cursor_at r (io s)"
proof -
  let ?v = "ucast (hw (io s @ [Outb VGA_CMD 0xE]) VGA_DATA) :: byte"
  let ?t2 = "[Outb VGA_CMD 0xE, Inb VGA_DATA ?v, Outb VGA_CMD 0xF]"
  let ?t = "?t2 @ [Inb VGA_DATA (ucast (hw (io s @ ?t2) VGA_DATA))]"
  obtain i f where c: "crtc_of r (io s) = (i, f)" by force
  have "cursor_at r (io s @ ?t) = cursor_at r (io s)"
    by (simp add: cursor_at_def crtc_of_append c VGA_CMD_def VGA_DATA_def)
  moreover have "snd (tty_get_cursor hw s) = s\<lparr>io := io s @ ?t\<rparr>"
    by (simp add: tty_get_cursor_def inb_eq outb_def Let_def)
  ultimately show ?thesis by (metis prod.collapse)
qed

lemma tty_create_run:
  "\<exists>tr c. tty_create hw ptr s = (0, s\<lparr>mem := fresh_tty (mem s) ptr c, current_tty := ptr, io := io s @ tr\<rparr>)
     \<and> cursor_at r (io s @ tr) = cursor_at r (io s)"
proof -
  obtain t1 where e: "tty_enable_cursor hw 0xE 0xF s = s\<lparr>io := io s @ t1\<rparr>" "cursor_at r (io s @ t1) = cursor_at r (io s)"
    using enable_cursor_run by blast
  let ?s = "s\<lparr>io := io s @ t1, current_tty := ptr,
    mem := (st32 (memset (mem s) ptr 0 sizeof_tty) (tty_bufptr ptr) (tty_buf ptr))(tty_color ptr := 0x7)\<rparr>"
  obtain t2 c where g: "tty_get_cursor hw ?s = (c, ?s\<lparr>io := io ?s @ t2\<rparr>)" "cursor_at r (io ?s @ t2) = cursor_at r (io ?s)"
    using get_cursor_run by blast
  have "tty_create hw ptr s = (0, s\<lparr>mem := fresh_tty (mem s) ptr (ucast c), current_tty := ptr, io := io s @ (t1 @ t2)\<rparr>)"
    using g(1) by (simp add: tty_create_def e(1) Let_def fresh_tty_def)
  moreover have "cursor_at r (io s @ (t1 @ t2)) = cursor_at r (io s)" using e(2) g(2) by simp
  ultimately show ?thesis by blast
qed

lemma tty_init_run:
  assumes "tty_initialised s = 0"
  shows "\<exists>tr. tty_init hw img s = (0, s\<lparr>tty_initialised := 1, mem := mem (int_hook_handler (of_nat 33) (img Kbd_irq) s), io := io s @ tr\<rparr>)
    \<and> only pic_ports tr"
  using assms
  by (simp add: tty_init_def irq_enable_def pic_unmask_def int_hook_handler_def inb_eq outb_def data_port_def PIC1_def)
    (auto simp: only_def pic_ports_def intro!: exI)

lemma ttydev_open_run:
  fixes s :: "'a tty_scheme"
  assumes ok: "int_ok s bs" and fit: "fits bs 524" and init: "tty_initialised s = 0"
    and dev: "outside_heap (dev_data dev) 4" "ld32 (mem s) (dev_data dev) = 0"
  shows "\<exists>ptr m l tr cs. ttydev_open hw img dev flags s =
      Some (0, s\<lparr>tty_initialised := 1, current_tty := ptr, log := l, mem := m, io := io s @ tr\<rparr>)
    \<and> int_ok (s\<lparr>tty_initialised := 1, current_tty := ptr, log := l, mem := m, io := io s @ tr\<rparr>) cs \<and> grows bs cs ptr 524
    \<and> cursor_at r (io s @ tr) = cursor_at r (io s)
    \<and> ld32 m (dev_data dev) = ptr \<and> line_at ptr m [] \<and> m (tty_kbd ptr) = 0
    \<and> (\<forall>x. outside x \<longrightarrow> x \<notin> region (dev_data dev) 4 \<longrightarrow> m x = mem s x)
    \<and> (\<forall>q k. owns bs q k \<longrightarrow> q \<noteq> handlers s \<longrightarrow> (\<forall>x \<in> region q k. m x = mem s x))
    \<and> (\<forall>n < 256. ld32 m (handlers s + 4 * of_nat n) = (if n = 33 then img Kbd_irq else handler_at s (of_nat n)))"
proof -
  let ?D = "region (dev_data dev) 4" and ?H = "region (handlers s) 1024"
  define m1 where "m1 = mem (int_hook_handler (of_nat 33) (img Kbd_irq) s)"
  obtain tr1 where i: "tty_init hw img s = (0, s\<lparr>tty_initialised := 1, mem := m1, io := io s @ tr1\<rparr>)" "only pic_ports tr1"
    using tty_init_run [OF init, of hw img] by (auto simp: m1_def)
  let ?s1 = "s\<lparr>tty_initialised := 1, mem := m1, io := io s @ tr1\<rparr>"
  have O: "owns bs (handlers s) 1024" "heap_ok s bs" "owns bs (entries s) 2048" "entries s \<noteq> handlers s" using ok by (auto simp: int_ok_def)
  have m1: "m1 x = mem s x" if "x \<notin> ?H" for x using handler_hook_frame [of 33 x s] that by (simp add: m1_def)
  have h1: "heap_ok ?s1 bs" using owns_store [OF O(2,1) m1] by (simp add: heap_ok_def)
  obtain ptr m2 l cs where k: "kmalloc ?s1 524 = Some (ptr, ?s1\<lparr>log := l, mem := m2\<rparr>)" "heap_ok (?s1\<lparr>log := l, mem := m2\<rparr>) cs"
    "grows bs cs ptr 524" "keeps bs m1 m2"
    using kmalloc_zeroed [OF h1, of 524] fit by auto
  let ?s2 = "?s1\<lparr>log := l, mem := m2\<rparr>"
  obtain tr2 c where t: "tty_create hw ptr ?s2 = (0, ?s2\<lparr>mem := fresh_tty m2 ptr c, current_tty := ptr, io := io ?s2 @ tr2\<rparr>)"
    "cursor_at r (io ?s2 @ tr2) = cursor_at r (io ?s2)"
    using tty_create_run [of hw ptr ?s2 r] by auto
  let ?f = "fresh_tty m2 ptr c" and ?tr = "tr1 @ tr2"
  let ?m = "st32 ?f (dev_data dev) ptr"
  have P: "owns cs ptr 524" "live_set bs \<subseteq> live_set cs" using k(3) by (simp_all add: grows_def)
  have out: "outside x" if "x \<in> ?D" for x using dev(1) that by (simp add: outside_heap_def)
  have d: "x \<notin> ?D" if "owns cs q i" "x \<in> region q i" for q i x using owns_outside [OF k(2) that(1)] out that(2) by blast
  have fr: "?m x = m2 x" if "x \<notin> region ptr 524" "x \<notin> ?D" for x using fresh_tty_frame [OF that(1)] that(2) by (simp add: st32_frame)
  have kept: "?m x = m1 x" if "owns bs q i" "x \<in> region q i" for q i x
  proof -
    have q: "owns cs q i" "q \<noteq> ptr" using grows_owns [OF k(3) that(1)] by auto
    have "x \<notin> region ptr 524" using owns_apart [OF k(2) q(1) P(1) q(2)] that(2) by auto
    then show ?thesis using fr d [OF q(1) that(2)] keeps_owns [OF h1 that(1) k(4) that(2)] by simp
  qed
  have h2: "heap_ok (?s2\<lparr>mem := ?f\<rparr>) cs" using fresh_tty_frame by (intro owns_store [OF k(2) P(1)]) simp
  have "?m x = mem (?s2\<lparr>mem := ?f\<rparr>) x" if "\<not> outside x" for x using out that st32_frame [of x "dev_data dev" ?f ptr] by auto
  from heap_ok_outside [OF h2 this]
  have h: "heap_ok (s\<lparr>tty_initialised := 1, current_tty := ptr, log := l, mem := ?m, io := io s @ ?tr\<rparr>) cs" by (simp add: heap_ok_def)
  let ?s = "s\<lparr>tty_initialised := 1, current_tty := ptr, log := l, mem := ?m, io := io s @ ?tr\<rparr>"
  have "ttydev_open hw img dev flags s = Some (0, ?s)"
    using dev(2) t(1) k(1) by (simp add: ttydev_open_def i(1) sizeof_tty_def)
  moreover have "int_ok ?s cs" using h O(1,3,4) grows_owns [OF k(3)] by (simp add: int_ok_def)
  moreover have "cursor_at r (io s @ ?tr) = cursor_at r (io s)"
    using t(2) cursor_only [OF i(2), of r "io s"] by (simp add: pic_ports_def VGA_CMD_def VGA_DATA_def)
  moreover have "ld32 ?m (dev_data dev) = ptr" by simp
  moreover have "line_at ptr ?m []" "?m (tty_kbd ptr) = 0"
  proof -
    have e: "?m x = ?f x" if "x \<in> region ptr 524" for x using d [OF P(1) that] by (simp add: st32_frame)
    show "?m (tty_kbd ptr) = 0" using e tty_fields_in [of ptr] fresh_tty_fields(2) by simp
    have "ld32 ?m (tty_bufptr ptr) = ld32 ?f (tty_bufptr ptr)" using e tty_fields_in [of ptr] by (intro ld32_cong) auto
    then show "line_at ptr ?m []" using fresh_tty_fields(1) [of ptr m2 c] by (simp add: line_at_def)
  qed
  moreover have "\<forall>x. outside x \<longrightarrow> x \<notin> ?D \<longrightarrow> ?m x = mem s x"
    using fr owns_outside [OF k(2) P(1)] owns_outside [OF O(2,1)] keeps_outside [OF k(4)] m1 by simp
  moreover have "\<forall>q k. owns bs q k \<longrightarrow> q \<noteq> handlers s \<longrightarrow> (\<forall>x \<in> region q k. ?m x = mem s x)"
    using kept m1 owns_apart [OF O(2) _ O(1)] by (metis disjoint_iff)
  moreover have "\<forall>n < 256. ld32 ?m (handlers s + 4 * of_nat n) = (if n = 33 then img Kbd_irq else handler_at s (of_nat n))"
  proof (intro allI impI)
    fix n :: nat assume n: "n < 256"
    have "handler_at ?s (of_nat n) = handler_at (int_hook_handler (of_nat 33) (img Kbd_irq) s) (of_nat n)"
      using kept [OF O(1)] n by (intro handlers_cong) (simp_all add: m1_def int_hook_handler_def)
    then show "ld32 ?m (handlers s + 4 * of_nat n) = (if n = 33 then img Kbd_irq else handler_at s (of_nat n))"
      using handler_hook [of 33 n "img Kbd_irq" s] n by (simp add: handler_at_def)
  qed
  ultimately show ?thesis using k(3) by blast
qed

lemma vga_outside: "outside_heap VGA_BASE 4000"
  by (auto simp: outside_heap_def region_unat outside_def VGA_BASE_def HEAP_BASE_def)

text \<open>What the image has to hold: the device table and the tables of codes, apart from each other.\<close>

definition boot_image :: "env \<Rightarrow> mem \<Rightarrow> bool" where
  "boot_image e m \<longleftrightarrow> devs_loaded (kimg e) m \<and> outside_heap (kimg e Devs) 88 \<and> region (kimg e Devs) 88 \<inter> region VGA_BASE 4000 = {}
     \<and> (\<forall>f \<in> {Scancode_set, Shift_set}. outside_heap (kimg e f) 59 \<and> region (kimg e f) 59 \<inter> region VGA_BASE 4000 = {}
          \<and> region (kimg e f) 59 \<inter> region (kimg e Devs) 88 = {})
     \<and> rd m (kimg e Scancode_set) 59 = scancode_set \<and> rd m (kimg e Shift_set) 59 = shift_set
     \<and> kimg e Ttydev_open \<notin> {0, kimg e Ramdisk_open} \<and> kimg e Ttydev_write \<noteq> 0 \<and> kimg e Kbd_irq \<noteq> 0"

lemma boot_image_cong: "boot_image e m \<Longrightarrow> (\<And>x. outside x \<Longrightarrow> m' x = m x) \<Longrightarrow> boot_image e m'"
proof -
  assume b: "boot_image e m" and m: "\<And>x. outside x \<Longrightarrow> m' x = m x"
  have "rd m' p n = rd m p n" if "outside_heap p n" "n \<le> 2 ^ 32" for p n
    using that m by (intro rd_cong) (auto simp: outside_heap_def)
  then show ?thesis using b by (auto simp: boot_image_def devs_loaded_def simp del: rd_numeral)
qed

lemma loaded_tty:
  assumes "devs_loaded img m"
  shows "ld32 m (dev_data (dev_ptr img DEV_TTY)) = 0" "ld32 m (dev_write_fn (dev_ptr img DEV_TTY)) = img Ttydev_write"
    "ld32 m (dev_open_fn (dev_ptr img DEV_TTY)) = img Ttydev_open"
proof -
  have at: "ld32 m (img Devs + of_nat k) = w" if "k + 4 \<le> 88" "take 4 (drop k (devs_bytes img)) = word_bytes w" for k w
    using that assms unfolding devs_loaded_def by (intro ld32_slice [of m "img Devs" 88]) auto
  have d: "length (name16 ''tty'') = 16" "\<And>w. length (word_bytes w) = 4"
    by (simp_all add: name16_def bytes_def word_bytes_def)
  note D = devs_bytes_def d dev_ptr_def sizeof_device_def DEV_TTY_def dev_data_def dev_write_fn_def dev_open_fn_def
  show "ld32 m (dev_data (dev_ptr img DEV_TTY)) = 0" using at [of 20 0] by (simp add: D)
  show "ld32 m (dev_write_fn (dev_ptr img DEV_TTY)) = img Ttydev_write" using at [of 24 "img Ttydev_write"] by (simp add: D)
  show "ld32 m (dev_open_fn (dev_ptr img DEV_TTY)) = img Ttydev_open" using at [of 32 "img Ttydev_open"] by (simp add: D)
qed

text \<open>Opening the terminal through the device table: the keyboard is ready with an empty line, and the console prints.\<close>

lemma open_console:
  fixes s :: "'a kernel_scheme"
  assumes ok: "int_ok s bs" and fit: "fits bs 524" and init: "tty_initialised s = 0" and img: "boot_image e (mem s)"
    and crt: "is_crtc (board e) r" "unat (cursor_at r (io s)) < 2000"
  shows "\<exists>ptr m l tr cs s'. dev_open (kimg e) (code_of e) DEV_TTY 0 s = Some (0, s')
    \<and> s' = s\<lparr>tty_initialised := 1, current_tty := ptr, log := l, mem := m, io := io s @ tr\<rparr>
    \<and> int_ok s' cs \<and> grows bs cs ptr 524 \<and> kbd_inv (board e) r (kimg e) ptr 0 (False, False, []) s' \<and> \<not> kbd_get Flush ptr s'
    \<and> console_at (kimg e) ptr m
    \<and> (\<forall>q k. owns bs q k \<longrightarrow> q \<noteq> handlers s \<longrightarrow> (\<forall>x \<in> region q k. m x = mem s x))
    \<and> (\<forall>n < 256. handler_at s' (of_nat n) = (if n = 33 then kimg e Kbd_irq else handler_at s (of_nat n)))"
proof -
  let ?d = "dev_ptr (kimg e) DEV_TTY"
  let ?clr = "st32 (mem s) (dev_offset ?d) 0"
  let ?start = "s\<lparr>mem := ?clr\<rparr>"
  have B: "devs_loaded (kimg e) (mem s)" "outside_heap (kimg e Devs) 88" "region (kimg e Devs) 88 \<inter> region VGA_BASE 4000 = {}"
    "kimg e Ttydev_open \<notin> {0, kimg e Ramdisk_open}" "kimg e Ttydev_write \<noteq> 0" "kimg e Kbd_irq \<noteq> 0"
    using img by (simp_all add: boot_image_def del: rd_numeral)
  have D: "?d = kimg e Devs" by (simp add: dev_ptr_def DEV_TTY_def)
  have dv: "region ?d 44 \<subseteq> region (kimg e Devs) 88" using region_mono [of 44 88 ?d] by (simp add: D)
  have oh: "outside_heap ?d 44" using B(2) dv by (auto simp: outside_heap_def)
  then have out: "outside x" if "x \<in> region ?d 44" for x using that by (simp add: outside_heap_def)
  have m0: "?clr x = mem s x" if "x \<notin> region ?d 44" for x using that dev_field_in(1) [of ?d] by (intro st32_frame) auto
  have H: "heap_ok s bs" "owns bs (handlers s) 1024" using ok by (auto simp: int_ok_def)
  have "heap_ok ?start bs" using m0 out by (intro heap_ok_outside [OF H(1)]) auto
  then have ok0: "int_ok ?start bs" using ok by (simp add: int_ok_def)
  have fields: "ld32 ?clr (dev_data ?d) = 0" "ld32 ?clr (dev_write_fn ?d) = kimg e Ttydev_write" "ld32 ?clr (dev_open_fn ?d) = kimg e Ttydev_open"
    using loaded_tty [OF B(1)] dev_fields [of ?d] by (simp_all add: ld32_st32_other sep_sym)
  have od: "outside_heap (dev_data ?d) 4" using out dev_field_in(2) [of ?d] by (auto simp: outside_heap_def)
  obtain ptr m l tr cs where t: "ttydev_open (board e) (kimg e) ?d 0 ?start =
      Some (0, ?start\<lparr>tty_initialised := 1, current_tty := ptr, log := l, mem := m, io := io ?start @ tr\<rparr>)"
    "int_ok (?start\<lparr>tty_initialised := 1, current_tty := ptr, log := l, mem := m, io := io ?start @ tr\<rparr>) cs" "grows bs cs ptr 524"
    "cursor_at r (io ?start @ tr) = cursor_at r (io ?start)" "ld32 m (dev_data ?d) = ptr" "line_at ptr m []" "m (tty_kbd ptr) = 0"
    "\<forall>x. outside x \<longrightarrow> x \<notin> region (dev_data ?d) 4 \<longrightarrow> m x = mem ?start x"
    "\<forall>q k. owns bs q k \<longrightarrow> q \<noteq> handlers ?start \<longrightarrow> (\<forall>x \<in> region q k. m x = mem ?start x)"
    "\<forall>n < 256. ld32 m (handlers ?start + 4 * of_nat n) = (if n = 33 then kimg e Kbd_irq else handler_at ?start (of_nat n))"
    using ttydev_open_run [OF ok0 fit _ od, of "board e" "kimg e" 0 r] init fields(1) by auto
  let ?s = "s\<lparr>tty_initialised := 1, current_tty := ptr, log := l, mem := m, io := io s @ tr\<rparr>"
  have run: "dev_open (kimg e) (code_of e) DEV_TTY 0 s = Some (0, ?s)"
    using B(4) t(1) fields(3) by (simp add: dev_open_def Let_def kernel_code_def)
  have heap: "int_ok ?s cs" "owns cs ptr 524" "heap_ok ?s cs" using t(2,3) by (simp_all add: int_ok_def grows_def)
  have pr: "region ptr 524 \<inter> region p n = {}" if "outside_heap p n" for p n
    using owns_outside [OF heap(3,2)] that by (auto simp: outside_heap_def)
  have low: "m x = mem s x" if "outside x" "x \<notin> region ?d 44" for x
    using t(8) m0 [OF that(2)] that dev_field_in(2) [of ?d] by auto
  have dat: "outside_heap (kimg e f) 59" "region (kimg e f) 59 \<inter> region VGA_BASE 4000 = {}" "region (kimg e f) 59 \<inter> region ?d 44 = {}"
    if "f \<in> {Scancode_set, Shift_set}" for f using img that dv by (auto simp: boot_image_def simp del: rd_numeral)
  have "rd m (kimg e f) 59 = rd (mem s) (kimg e f) 59" if "f \<in> {Scancode_set, Shift_set}" for f
    using dat(1,3) [OF that] low by (intro rd_cong) (auto simp: outside_heap_def)
  then have tabs: "rd m (kimg e Scancode_set) 59 = scancode_set" "rd m (kimg e Shift_set) 59 = shift_set"
    using img by (simp_all add: boot_image_def del: rd_numeral)
  have ap: "region (kimg e f) 59 \<inter> tty_bytes ptr = {}" if "f \<in> {Scancode_set, Shift_set}" for f
    using dat(2) [OF that] pr [OF dat(1) [OF that]] by (auto simp: tty_bytes_def)
  have "ptr \<noteq> 0" using owns_range [OF heap(3,2)] by (auto simp: HEAP_BASE_def)
  then have "kbd_inv (board e) r (kimg e) ptr 0 (False, False, []) ?s"
    using crt t(4,6,7) pr [OF vga_outside] tabs ap by (simp add: kbd_inv_def vt_ok_def vt_state_def kbd_get_def del: rd_numeral)
  moreover have "\<not> kbd_get Flush ptr ?s" using t(7) by (simp add: kbd_get_def)
  moreover have "console_at (kimg e) ptr m"
  proof -
    have "sep (dev_write_fn ?d) 4 (dev_data ?d) 4" by (simp add: sep_def dev_write_fn_def dev_data_def)
    then have "ld32 m (dev_write_fn ?d) = ld32 ?clr (dev_write_fn ?d)"
      using t(8) out dev_field_in(3) [of ?d] by (intro ld32_cong) (auto dest!: sep_region)
    moreover have "region ?d 44 \<inter> out_bytes ptr = {}"
      using pr [OF oh] tty_fields_in(5,6) [of ptr] B(3) dv by (auto simp: out_bytes_def)
    ultimately show ?thesis using fields(2) t(5) B(5) by (simp add: console_at_def)
  qed
  moreover have "m x = mem s x" if "owns bs q k" "q \<noteq> handlers s" "x \<in> region q k" for q k x
  proof -
    have "x \<notin> region ?d 44" using owns_outside [OF H(1) that(1)] out that(3) by blast
    then have "?clr x = mem s x" by (rule m0)
    moreover have "m x = ?clr x" using t(9) that by fastforce
    ultimately show ?thesis by simp
  qed
  moreover have "handler_at ?s (of_nat n) = (if n = 33 then kimg e Kbd_irq else handler_at s (of_nat n))" if n: "n < 256" for n
  proof -
    have "handler_at ?start (of_nat n) = handler_at s (of_nat n)"
    proof (rule handlers_cong)
      fix x assume "x \<in> region (handlers s) 1024"
      then have "x \<notin> region ?d 44" using owns_outside [OF H] out by blast
      then have "?clr x = mem s x" by (rule m0)
      then show "mem ?start x = mem s x" by simp
    qed (simp_all add: n)
    then show ?thesis using t(10) n by (simp add: handler_at_def)
  qed
  ultimately show ?thesis using run heap(1) t(3) by blast
qed

section \<open>Paging and the timer\<close>

lemma packed_used: "packed bs t \<Longrightarrow> owns bs q k \<Longrightarrow> list_all fst bs \<and> t = top_of bs"
  by (auto simp: packed_def owns_def live_set_def)

lemma pit_init_run:
  "freq \<noteq> 0 \<Longrightarrow> \<exists>tr. pit_init img freq s = Some (0, s\<lparr>mem := mem (int_hook_handler (of_nat 32) (img Pit_irq) s), io := io s @ tr\<rparr>)
     \<and> only {PIT_CMD, PIT_DATA0} tr"
  by (auto simp: pit_init_def Let_def outb_def int_hook_handler_def only_def)

lemma paging_run:
  fixes s :: "'a pit_scheme"
  assumes ok: "int_ok s bs" and pk: "packed bs t" and t: "pad_ok 12 (t + 4112)" "t + 45072 \<le> HEAP_END" and init: "tables s = 0" "freq \<noteq> 0"
  shows "\<exists>s' cs. do { s \<leftarrow> pmem_init s; s \<leftarrow> vmem_init img s; r \<leftarrow> pit_init img freq s; Some (snd r) } = Some s'
    \<and> heap_ok s' cs \<and> bit (cr0 s') 31 \<and> (\<forall>a < 0x1000000. translate (mem s') (cr3 s') a = Some a) \<and> frames s' = {..<4096}
    \<and> owns cs (handlers s) 1024
    \<and> (\<forall>n < 256. handler_at s' (of_nat n) = (if n = 14 then img Page_fault else if n = 32 then img Pit_irq else handler_at s (of_nat n)))
    \<and> (\<forall>x. outside x \<longrightarrow> mem s' x = mem s x)
    \<and> (\<forall>q k. owns bs q k \<longrightarrow> q \<noteq> handlers s \<longrightarrow> owns cs q k \<and> (\<forall>x \<in> region q k. mem s' x = mem s x))
    \<and> (\<exists>l m p t c tr. s' = s\<lparr>log := l, mem := m, frame_set := p, tables := t, cr3 := t, cr0 := c, io := io s @ tr\<rparr> \<and> only {PIT_CMD, PIT_DATA0} tr)"
proof -
  have H: "heap_ok s bs" "owns bs (handlers s) 1024" using ok by (auto simp: int_ok_def)
  have u: "list_all fst bs" "t = top_of bs" using packed_used [OF pk H(2)] by auto
  have "fits bs 4096" using t(2) u(2) by (simp add: fits_def)
  then obtain p m l c1 where p: "pmem_init s = Some (s\<lparr>log := l, mem := m, frame_set := p\<rparr>)"
    "heap_ok (s\<lparr>log := l, mem := m, frame_set := p\<rparr>) c1" "grows bs c1 p 4096" "keeps bs (mem s) m"
    "frames (s\<lparr>log := l, mem := m, frame_set := p\<rparr>) = {}"
    using pmem_init_run [OF H(1)] by blast
  let ?a = "s\<lparr>log := l, mem := m, frame_set := p\<rparr>"
  have c1: "owns c1 p 4096" "packed c1 (t + 4112)" using p(3) pk by (auto simp: grows_def add.commute [of t])
  have u1: "list_all fst c1" "top_of c1 = t + 4112" using packed_used [OF c1(2,1)] by auto
  have h1: "owns c1 (handlers s) 1024" "handlers s \<noteq> p" using grows_owns [OF p(3) H(2)] by auto
  have P: "pad_ok 12 (top_of c1)" "top_of c1 + 40960 \<le> HEAP_END" "owns c1 (frame_set ?a) 4096" "owns c1 (handlers ?a) 1024"
    "frame_set ?a \<noteq> handlers ?a" "tables ?a = 0" using t init(1) u1(2) c1(1) h1 by simp_all
  obtain b cs where v: "vmem_init img ?a = Some b" "heap_ok b cs" "bit (cr0 b) 31" "handler_at b 14 = img Page_fault"
    "owns cs (handlers ?a) 1024" "\<forall>n < 256. n \<noteq> 14 \<longrightarrow> handler_at b (of_nat n) = handler_at ?a (of_nat n)"
    "\<forall>x. outside x \<longrightarrow> mem b x = mem ?a x"
    "\<forall>q k. owns c1 q k \<longrightarrow> q \<notin> {frame_set ?a, handlers ?a} \<longrightarrow> owns cs q k \<and> (\<forall>x \<in> region q k. mem b x = mem ?a x)"
    "\<exists>ts. vm_ok b cs ts 4096" "\<exists>l m t c. b = ?a\<lparr>log := l, mem := m, tables := t, cr3 := t, cr0 := c\<rparr>"
    using vmem_init_run [OF p(2) u1(1) P p(5), of img] by blast
  have w: "owns cs (handlers s) 1024" using v(5) by simp
  obtain ts where vm: "vm_ok b cs ts 4096" using v(9) by blast
  obtain l2 m2 t2 c2 where b: "b = ?a\<lparr>log := l2, mem := m2, tables := t2, cr3 := t2, cr0 := c2\<rparr>" using v(10) by blast
  define m3 where "m3 = mem (int_hook_handler (of_nat 32) (img Pit_irq) b)"
  obtain tr where i: "pit_init img freq b = Some (0, b\<lparr>mem := m3, io := io b @ tr\<rparr>)" "only {PIT_CMD, PIT_DATA0} tr"
    using pit_init_run [OF init(2), of img b] by (auto simp: m3_def)
  let ?e = "b\<lparr>mem := m3, io := io b @ tr\<rparr>"
  have hb: "handlers b = handlers s" "io b = io s" by (simp_all add: b)
  have m3: "m3 x = mem b x" if "x \<notin> region (handlers s) 1024" for x
    using handler_hook_frame [of 32 x b "img Pit_irq"] that by (simp add: m3_def hb)
  have "vm_ok (b\<lparr>mem := m3\<rparr>) cs ts 4096" using m3 by (intro vm_ok_store [OF vm]) (simp add: hb)
  then have vm': "vm_ok ?e cs ts 4096" by (simp add: vm_ok_def heap_ok_def frames_def)
  have fr: "owns cs q k \<and> (\<forall>x \<in> region q k. m3 x = mem s x)" if q: "owns bs q k" "q \<noteq> handlers s" for q k
  proof -
    have o: "owns c1 q k" "q \<noteq> p" using grows_owns [OF p(3) q(1)] by auto
    then have o': "owns cs q k" "\<forall>x \<in> region q k. mem b x = m x" using v(8) q(2) by auto
    have "m3 x = mem b x" if "x \<in> region q k" for x
      using owns_apart [OF v(2) o'(1) w q(2)] that by (intro m3) auto
    then show ?thesis using o' keeps_owns [OF H(1) q(1) p(4)] by simp
  qed
  have hk: "handler_at ?e (of_nat n) = (if n = 14 then img Page_fault else if n = 32 then img Pit_irq else handler_at s (of_nat n))"
    if n: "n < 256" for n
  proof -
    have "handler_at ?a (of_nat n) = handler_at s (of_nat n)"
      using keeps_owns [OF H p(4)] n by (intro handlers_cong) auto
    moreover have "handler_at ?e (of_nat n) = handler_at (int_hook_handler (of_nat 32) (img Pit_irq) b) (of_nat n)"
      by (simp add: handler_at_def m3_def int_hook_handler_def)
    moreover have "handler_at b (of_nat n) = (if n = 14 then img Page_fault else handler_at ?a (of_nat n))" using v(4,6) n by auto
    ultimately show ?thesis using handler_hook [of 32 n "img Pit_irq" b] v(4) n by simp
  qed
  have out: "m3 x = mem s x" if "outside x" for x
    using m3 [of x] owns_outside [OF v(2) w that] v(7) that keeps_outside [OF p(4) that] by simp
  have tr: "translate m3 (cr3 b) a = Some a" if "a < 0x1000000" for a
    using translate_identity [OF vm', of a] that by (simp add: b word_less_nat_alt)
  have run: "do { s \<leftarrow> pmem_init s; s \<leftarrow> vmem_init img s; r \<leftarrow> pit_init img freq s; Some (snd r) } = Some ?e"
    using p(1) v(1) i(1) by simp
  have st: "?e = s\<lparr>log := l2, mem := m3, frame_set := p, tables := t2, cr3 := t2, cr0 := c2, io := io s @ tr\<rparr>" by (simp add: b)
  show ?thesis
  proof (intro exI [of _ ?e] exI [of _ cs] conjI)
    show "\<exists>l m p t c tr'. ?e = s\<lparr>log := l, mem := m, frame_set := p, tables := t, cr3 := t, cr0 := c, io := io s @ tr'\<rparr>
        \<and> only {PIT_CMD, PIT_DATA0} tr'" using st i(2) by blast
  qed (use run vm_okD(1,10) [OF vm'] v(3) w hk out fr tr in simp_all)
qed

section \<open>The kernel after boot\<close>

text \<open>The handlers that are registered.\<close>

definition boot_handlers :: "(nat \<times> symbol) list" where
  "boot_handlers = [(0, Zero_division), (13, General_protection), (14, Page_fault), (32, Pit_irq), (33, Kbd_irq)]"

text \<open>
  Interrupts lead through 48 gates to the handlers, the console prints, the keyboard edits an empty
  line, and the first 16 MB are mapped to themselves.
\<close>

definition kernel_ready :: "env \<Rightarrow> crtc \<Rightarrow> addr \<Rightarrow> ablock list \<Rightarrow> 'a kernel_scheme \<Rightarrow> bool" where
  "kernel_ready e r ptr bs s \<longleftrightarrow> heap_ok s bs \<and> owns bs ptr 524
     \<and> idt_reg s = \<lparr>limit = 2047, base = entries s\<rparr>
     \<and> (\<forall>n < 256. gate_at (mem s) (entries s) n = (if n < 48 then kernel_gate (stub (kimg e) n) else no_gate))
     \<and> (\<forall>n < 256. handler_at s (of_nat n) = (case map_of boot_handlers n of Some f \<Rightarrow> kimg e f | None \<Rightarrow> 0))
     \<and> console_at (kimg e) ptr (mem s)
     \<and> kbd_inv (board e) r (kimg e) ptr 0 (False, False, []) s \<and> kbd_hooked (kimg e) ptr s \<and> \<not> kbd_get Flush ptr s
     \<and> bit (cr0 s) 31 \<and> (\<forall>a < 0x1000000. translate (mem s) (cr3 s) a = Some a) \<and> frames s = {..<4096}"

text \<open>The console and the keyboard stay ready while the rest of the kernel initialises itself in objects of its own.\<close>

lemma console_kept:
  fixes b c :: "'a tty_scheme"
  assumes inv: "kbd_inv (board e) r (kimg e) ptr 0 ed b" "\<not> kbd_get Flush ptr b" "console_at (kimg e) ptr (mem b)"
    and img: "boot_image e m" and own: "owns cs ptr 524" "ptr \<noteq> handlers b"
    and out: "\<forall>x. outside x \<longrightarrow> mem c x = mem b x"
    and obj: "\<forall>q k. owns cs q k \<longrightarrow> q \<noteq> handlers b \<longrightarrow> owns ds q k \<and> (\<forall>x \<in> region q k. mem c x = mem b x)"
    and st: "current_tty c = current_tty b" "io c = io b @ tr" "only {PIT_CMD, PIT_DATA0} tr" "handlers c = handlers b"
    and hc: "heap_ok c ds" "owns ds (handlers b) 1024" "handler_at c 33 = kimg e Kbd_irq"
  shows "owns ds ptr 524 \<and> kbd_inv (board e) r (kimg e) ptr 0 ed c \<and> \<not> kbd_get Flush ptr c \<and> console_at (kimg e) ptr (mem c)
    \<and> kbd_hooked (kimg e) ptr c"
proof -
  have pt: "owns ds ptr 524" "\<forall>x \<in> region ptr 524. mem c x = mem b x" using obj own by auto
  have low: "mem c x = mem b x" if "outside_heap p n" "x \<in> region p n" for p n x using out that by (auto simp: outside_heap_def)
  have dev: "region (dev_ptr (kimg e) DEV_TTY) 44 \<subseteq> region (kimg e Devs) 88"
    using region_mono [of 44 88 "kimg e Devs"] by (simp add: dev_ptr_def DEV_TTY_def)
  have io: "cursor_at r (io c) = cursor_at r (io b)"
    using cursor_only [OF st(3)] by (simp add: st(2) VGA_CMD_def VGA_DATA_def PIT_CMD_def PIT_DATA0_def)
  have same: "mem c x = mem b x" if "x \<in> tty_bytes ptr \<union> region (kimg e Scancode_set) 59 \<union> region (kimg e Shift_set) 59" for x
    using that low [OF vga_outside] low [of "kimg e _" 59 x] pt(2) img
    by (auto simp: tty_bytes_def boot_image_def simp del: rd_numeral)
  have "kbd_inv (board e) r (kimg e) ptr 0 ed c" by (rule inv_change [OF inv(1) same st(1) io])
  moreover have "\<not> kbd_get Flush ptr c"
    using kbd_get_cong [OF same [of "tty_kbd ptr"]] tty_fields_in(4) [of ptr] inv(2) by (auto simp: tty_bytes_def)
  moreover have "console_at (kimg e) ptr (mem c)"
    using low [of "kimg e Devs" 88] dev img by (intro console_cong [OF inv(3)]) (auto simp: boot_image_def simp del: rd_numeral)
  moreover have "kbd_hooked (kimg e) ptr c"
  proof -
    have "region (handlers b + 132) 4 \<subseteq> region (handlers b) 1024" using region_sub [of 132 4 1024 "handlers b"] by simp
    moreover have "region (handlers b) 1024 \<inter> region ptr 524 = {}" using owns_apart [OF hc(1,2) pt(1)] own(2) by auto
    moreover have "region (handlers b) 1024 \<inter> region VGA_BASE 4000 = {}"
      using owns_outside [OF hc(1,2)] vga_outside by (auto simp: outside_heap_def)
    ultimately show ?thesis using hc(3) img
      by (auto simp: kbd_hooked_def st(4) tty_bytes_def boot_image_def simp del: rd_numeral)
  qed
  ultimately show ?thesis using pt(1) by blast
qed

section \<open>Properties\<close>

text \<open>
  C17: boot. From an empty heap and the initial tables of the image the initialisations end: the kernel
  is ready. The gates lead to the stubs, exactly the handlers of the two exceptions, of the page
  fault, the timer and the keyboard are registered, the terminal that was opened before paging
  still prints and edits an empty line, and every address below 16 MB is mapped to itself.
\<close>

theorem boot_ok:
  fixes s :: "'a kernel_scheme"
  assumes heap: "heap_ok s [(False, 0)]" and nul: "entries s = 0" "handlers s = 0" "tables s = 0" "tty_initialised s = 0"
    and img: "boot_image e (mem s)" and crt: "is_crtc (board e) r" "unat (cursor_at r (io s)) < 2000"
  shows "\<exists>s' ptr bs. boot e s = Some s' \<and> kernel_ready e r ptr bs s'"
proof -
  have HB: "top_of [(False, 0)] + 3104 \<le> HEAP_END" "packed [(False, 0)] (unat HEAP_BASE)"
    by (simp_all add: top_of_def HEAP_BASE_def HEAP_END_def packed_def)
  obtain a bs where a: "int_init (board e) (kimg e) s = Some a" "int_ok a bs" "keeps [(False, 0)] (mem s) (mem a)"
    "idt_reg a = \<lparr>limit = 2047, base = entries a\<rparr>"
    "\<forall>n < 256. gate_at (mem a) (entries a) n = (if n < 48 then kernel_gate (stub (kimg e) n) else no_gate)"
    "\<forall>n < 256. handler_at a (of_nat n) = (if n = 0 then kimg e Zero_division else if n = 13 then kimg e General_protection else 0)"
    "\<forall>t. packed [(False, 0)] t \<longrightarrow> packed bs (t + 3104)"
    "\<exists>l m h e i r tr. a = s\<lparr>log := l, mem := m, entries := e, handlers := h, idtr := i, idt_reg := r, io := io s @ tr\<rparr> \<and> only pic_ports tr"
    using int_init_run [OF heap nul(1,2) HB(1), of "board e" "kimg e"] by blast
  obtain tr where ia: "io a = io s @ tr" "only pic_ports tr" "tty_initialised a = 0" "tables a = 0" using a(8) nul by auto
  have "cursor_at r (io a) = cursor_at r (io s)"
    using cursor_only [OF ia(2)] by (simp add: ia(1) pic_ports_def VGA_CMD_def VGA_DATA_def)
  then have crt': "unat (cursor_at r (io a)) < 2000" using crt(2) by simp
  have img': "boot_image e (mem a)" using boot_image_cong [OF img] keeps_outside [OF a(3)] by blast
  have A: "owns bs (handlers a) 1024" "owns bs (entries a) 2048" "entries a \<noteq> handlers a" using a(2) by (auto simp: int_ok_def)
  have pk: "packed bs (unat HEAP_BASE + 3104)" using a(7) HB(2) by blast
  have "top_of bs = unat HEAP_BASE + 3104" using packed_used [OF pk A(1)] by simp
  then have fit: "fits bs 524" by (simp add: fits_def HEAP_BASE_def HEAP_END_def)
  obtain ptr m l tr' cs b where b: "dev_open (kimg e) (code_of e) DEV_TTY 0 a = Some (0, b)"
    "b = a\<lparr>tty_initialised := 1, current_tty := ptr, log := l, mem := m, io := io a @ tr'\<rparr>"
    "int_ok b cs" "grows bs cs ptr 524" "kbd_inv (board e) r (kimg e) ptr 0 (False, False, []) b" "\<not> kbd_get Flush ptr b"
    "console_at (kimg e) ptr m" "\<forall>q k. owns bs q k \<longrightarrow> q \<noteq> handlers a \<longrightarrow> (\<forall>x \<in> region q k. m x = mem a x)"
    "\<forall>n < 256. handler_at b (of_nat n) = (if n = 33 then kimg e Kbd_irq else handler_at a (of_nat n))"
    using open_console [OF a(2) fit ia(3) img' crt(1) crt'] by blast
  have mb: "mem b = m" "handlers b = handlers a" "entries b = entries a" "idt_reg b = idt_reg a" "tables b = 0" using b(2) ia(4) by simp_all
  have pk': "packed cs (unat HEAP_BASE + 3648)" using b(4) pk by (auto simp: grows_def add.assoc)
  have pad: "pad_ok 12 (unat HEAP_BASE + 3648 + 4112)" "unat HEAP_BASE + 3648 + 45072 \<le> HEAP_END"
    by (simp_all add: pad_ok_def HEAP_BASE_def HEAP_END_def)
  have freq: "(1000 :: u32) \<noteq> 0" by simp
  obtain c ds where c: "do { s \<leftarrow> pmem_init b; s \<leftarrow> vmem_init (kimg e) s; r \<leftarrow> pit_init (kimg e) 1000 s; Some (snd r) } = Some c"
    "heap_ok c ds" "bit (cr0 c) 31" "\<forall>a < 0x1000000. translate (mem c) (cr3 c) a = Some a" "frames c = {..<4096}" "owns ds (handlers b) 1024"
    "\<forall>n < 256. handler_at c (of_nat n) =
      (if n = 14 then kimg e Page_fault else if n = 32 then kimg e Pit_irq else handler_at b (of_nat n))"
    "\<forall>x. outside x \<longrightarrow> mem c x = mem b x"
    "\<forall>q k. owns cs q k \<longrightarrow> q \<noteq> handlers b \<longrightarrow> owns ds q k \<and> (\<forall>x \<in> region q k. mem c x = mem b x)"
    "\<exists>l m p t q tr. c = b\<lparr>log := l, mem := m, frame_set := p, tables := t, cr3 := t, cr0 := q, io := io b @ tr\<rparr>
      \<and> only {PIT_CMD, PIT_DATA0} tr"
    using paging_run [OF b(3) pk' pad mb(5) freq, of "kimg e"] by blast
  have run: "boot e s = Some c" using a(1) b(1) c(1) by (simp add: boot_def)
  obtain tc where mc: "handlers c = handlers a" "entries c = entries a" "idt_reg c = idt_reg a" "current_tty c = current_tty b"
    "io c = io b @ tc" "only {PIT_CMD, PIT_DATA0} tc" using c(10) mb by auto
  have P: "owns cs ptr 524" "ptr \<noteq> handlers b" "heap_ok b cs" "owns cs (entries a) 2048"
    using b(3,4) A grows_owns [OF b(4) A(1)] mb by (auto simp: grows_def int_ok_def)
  have gates: "gate_at (mem c) (entries c) n = (if n < 48 then kernel_gate (stub (kimg e) n) else no_gate)" if n: "n < 256" for n
  proof -
    have "mem c x = mem a x" if "x \<in> region (entries a) 2048" for x
      using that c(9) P(4) b(8) A(2,3) mb(1,2) by auto
    then have "gate_at (mem c) (entries a) n = gate_at (mem a) (entries a) n"
      using gate_in_table [OF n, of "entries a"] by (intro gate_cong) auto
    then show ?thesis using a(5) n by (simp add: mc(2))
  qed
  have hd: "\<forall>n < 256. handler_at c (of_nat n) = (case map_of boot_handlers n of Some f \<Rightarrow> kimg e f | None \<Rightarrow> 0)"
    using c(7) b(9) a(6) by (simp add: boot_handlers_def)
  then have "handler_at c 33 = kimg e Kbd_irq" using hd [rule_format, of 33] by (simp add: boot_handlers_def)
  from console_kept [OF b(5,6) b(7)[folded mb(1)] img P(1,2) c(8,9) mc(4-6) mc(1)[folded mb(2)] c(2,6) this]
  have "kernel_ready e r ptr ds c" using c(2-5) a(4) mc(2,3) gates hd unfolding kernel_ready_def by simp
  then show ?thesis using run by blast
qed

text \<open>A machine before boot, with a CRT controller and its image at low addresses.\<close>

definition boot_env :: env where
  "boot_env = \<lparr>board = crtc_hw (cursor_regs 0 0), kimg = (\<lambda>_. 0x3000)(Devs := 0x2000, Scancode_set := 0x1000, Shift_set := 0x1100, Ramdisk_open := 0x3100),
     frame_ptr = 0, cpu_flags = (False, False), local_test = 0x30000, local_delim = 0x30010, fault_regs = vector_regs 14\<rparr>"

definition boot_mem :: mem where
  "boot_mem = wr (wr (wr (\<lambda>_. 0) 0x2000 (devs_bytes (kimg boot_env))) 0x1000 scancode_set) 0x1100 shift_set"

definition boot_kernel :: kernel where
  "boot_kernel = (kernel_of boot_mem 0)\<lparr>tty_initialised := 0\<rparr>"

lemma boot_image_at: "boot_image boot_env boot_mem" and boot_mem_zero: "unat HEAP_BASE \<le> unat x \<Longrightarrow> boot_mem x = 0"
proof -
  let ?i = "kimg boot_env"
  have len: "length (devs_bytes ?i) = 88" "length scancode_set = 59" "length shift_set = 59"
    by (simp_all add: length_devs_bytes table_codes)
  have im: "?i Devs = 0x2000" "?i Scancode_set = 0x1000" "?i Shift_set = 0x1100" "?i Ttydev_open = 0x3000" "?i Ramdisk_open = 0x3100"
    "?i Ttydev_write = 0x3000" "?i Kbd_irq = 0x3000" by (simp_all add: boot_env_def)
  have ap: "region (0x2000 :: addr) 88 \<inter> region 0x1000 59 = {}" "region (0x2000 :: addr) 88 \<inter> region 0x1100 59 = {}"
    "region (0x1000 :: addr) 59 \<inter> region 0x1100 59 = {}" by (intro sep_region; simp add: sep_def)+
  have vg: "region a n \<inter> region VGA_BASE 4000 = {}" "outside_heap a n" if "(a, n) \<in> {(0x2000 :: addr, 88), (0x1000, 59), (0x1100, 59)}" for a n
    using that by (auto simp: region_unat VGA_BASE_def outside_heap_def outside_def HEAP_BASE_def)
  let ?a = "wr (\<lambda>_. 0) 0x2000 (devs_bytes ?i)" and ?b = "wr (wr (\<lambda>_. 0) 0x2000 (devs_bytes ?i)) 0x1000 scancode_set"
  have fr: "boot_mem x = ?b x" if "x \<notin> region 0x1100 59" for x
    using wr_frame [of x "0x1100" shift_set ?b] that by (simp add: boot_mem_def len)
  have fr': "?b x = ?a x" if "x \<notin> region 0x1000 59" for x using wr_frame [of x "0x1000" scancode_set ?a] that by (simp add: len)
  have fr'': "?a x = 0" if "x \<notin> region 0x2000 88" for x using wr_frame [of x "0x2000" "devs_bytes ?i" "\<lambda>_. 0"] that by (simp add: len)
  show "boot_mem x = 0" if "unat HEAP_BASE \<le> unat x"
  proof -
    have "x \<notin> region a n" if "(a, n) \<in> {(0x2000 :: addr, 88), (0x1000, 59), (0x1100, 59)}" for a n
      using that \<open>unat HEAP_BASE \<le> unat x\<close> by (auto simp: region_unat HEAP_BASE_def)
    then show ?thesis using fr [of x] fr' [of x] fr'' [of x] by simp
  qed
  have "rd boot_mem 0x1100 59 = shift_set" using rd_wr [of shift_set ?b "0x1100"] len by (simp add: boot_mem_def del: rd_numeral)
  moreover have "rd boot_mem 0x1000 59 = rd ?b 0x1000 59" using ap(3) by (intro rd_cong fr) auto
  then have "rd boot_mem 0x1000 59 = scancode_set" using rd_wr [of scancode_set ?a "0x1000"] len by (simp del: rd_numeral)
  moreover have "rd boot_mem 0x2000 88 = rd ?a 0x2000 88"
  proof (rule rd_cong)
    fix x :: addr assume "x \<in> region 0x2000 88"
    then have "x \<notin> region 0x1100 59" "x \<notin> region 0x1000 59" using ap(1,2) by blast+
    then show "boot_mem x = ?a x" by (rule trans [OF fr fr'])
  qed simp
  then have "rd boot_mem 0x2000 88 = devs_bytes ?i" using rd_wr [of "devs_bytes ?i" "\<lambda>_. 0" "0x2000"] len by (simp del: rd_numeral)
  ultimately show "boot_image boot_env boot_mem"
    using vg ap by (auto simp: boot_image_def devs_loaded_def im simp del: rd_numeral)
qed

theorem boot_ok_witness:
  "\<exists>s' ptr bs. boot boot_env boot_kernel = Some s' \<and> kernel_ready boot_env (cursor_regs 0 0) ptr bs s'"
proof -
  have k: "mem boot_kernel = boot_mem" "io boot_kernel = []" "root boot_kernel = HEAP_BASE" "entries boot_kernel = 0" "handlers boot_kernel = 0"
    "tables boot_kernel = 0" "tty_initialised boot_kernel = 0" by (simp_all add: boot_kernel_def kernel_of_def)
  have "heap_ok boot_kernel [(False, 0)]" using boot_mem_zero by (intro heap_ok_init) (simp_all add: k)
  moreover have "is_crtc (board boot_env) (cursor_regs 0 0)" using crtc_hw_ok by (simp add: boot_env_def)
  moreover have "unat (cursor_at (cursor_regs 0 0) (io boot_kernel)) < 2000" by (simp add: k cursor_at_def cursor_regs_def)
  ultimately show ?thesis using boot_ok [of boot_kernel boot_env "cursor_regs 0 0"] boot_image_at k by simp
qed

end
