(* ===== verification/Mount.thy ===== *)
theory Mount
  imports Fs
begin

text \<open>
  Mounting the RAM disk: from the headers of a disk ramfs_init builds the directory tree on which
  the path lookup works.
\<close>

section \<open>Disks and inodes\<close>

text \<open>A file header of the disk: name, offset and size.\<close>

type_synonym file_header = "byte list \<times> u32 \<times> u32"

definition disk_file :: "mem \<Rightarrow> addr \<Rightarrow> file_header \<Rightarrow> bool" where
  "disk_file m p = (\<lambda>(w, off, sz). ld32 m (rf_magic p) = RD_FILESIG \<and> cstr m (rf_name p) w \<and> length w \<le> 31
     \<and> ld32 m (rf_offset p) = off \<and> ld32 m (rf_size p) = sz)"

definition disk_at :: "mem \<Rightarrow> addr \<Rightarrow> file_header list \<Rightarrow> bool" where
  "disk_at m a fl \<longleftrightarrow> length fl < 2 ^ 16 \<and> ld16 m (rh_signature a) = RD_HEADSIG \<and> ld16 m (rh_nfiles a) = of_nat (length fl)
     \<and> (\<forall>i < length fl. disk_file m (a + sizeof_rd_header + sizeof_rd_fileheader * of_nat i) (fl ! i))"

text \<open>The inode of the file with number \<open>i\<close>, and that of a device.\<close>

definition file_inode :: "image \<Rightarrow> mem \<Rightarrow> addr \<Rightarrow> nat \<Rightarrow> file_header \<Rightarrow> bool" where
  "file_inode img m e i = (\<lambda>(w, off, sz). cstr m (i_name e) w \<and> length w \<le> 31 \<and> m (i_flags e) = FS_FILE \<and> ld32 m (i_ino e) = of_nat i
     \<and> ld32 m (i_impl e) = off \<and> ld32 m (i_size e) = sz \<and> ld32 m (i_read e) = img Ramfs_read)"

definition dev_inode :: "image \<Rightarrow> mem \<Rightarrow> addr \<Rightarrow> nat \<Rightarrow> byte list \<Rightarrow> bool" where
  "dev_inode img m e i w \<longleftrightarrow> cstr m (i_name e) w \<and> length w \<le> 31 \<and> m (i_flags e) = FS_CHAR \<and> ld32 m (i_impl e) = of_nat i
     \<and> ld32 m (i_read e) = img Devfs_read \<and> ld32 m (i_write e) = img Devfs_write"

section \<open>Fields\<close>

lemmas inode_defs = i_name_def i_flags_def i_size_def i_ino_def i_impl_def i_open_def i_close_def i_write_def i_read_def
  i_readdir_def i_finddir_def i_ptr_def

text \<open>A string in the name field.\<close>

lemma name_string:
  assumes "cstr m e w" "length w \<le> 31" "\<And>x. x \<in> region e 32 \<Longrightarrow> m' x = m x"
  shows "cstr m' e w"
proof (rule cstr_cong [OF assms(1)])
  fix x assume "x \<in> region e (Suc (length w))"
  then have "x \<in> region e 32" using assms(2) by (simp add: region_def)
  then show "m' x = m x" by (rule assms(3))
qed

lemma name_apart:
  "sep e 32 (i_size e) 4" "sep e 32 (i_ino e) 4" "sep e 32 (i_impl e) 4" "sep e 32 (i_write e) 4" "sep e 32 (i_read e) 4"
  "sep e 32 (i_readdir e) 4" "sep e 32 (i_finddir e) 4" "sep e 32 (i_ptr e) 4" "i_flags e \<notin> region e 32"
  by (simp_all add: sep_def inode_defs region_def)

lemma flags_apart:
  "i_flags e \<notin> region (i_size e) 4" "i_flags e \<notin> region (i_ino e) 4" "i_flags e \<notin> region (i_impl e) 4" "i_flags e \<notin> region (i_write e) 4"
  "i_flags e \<notin> region (i_read e) 4" "i_flags e \<notin> region (i_readdir e) 4" "i_flags e \<notin> region (i_finddir e) 4" "i_flags e \<notin> region (i_ptr e) 4"
  by (simp_all add: region_def inode_defs)

lemma words_apart:
  "sep (i_ino e) 4 (i_size e) 4" "sep (i_impl e) 4 (i_size e) 4" "sep (i_read e) 4 (i_size e) 4" "sep (i_impl e) 4 (i_ino e) 4"
  "sep (i_read e) 4 (i_ino e) 4" "sep (i_read e) 4 (i_impl e) 4" "sep (i_write e) 4 (i_impl e) 4" "sep (i_write e) 4 (i_read e) 4"
  by (simp_all add: sep_def inode_defs)

lemma in_inode:
  "region e 32 \<subseteq> region e 76" "i_flags e \<in> region e 76" "region (i_size e) 4 \<subseteq> region e 76" "region (i_ino e) 4 \<subseteq> region e 76"
  "region (i_impl e) 4 \<subseteq> region e 76" "region (i_write e) 4 \<subseteq> region e 76" "region (i_read e) 4 \<subseteq> region e 76"
  "region (i_readdir e) 4 \<subseteq> region e 76" "region (i_finddir e) 4 \<subseteq> region e 76" "region (i_ptr e) 4 \<subseteq> region e 76"
  using region_sub [of 0 32 76 e] region_offset [of 32 e 76] region_sub [of 36 4 76 e] region_sub [of 40 4 76 e] region_sub [of 44 4 76 e]
    region_sub [of 56 4 76 e] region_sub [of 60 4 76 e] region_sub [of 64 4 76 e] region_sub [of 68 4 76 e] region_sub [of 72 4 76 e]
  by (simp_all add: inode_defs)

lemma not_in_inode:
  assumes "x \<notin> region e 76"
  shows "x \<notin> region e 32" "x \<noteq> i_flags e" "x \<notin> region (i_size e) 4" "x \<notin> region (i_ino e) 4" "x \<notin> region (i_impl e) 4"
    "x \<notin> region (i_write e) 4" "x \<notin> region (i_read e) 4" "x \<notin> region (i_readdir e) 4" "x \<notin> region (i_finddir e) 4" "x \<notin> region (i_ptr e) 4"
  using assms in_inode [of e] by blast+

lemma file_inode_cong: "file_inode img m e i f \<Longrightarrow> (\<And>x. x \<in> region e 76 \<Longrightarrow> m' x = m x) \<Longrightarrow> file_inode img m' e i f"
proof -
  assume f: "file_inode img m e i f" and fr: "\<And>x. x \<in> region e 76 \<Longrightarrow> m' x = m x"
  have w: "ld32 m' q = ld32 m q" if "region q 4 \<subseteq> region e 76" for q using that fr by (intro ld32_cong) auto
  have n: "cstr m' e w" if "cstr m e w" "length w \<le> 31" for w using name_string [OF that] fr in_inode(1) by blast
  show ?thesis using f n w in_inode [of e] fr by (auto simp: file_inode_def i_name_def)
qed

lemma dev_inode_cong: "dev_inode img m e i w \<Longrightarrow> (\<And>x. x \<in> region e 76 \<Longrightarrow> m' x = m x) \<Longrightarrow> dev_inode img m' e i w"
proof -
  assume f: "dev_inode img m e i w" and fr: "\<And>x. x \<in> region e 76 \<Longrightarrow> m' x = m x"
  have v: "ld32 m' q = ld32 m q" if "region q 4 \<subseteq> region e 76" for q using that fr by (intro ld32_cong) auto
  have n: "cstr m' e w" if "cstr m e w" "length w \<le> 31" using name_string [OF that] fr in_inode(1) by blast
  show ?thesis using f n v in_inode [of e] fr by (auto simp: dev_inode_def i_name_def)
qed

text \<open>Copying a string into the name field of an inode that it does not overlap.\<close>

lemma copy_name:
  assumes "cstr m src w" "length w \<le> 31" "region src (Suc (length w)) \<inter> region e 76 = {}"
  shows "strcpy m e src = Some (wr m e (w @ [0]))" "cstr (wr m e (w @ [0])) e w" "x \<notin> region e 32 \<Longrightarrow> wr m e (w @ [0]) x = m x"
proof -
  have "e \<notin> region src (Suc (length w))" using assms(3) region_base [of e 76] by auto
  then have "length w < unat (e - src)" by (simp add: region_def)
  then show "strcpy m e src = Some (wr m e (w @ [0]))" by (intro strcpy_cstr [OF assms(1)]) simp
  show "cstr (wr m e (w @ [0])) e w" using assms(1,2) by (intro cstr_wr) (auto simp: cstr_iff)
  show "x \<notin> region e 32 \<Longrightarrow> wr m e (w @ [0]) x = m x"
    using region_mono [of "Suc (length w)" 32 e] assms(2) by (intro wr_frame) auto
qed

section \<open>The loop over the files\<close>

lemma disk_file_cong:
  assumes "disk_file m p f" "\<And>x. x \<in> region p 44 \<Longrightarrow> m' x = m x"
  shows "disk_file m' p f"
proof -
  obtain w off sz where f: "f = (w, off, sz)" by (cases f) auto
  have v: "ld32 m' q = ld32 m q" if "region q 4 \<subseteq> region p 44" for q using that assms(2) by (intro ld32_cong) auto
  have r: "region (rf_magic p) 4 \<subseteq> region p 44" "region (rf_offset p) 4 \<subseteq> region p 44" "region (rf_size p) 4 \<subseteq> region p 44"
    "region (rf_name p) 32 \<subseteq> region p 44"
    using region_sub [of 0 4 44 p] region_sub [of 36 4 44 p] region_sub [of 40 4 44 p] region_sub [of 4 32 44 p]
    by (simp_all add: rf_magic_def rf_offset_def rf_size_def rf_name_def)
  have "cstr m' (rf_name p) w" if "cstr m (rf_name p) w" "length w \<le> 31"
    using r(4) assms(2) by (intro name_string [OF that]) auto
  then show ?thesis using assms(1) v r by (simp add: disk_file_def f)
qed

lemma file_step:
  assumes f: "disk_file m p f" and ap: "region p 44 \<inter> region e 76 = {}"
  shows "\<exists>m1 m'. strcpy m (i_name e) (rf_name p) = Some m1
    \<and> m' = st32 (st32 (st32 (st32 (m1(i_flags e := FS_FILE)) (i_ino e) (of_nat i))
         (i_impl e) (ld32 (st32 (m1(i_flags e := FS_FILE)) (i_ino e) (of_nat i)) (rf_offset p)))
         (i_size e) (ld32 (st32 (st32 (m1(i_flags e := FS_FILE)) (i_ino e) (of_nat i))
           (i_impl e) (ld32 (st32 (m1(i_flags e := FS_FILE)) (i_ino e) (of_nat i)) (rf_offset p))) (rf_size p)))
         (i_read e) (img Ramfs_read)
    \<and> file_inode img m' e i f \<and> (\<forall>x. x \<notin> region e 76 \<longrightarrow> m' x = m x)"
proof -
  obtain w off sz where fe: "f = (w, off, sz)" by (cases f) auto
  have d: "cstr m (rf_name p) w" "length w \<le> 31" "ld32 m (rf_offset p) = off" "ld32 m (rf_size p) = sz"
    using f by (simp_all add: disk_file_def fe)
  have r: "region (rf_offset p) 4 \<subseteq> region p 44" "region (rf_size p) 4 \<subseteq> region p 44" "region (rf_name p) 32 \<subseteq> region p 44"
    using region_sub [of 36 4 44 p] region_sub [of 40 4 44 p] region_sub [of 4 32 44 p]
    by (simp_all add: rf_offset_def rf_size_def rf_name_def)
  have "region (rf_name p) (Suc (length w)) \<subseteq> region (rf_name p) 32" using d(2) by (intro region_mono) simp
  then have nm: "region (rf_name p) (Suc (length w)) \<inter> region e 76 = {}" using r(3) ap by blast
  note c = copy_name [OF d(1,2) nm]
  define m1 where "m1 = wr m e (w @ [0])"
  define m2 where "m2 = st32 (m1(i_flags e := FS_FILE)) (i_ino e) (of_nat i)"
  define m3 where "m3 = st32 m2 (i_impl e) (ld32 m2 (rf_offset p))"
  define m4 where "m4 = st32 m3 (i_size e) (ld32 m3 (rf_size p))"
  define m5 where "m5 = st32 m4 (i_read e) (img Ramfs_read)"
  note D = m1_def m2_def m3_def m4_def m5_def
  have fr: "m2 x = m x" "m3 x = m x" "m4 x = m x" "m5 x = m x" if "x \<notin> region e 76" for x
    using not_in_inode [OF that] c(3) [of x] by (simp_all add: D st32_frame)
  have old: "ld32 m2 (rf_offset p) = off" "ld32 m3 (rf_size p) = sz"
  proof -
    have "x \<notin> region e 76" if "x \<in> region (rf_offset p) 4 \<or> x \<in> region (rf_size p) 4" for x using that r(1,2) ap by blast
    then have "ld32 m2 (rf_offset p) = ld32 m (rf_offset p)" "ld32 m3 (rf_size p) = ld32 m (rf_size p)"
      using fr(1,2) by (auto intro!: ld32_cong)
    then show "ld32 m2 (rf_offset p) = off" "ld32 m3 (rf_size p) = sz" using d(3,4) by simp_all
  qed
  have "m5 x = m1 x" if "x \<in> region e 32" for x
  proof -
    have q: "x \<notin> region q 4" if "sep e 32 q 4" for q using \<open>x \<in> region e 32\<close> sep_region [OF that] by blast
    have "x \<noteq> i_flags e" using name_apart(9) [of e] that by blast
    then show ?thesis using q [OF name_apart(1)] q [OF name_apart(2)] q [OF name_apart(3)] q [OF name_apart(5)] by (simp add: D st32_frame)
  qed
  then have "cstr m5 e w" by (rule name_string [OF c(2)[folded m1_def] d(2)])
  moreover have "m5 (i_flags e) = FS_FILE" using flags_apart [of e] by (simp add: D st32_frame)
  moreover have "ld32 m5 (i_ino e) = of_nat i" "ld32 m5 (i_impl e) = off" "ld32 m5 (i_size e) = sz" "ld32 m5 (i_read e) = img Ramfs_read"
    using words_apart [of e] old by (simp_all add: m5_def m4_def m3_def m2_def ld32_st32_other sep_sym)
  ultimately have "file_inode img m5 e i f" using d(2) by (simp add: file_inode_def fe i_name_def)
  then show ?thesis using c(1) fr(4) by (intro exI [of _ m1] exI [of _ m5]) (simp add: D i_name_def)
qed

text \<open>The inodes of an array and the headers of the disk.\<close>

lemma inode_slots:
  assumes "i < n" "76 * n < 2 ^ 32"
  shows "region (p + sizeof_inode * of_nat i) 76 \<subseteq> region p (76 * n)"
    and "j < n \<Longrightarrow> i \<noteq> j \<Longrightarrow> region (p + sizeof_inode * of_nat i) 76 \<inter> region (p + sizeof_inode * of_nat j) 76 = {}"
proof -
  have e: "sizeof_inode * of_nat i = of_nat (i * 76)" for i by (simp add: sizeof_inode_def)
  show "region (p + sizeof_inode * of_nat i) 76 \<subseteq> region p (76 * n)" unfolding e using assms by (intro region_sub) auto
  show "j < n \<Longrightarrow> i \<noteq> j \<Longrightarrow> region (p + sizeof_inode * of_nat i) 76 \<inter> region (p + sizeof_inode * of_nat j) 76 = {}"
    unfolding e using assms by (intro sep_region array_slots) auto
qed

lemma header_slot: "i < n \<Longrightarrow> 44 * n < 2 ^ 32 \<Longrightarrow> region (p + sizeof_rd_fileheader * of_nat i) 44 \<subseteq> region p (44 * n)"
proof -
  have e: "sizeof_rd_fileheader * of_nat i = of_nat (i * 44)" by (simp add: sizeof_rd_fileheader_def)
  show "i < n \<Longrightarrow> 44 * n < 2 ^ 32 \<Longrightarrow> ?thesis" unfolding e by (intro region_sub) auto
qed

lemma ramfs_entries_run:
  fixes s :: "'a fs_scheme"
  assumes "k \<le> n" and n: "76 * n < 2 ^ 32" and "\<forall>i < n. disk_file (mem s) (files + sizeof_rd_fileheader * of_nat i) (fl ! i)"
    and ap: "region files (44 * n) \<inter> region (rd_files s) (76 * n) = {}"
  shows "\<exists>m l. ramfs_entries img files [k..<n] s = Some (s\<lparr>log := l, mem := m\<rparr>)
    \<and> (\<forall>i. k \<le> i \<longrightarrow> i < n \<longrightarrow> file_inode img m (rd_files s + sizeof_inode * of_nat i) i (fl ! i))
    \<and> (\<forall>x. (\<forall>i. k \<le> i \<longrightarrow> i < n \<longrightarrow> x \<notin> region (rd_files s + sizeof_inode * of_nat i) 76) \<longrightarrow> m x = mem s x)"
  using assms(1,3,4)
proof (induction "n - k" arbitrary: s k rule: less_induct)
  case less
  show ?case
  proof (cases "k = n")
    case False
    then have k: "k < n" using less.prems(1) by simp
    let ?p = "\<lambda>i. files + sizeof_rd_fileheader * of_nat i" and ?e = "\<lambda>i. rd_files s + sizeof_inode * of_nat i"
    have ap: "region (?p i) 44 \<inter> region (?e j) 76 = {}" if "i < n" "j < n" for i j
      using header_slot [OF that(1), of files] inode_slots(1) [OF that(2) n, of "rd_files s"] less.prems(3) n by auto
    have d: "disk_file (mem s) (?p k) (fl ! k)" using less.prems(2) k by simp
    obtain m1 m' where st: "strcpy (mem s) (i_name (?e k)) (rf_name (?p k)) = Some m1"
      "m' = st32 (st32 (st32 (st32 (m1(i_flags (?e k) := FS_FILE)) (i_ino (?e k)) (of_nat k))
         (i_impl (?e k)) (ld32 (st32 (m1(i_flags (?e k) := FS_FILE)) (i_ino (?e k)) (of_nat k)) (rf_offset (?p k))))
         (i_size (?e k)) (ld32 (st32 (st32 (m1(i_flags (?e k) := FS_FILE)) (i_ino (?e k)) (of_nat k))
           (i_impl (?e k)) (ld32 (st32 (m1(i_flags (?e k) := FS_FILE)) (i_ino (?e k)) (of_nat k)) (rf_offset (?p k)))) (rf_size (?p k))))
         (i_read (?e k)) (img Ramfs_read)"
      "file_inode img m' (?e k) k (fl ! k)" "\<And>x. x \<notin> region (?e k) 76 \<Longrightarrow> m' x = mem s x"
      using file_step [OF d ap [OF k k], of k img] by blast
    define L where "L = log s @ [Serial_printf (''[ramfs] creating inode for `%s'' @ CHR 0x27 # nl) [ArgW (rf_name (?p k))]]"
    let ?s = "s\<lparr>log := L, mem := m'\<rparr>"
    have magic: "ld32 (mem s) (rf_magic (?p k)) = RD_FILESIG" using d by (simp add: disk_file_def split: prod.splits)
    have step: "ramfs_entries img files [k..<n] s = ramfs_entries img files [Suc k..<n] ?s"
      unfolding upt_conv_Cons [OF k] ramfs_entries.simps Let_def assert_def st(2)
      using st(1) magic by (simp add: say_def L_def)
    have "disk_file m' (?p i) (fl ! i)" if i: "i < n" for i
    proof (rule disk_file_cong)
      show "disk_file (mem s) (?p i) (fl ! i)" using less.prems(2) i by simp
      show "m' x = mem s x" if "x \<in> region (?p i) 44" for x using that ap [OF i k] by (intro st(4)) blast
    qed
    then have "\<forall>i < n. disk_file (mem ?s) (?p i) (fl ! i)" by simp
    moreover have "n - Suc k < n - k" "Suc k \<le> n" "region files (44 * n) \<inter> region (rd_files ?s) (76 * n) = {}"
      using k less.prems(3) by simp_all
    ultimately have "\<exists>m l. ramfs_entries img files [Suc k..<n] ?s = Some (?s\<lparr>log := l, mem := m\<rparr>)
      \<and> (\<forall>i. Suc k \<le> i \<longrightarrow> i < n \<longrightarrow> file_inode img m (rd_files ?s + sizeof_inode * of_nat i) i (fl ! i))
      \<and> (\<forall>x. (\<forall>i. Suc k \<le> i \<longrightarrow> i < n \<longrightarrow> x \<notin> region (rd_files ?s + sizeof_inode * of_nat i) 76) \<longrightarrow> m x = mem ?s x)"
      by (intro less.hyps)
    then obtain m l where IH: "ramfs_entries img files [Suc k..<n] ?s = Some (?s\<lparr>log := l, mem := m\<rparr>)"
      "\<forall>i. Suc k \<le> i \<longrightarrow> i < n \<longrightarrow> file_inode img m (?e i) i (fl ! i)"
      "\<forall>x. (\<forall>i. Suc k \<le> i \<longrightarrow> i < n \<longrightarrow> x \<notin> region (?e i) 76) \<longrightarrow> m x = m' x"
      by auto
    have "file_inode img m (?e k) k (fl ! k)"
    proof (rule file_inode_cong [OF st(3)])
      fix x assume x: "x \<in> region (?e k) 76"
      have "x \<notin> region (?e i) 76" if "Suc k \<le> i" "i < n" for i using inode_slots(2) [OF k n that(2), of "rd_files s"] that(1) x by auto
      then show "m x = m' x" using IH(3) by simp
    qed
    then have "file_inode img m (?e i) i (fl ! i)" if "k \<le> i" "i < n" for i using IH(2) that by (cases "i = k") auto
    moreover have "m x = mem s x" if "\<forall>i. k \<le> i \<longrightarrow> i < n \<longrightarrow> x \<notin> region (?e i) 76" for x
      using IH(3) st(4) [of x] that k by simp
    ultimately show ?thesis using step IH(1) by (intro exI [of _ m] exI [of _ l]) simp
  qed (intro exI [of _ "mem s"] exI [of _ "log s"], simp)
qed

section \<open>The directory of devices\<close>

definition dev_names :: "image \<Rightarrow> mem \<Rightarrow> bool" where
  "dev_names img m \<longleftrightarrow> cstr m (dev_name (dev_ptr img 0)) (bytes ''tty'') \<and> cstr m (dev_name (dev_ptr img 1)) (bytes ''ramdisk'')"

lemma name_kept:
  assumes "x \<in> region e 32"
  shows "x \<noteq> i_flags e" "x \<notin> region (i_size e) 4" "x \<notin> region (i_ino e) 4" "x \<notin> region (i_impl e) 4" "x \<notin> region (i_write e) 4"
    "x \<notin> region (i_read e) 4" "x \<notin> region (i_readdir e) 4" "x \<notin> region (i_finddir e) 4" "x \<notin> region (i_ptr e) 4"
proof -
  have q: "x \<notin> region q 4" if "sep e 32 q 4" for q using assms sep_region [OF that] by blast
  show "x \<noteq> i_flags e" using name_apart(9) [of e] assms by blast
  show "x \<notin> region (i_size e) 4" "x \<notin> region (i_ino e) 4" "x \<notin> region (i_impl e) 4" "x \<notin> region (i_write e) 4"
    "x \<notin> region (i_read e) 4" "x \<notin> region (i_readdir e) 4" "x \<notin> region (i_finddir e) 4" "x \<notin> region (i_ptr e) 4"
    by (rule q, rule name_apart)+
qed

lemma dev_step:
  assumes nm: "cstr m src w" "length w \<le> 31" "region src (Suc (length w)) \<inter> region e 76 = {}"
  shows "\<exists>m1 m'. strcpy m (i_name e) src = Some m1
    \<and> m' = st32 (st32 (st32 (m1(i_flags e := FS_CHAR)) (i_impl e) (of_nat i)) (i_read e) (img Devfs_read)) (i_write e) (img Devfs_write)
    \<and> dev_inode img m' e i w \<and> (\<forall>x. x \<notin> region e 76 \<longrightarrow> m' x = m x)"
proof -
  note c = copy_name [OF nm]
  define m1 where "m1 = wr m e (w @ [0])"
  define m' where "m' = st32 (st32 (st32 (m1(i_flags e := FS_CHAR)) (i_impl e) (of_nat i)) (i_read e) (img Devfs_read)) (i_write e) (img Devfs_write)"
  have fr: "m' x = m x" if "x \<notin> region e 76" for x using not_in_inode [OF that] c(3) [of x] by (simp add: m1_def m'_def st32_frame)
  have "m' x = m1 x" if "x \<in> region e 32" for x using name_kept [OF that] by (simp add: m'_def st32_frame)
  then have "cstr m' e w" by (rule name_string [OF c(2)[folded m1_def] nm(2)])
  moreover have "m' (i_flags e) = FS_CHAR" using flags_apart [of e] by (simp add: m'_def st32_frame)
  moreover have "ld32 m' (i_impl e) = of_nat i" "ld32 m' (i_read e) = img Devfs_read" "ld32 m' (i_write e) = img Devfs_write"
    using words_apart [of e] by (simp_all add: m'_def ld32_st32_other sep_sym)
  ultimately have "dev_inode img m' e i w" using nm(2) by (simp add: dev_inode_def i_name_def)
  then show ?thesis using c(1) fr by (intro exI [of _ m1] exI [of _ m']) (simp add: m1_def m'_def i_name_def)
qed

lemma devfs_entries_run:
  assumes nm: "dev_names img m" and ap: "region (img Devs) 88 \<inter> region p 152 = {}"
  shows "\<exists>m'. devfs_entries img p [0..<unat ndevs] m = Some m' \<and> dev_inode img m' p 0 (bytes ''tty'')
    \<and> dev_inode img m' (p + sizeof_inode) 1 (bytes ''ramdisk'') \<and> (\<forall>x. x \<notin> region p 152 \<longrightarrow> m' x = m x)"
proof -
  let ?a = "dev_name (dev_ptr img 0)" and ?b = "dev_name (dev_ptr img 1)" and ?q = "p + sizeof_inode"
  have nm': "cstr m ?a (bytes ''tty'')" "cstr m ?b (bytes ''ramdisk'')" using nm by (simp_all add: dev_names_def)
  have src: "region ?a 4 \<subseteq> region (img Devs) 88" "region ?b 8 \<subseteq> region (img Devs) 88"
    using region_sub [of 0 4 88 "img Devs"] region_sub [of 44 8 88 "img Devs"] by (simp_all add: dev_name_def dev_ptr_def sizeof_device_def)
  have sub: "region p 76 \<subseteq> region p 152" "region ?q 76 \<subseteq> region p 152" "region p 76 \<inter> region ?q 76 = {}"
    using region_mono [of 76 152 p] region_sub [of 76 76 152 p] sep_region [OF sep_adjacent [of 76 76 p]] by (simp_all add: sizeof_inode_def)
  have len: "Suc (length (bytes ''tty'')) = 4" "Suc (length (bytes ''ramdisk'')) = 8" "length (bytes ''tty'') \<le> 31" "length (bytes ''ramdisk'') \<le> 31"
    by simp_all
  have A: "region ?a (Suc (length (bytes ''tty''))) \<inter> region p 76 = {}" "region ?b (Suc (length (bytes ''ramdisk''))) \<inter> region ?q 76 = {}"
    unfolding len using src sub(1,2) ap by blast+
  obtain m1 m2 where f: "strcpy m (i_name p) ?a = Some m1"
    "m2 = st32 (st32 (st32 (m1(i_flags p := FS_CHAR)) (i_impl p) (of_nat 0)) (i_read p) (img Devfs_read)) (i_write p) (img Devfs_write)"
    "dev_inode img m2 p 0 (bytes ''tty'')" "\<And>x. x \<notin> region p 76 \<Longrightarrow> m2 x = m x"
    using dev_step [OF nm'(1) len(3) A(1), of 0 img] by blast
  have "cstr m2 ?b (bytes ''ramdisk'')"
  proof (rule cstr_cong [OF nm'(2)])
    fix x assume "x \<in> region ?b (Suc (length (bytes ''ramdisk'')))"
    then have "x \<in> region ?b 8" unfolding len .
    then have "x \<notin> region p 76" using src(2) sub(1) ap by blast
    then show "m2 x = m x" by (rule f(4))
  qed
  then obtain m3 m4 where g: "strcpy m2 (i_name ?q) ?b = Some m3"
    "m4 = st32 (st32 (st32 (m3(i_flags ?q := FS_CHAR)) (i_impl ?q) (of_nat 1)) (i_read ?q) (img Devfs_read)) (i_write ?q) (img Devfs_write)"
    "dev_inode img m4 ?q 1 (bytes ''ramdisk'')" "\<And>x. x \<notin> region ?q 76 \<Longrightarrow> m4 x = m2 x"
    using dev_step [OF _ len(4) A(2), of m2 1 img] by blast
  have "[0..<unat ndevs] = [0, 1]" by (simp add: ndevs_def upt_rec)
  then have "devfs_entries img p [0..<unat ndevs] m = Some m4" using f(1,2) g(1,2) by (simp add: Let_def)
  moreover have "dev_inode img m4 p 0 (bytes ''tty'')" using sub(3) by (intro dev_inode_cong [OF f(3)] g(4)) blast
  moreover have "m4 x = m x" if "x \<notin> region p 152" for x
  proof -
    have "x \<notin> region p 76" "x \<notin> region ?q 76" using that sub(1,2) by blast+
    then show ?thesis using f(4) g(4) by simp
  qed
  ultimately show ?thesis using g(3) by blast
qed

lemma ptr_apart: "sep (i_impl e) 4 (i_ptr e) 4" "sep (i_finddir e) 4 (i_ptr e) 4" "sep (i_finddir e) 4 (i_impl e) 4" "sep (i_readdir e) 4 (i_ptr e) 4"
  "sep (i_finddir e) 4 e 32" "sep (i_finddir e) 4 (i_ino e) 4" "sep (i_finddir e) 4 (i_readdir e) 4" "i_flags e \<notin> region (i_finddir e) 4"
  by (simp_all add: sep_def inode_defs region_def)

lemma put_name:
  assumes "length w \<le> 31" "0 \<notin> set (bytes w)"
  shows "cstr (put_str m e w) e (bytes w)" "x \<notin> region e 32 \<Longrightarrow> put_str m e w x = m x"
proof -
  show "cstr (put_str m e w) e (bytes w)" unfolding put_str_def using assms by (intro cstr_wr) simp_all
  assume "x \<notin> region e 32"
  then have "x \<notin> region e (length (bytes w @ [0]))" using assms(1) by (simp add: region_def)
  then show "put_str m e w x = m x" unfolding put_str_def using assms(1) by (intro wr_frame) simp_all
qed

lemma names_at:
  assumes "dev_names img m" "\<And>x. x \<in> region (img Devs) 88 \<Longrightarrow> m' x = m x"
  shows "dev_names img m'"
proof -
  have r: "region (dev_name (dev_ptr img 0)) 4 \<subseteq> region (img Devs) 88" "region (dev_name (dev_ptr img 1)) 8 \<subseteq> region (img Devs) 88"
    using region_sub [of 0 4 88 "img Devs"] region_sub [of 44 8 88 "img Devs"] by (simp_all add: dev_name_def dev_ptr_def sizeof_device_def)
  have len: "Suc (length (bytes ''tty'')) = 4" "Suc (length (bytes ''ramdisk'')) = 8" by simp_all
  have "cstr m' (dev_name (dev_ptr img 0)) (bytes ''tty'')" if "cstr m (dev_name (dev_ptr img 0)) (bytes ''tty'')"
    using r(1) assms(2) by (intro cstr_cong [OF that]) (unfold len, blast)
  moreover have "cstr m' (dev_name (dev_ptr img 1)) (bytes ''ramdisk'')" if "cstr m (dev_name (dev_ptr img 1)) (bytes ''ramdisk'')"
    using r(2) assms(2) by (intro cstr_cong [OF that]) (unfold len, blast)
  ultimately show ?thesis using assms(1) by (simp add: dev_names_def)
qed

lemma names_cong: "dev_names img m \<Longrightarrow> outside_heap (img Devs) 88 \<Longrightarrow> (\<And>x. outside x \<Longrightarrow> m' x = m x) \<Longrightarrow> dev_names img m'"
  by (rule names_at) (auto simp: outside_heap_def)

lemma devfs_init_run:
  fixes s :: "'a fs_scheme"
  assumes ok: "heap_ok s bs" and own: "owns bs f k" "region e 76 \<subseteq> region f k" "e \<noteq> 0" and fit: "fits bs 152"
    and devs: "dev_names img (mem s)" "outside_heap (img Devs) 88"
  shows "\<exists>m l cs p. devfs_init img e s = Some (0, s\<lparr>log := l, mem := m\<rparr>) \<and> heap_ok (s\<lparr>log := l, mem := m\<rparr>) cs \<and> grows bs cs p 152
    \<and> dev_inode img m p 0 (bytes ''tty'') \<and> dev_inode img m (p + sizeof_inode) 1 (bytes ''ramdisk'')
    \<and> cstr m e (bytes ''dev'') \<and> m (i_flags e) = FS_DIR \<and> ld32 m (i_impl e) = 2 \<and> ld32 m (i_ptr e) = p
    \<and> ld32 m (i_finddir e) = ld32 (mem s) (i_finddir e)
    \<and> (\<forall>x. outside x \<longrightarrow> m x = mem s x) \<and> (\<forall>q j. owns bs q j \<longrightarrow> (\<forall>x \<in> region q j. x \<notin> region e 76 \<longrightarrow> m x = mem s x))"
proof -
  define m1 where "m1 = (put_str (mem s) e ''dev'')(i_flags e := FS_DIR)"
  define m2 where "m2 = st32 m1 (i_impl e) ndevs"
  have pn: "cstr (put_str (mem s) e ''dev'') e (bytes ''dev'')" "x \<notin> region e 32 \<Longrightarrow> put_str (mem s) e ''dev'' x = mem s x" for x
    using put_name [where w = "''dev''" and m = "mem s" and e = e] by (simp_all add: bytes_def)
  have fr2: "m2 x = mem s x" if "x \<notin> region e 76" for x
    using not_in_inode [OF that] pn(2) [of x] by (simp add: m1_def m2_def st32_frame)
  have ok2: "heap_ok (s\<lparr>mem := m2\<rparr>) bs" using own(2) fr2 by (intro owns_store [OF ok own(1)]) blast
  obtain p m3 l cs where k: "kmalloc (s\<lparr>mem := m2\<rparr>) 152 = Some (p, s\<lparr>mem := m2\<rparr>\<lparr>log := l, mem := m3\<rparr>)"
    "heap_ok (s\<lparr>mem := m2\<rparr>\<lparr>log := l, mem := m3\<rparr>) cs" "grows bs cs p 152" "keeps bs m2 m3"
    using kmalloc_zeroed [OF ok2, of 152] fit by auto
  have o: "owns cs f k" "f \<noteq> p" "owns cs p 152" using grows_owns [OF k(3) own(1)] k(3) by (auto simp: grows_def)
  define m4 where "m4 = st32 m3 (i_ptr e) p"
  define m5 where "m5 = memset m4 p 0 152"
  have fr4: "m4 x = m3 x" if "x \<notin> region e 76" for x using not_in_inode [OF that] by (simp add: m4_def st32_frame)
  have fr5: "m5 x = m4 x" if "x \<notin> region p 152" for x using wr_frame [of x p "replicate 152 0" m4] that by (simp add: m5_def memset_wr)
  have outs: "x \<notin> region p 152" "x \<notin> region e 76" if "outside x" for x
    using owns_outside [OF k(2) o(3) that] owns_outside [OF k(2) o(1) that] own(2) by blast+
  have out5: "m5 x = mem s x" if "outside x" for x
    using fr5 [OF outs(1) [OF that]] fr4 [OF outs(2) [OF that]] keeps_outside [OF k(4) that] fr2 [OF outs(2) [OF that]] by simp
  have "dev_names img m5" by (rule names_cong [OF devs out5])
  moreover have "region (img Devs) 88 \<inter> region p 152 = {}" using devs(2) outs(1) by (auto simp: outside_heap_def)
  ultimately obtain m where e: "devfs_entries img p [0..<unat ndevs] m5 = Some m" "dev_inode img m p 0 (bytes ''tty'')"
    "dev_inode img m (p + sizeof_inode) 1 (bytes ''ramdisk'')" "\<And>x. x \<notin> region p 152 \<Longrightarrow> m x = m5 x"
    using devfs_entries_run [of img m5 p] by blast
  have nd: "ndevs * sizeof_inode = 152" by (simp add: ndevs_def sizeof_inode_def)
  have ep: "region e 76 \<inter> region p 152 = {}" using owns_apart [OF k(2) o(1,3,2)] own(2) by blast
  have old: "m3 x = m2 x" if "owns bs q j" "x \<in> region q j" for q j x using keeps_owns [OF ok2 that(1) k(4) that(2)] .
  have e4: "m x = m4 x" "m5 x = m4 x" if "x \<in> region e 76" for x using that ep e(4) [of x] fr5 [of x] by auto
  have word: "ld32 m q = ld32 m4 q" "ld32 m5 q = ld32 m4 q" "ld32 m3 q = ld32 m2 q" if "region q 4 \<subseteq> region e 76" for q
    using that e4 old [OF own(1)] own(2) by (auto intro!: ld32_cong)
  have run: "devfs_init img e s = Some (0, s\<lparr>log := l, mem := m\<rparr>)"
    using own(3) k(1) e(1) word(2) [OF in_inode(10)]
    by (simp add: devfs_init_def assert_def nd Let_def i_name_def m1_def [symmetric] m2_def [symmetric] m4_def [symmetric] m5_def [symmetric])
      (simp add: m4_def)
  have heap: "heap_ok (s\<lparr>log := l, mem := m\<rparr>) cs"
  proof -
    have h: "heap_ok (s\<lparr>mem := m2\<rparr>\<lparr>log := l, mem := m3\<rparr>\<lparr>mem := m4\<rparr>) cs" using fr4 own(2) by (intro owns_store [OF k(2) o(1)]) auto
    have "heap_ok (s\<lparr>mem := m2\<rparr>\<lparr>log := l, mem := m3\<rparr>\<lparr>mem := m4\<rparr>\<lparr>mem := m\<rparr>) cs" using fr5 e(4) by (intro owns_store [OF h o(3)]) simp
    then show ?thesis by (simp add: heap_ok_def)
  qed
  have name: "cstr m e (bytes ''dev'')"
  proof (rule name_string [OF pn(1)])
    fix x assume x: "x \<in> region e 32"
    then have "x \<in> region e 76" using in_inode(1) by blast
    then show "m x = put_str (mem s) e ''dev'' x"
      using e4(1) old [OF own(1)] own(2) name_kept [OF x] by (simp add: m4_def m2_def m1_def st32_frame subset_iff)
  qed simp
  have flags: "m (i_flags e) = FS_DIR"
    using e4(1) [OF in_inode(2)] old [OF own(1), of "i_flags e"] in_inode(2) [of e] own(2) flags_apart [of e]
    by (simp add: m4_def m2_def m1_def st32_frame subset_iff)
  have words: "ld32 m (i_impl e) = 2" "ld32 m (i_ptr e) = p"
    using word(1,3) [OF in_inode(5)] word(1) [OF in_inode(10)] ptr_apart [of e] by (simp_all add: m4_def m2_def ld32_st32_other ndevs_def)
  have "ld32 m2 (i_finddir e) = ld32 (mem s) (i_finddir e)"
  proof -
    have "m1 x = mem s x" if "x \<in> region (i_finddir e) 4" for x
      using that sep_region [OF ptr_apart(5) [of e]] ptr_apart(8) [of e] pn(2) [of x] by (auto simp: m1_def)
    then have "ld32 m1 (i_finddir e) = ld32 (mem s) (i_finddir e)" by (rule ld32_cong)
    then show ?thesis using ptr_apart [of e] by (simp add: m2_def ld32_st32_other)
  qed
  then have fd: "ld32 m (i_finddir e) = ld32 (mem s) (i_finddir e)"
    using word(1,3) [OF in_inode(9)] ptr_apart [of e] by (simp add: m4_def ld32_st32_other)
  have outm: "m x = mem s x" if "outside x" for x using e(4) [OF outs(1) [OF that]] out5 [OF that] by simp
  have keep: "m x = mem s x" if "owns bs q j" "x \<in> region q j" "x \<notin> region e 76" for q j x
  proof -
    have "owns cs q j" "q \<noteq> p" using grows_owns [OF k(3) that(1)] by auto
    then have "x \<notin> region p 152" using owns_apart [OF k(2) _ o(3)] that(2) by blast
    then show ?thesis using e(4) fr5 fr4 [OF that(3)] old [OF that(1,2)] fr2 [OF that(3)] by simp
  qed
  show ?thesis using run heap k(3) e(2,3) name flags words fd outm keep by blast
qed

section \<open>The root directory\<close>

lemma dir_words: "sep (i_readdir e) 4 (i_finddir e) 4" "sep (i_impl e) 4 (i_finddir e) 4" "sep (i_ptr e) 4 (i_impl e) 4"
  by (simp_all add: sep_def inode_defs)

lemma ramfs_root_run:
  fixes s :: "'a fs_scheme"
  assumes ok: "heap_ok s bs" and fit: "fits bs 76"
  shows "\<exists>r m l cs. ramfs_root img s = Some (s\<lparr>log := l, mem := m, rd_root := r\<rparr>) \<and> heap_ok (s\<lparr>log := l, mem := m\<rparr>) cs
    \<and> grows bs cs r 76 \<and> keeps bs (mem s) m \<and> m (i_flags r) = FS_DIR \<and> ld32 m (i_finddir r) = img Ramfs_finddir
    \<and> cstr m r (bytes ''ramdisk'')"
proof -
  define L where "L = log s @ [Serial_print (''[ramfs] creating inode for `/'' @ CHR 0x27 # nl)]"
  let ?s = "s\<lparr>log := L\<rparr>"
  have ok': "heap_ok ?s bs" using ok by (simp add: heap_ok_def)
  obtain r m l cs where k: "kmalloc ?s 76 = Some (r, ?s\<lparr>log := l, mem := m\<rparr>)" "heap_ok (?s\<lparr>log := l, mem := memset m r 0 76\<rparr>) cs"
    "grows bs cs r 76" "keeps bs (mem s) (memset m r 0 76)"
    using kmalloc_zeroed [OF ok', of 76] fit by auto
  have o: "owns cs r 76" "unat r \<notin> fst ` live_set bs" "live_set bs \<subseteq> live_set cs" using k(3) by (simp_all add: grows_def)
  let ?m0 = "memset m r 0 76"
  define m1 where "m1 = put_str ?m0 r ''ramdisk''"
  define m2 where "m2 = st32 (st32 (m1(i_flags r := FS_DIR)) (i_readdir r) (img Ramfs_readdir)) (i_finddir r) (img Ramfs_finddir)"
  have len: "length (bytes ''ramdisk'') \<le> 31" by simp
  have pn: "cstr m1 r (bytes ''ramdisk'')" "x \<notin> region r 32 \<Longrightarrow> m1 x = ?m0 x" for x
    using put_name [where w = "''ramdisk''" and m = ?m0 and e = r] by (simp_all add: m1_def bytes_def)
  have fr: "m2 x = ?m0 x" if "x \<notin> region r 76" for x
    using not_in_inode [OF that] pn(2) [of x] by (simp add: m2_def st32_frame)
  have "heap_ok (?s\<lparr>log := l, mem := ?m0\<rparr>\<lparr>mem := m2\<rparr>) cs" using fr by (intro owns_store [OF k(2) o(1)]) simp
  then have "heap_ok (s\<lparr>log := l, mem := m2\<rparr>) cs" by (simp add: heap_ok_def)
  moreover have "keeps bs (mem s) m2"
    using keeps_trans [OF k(4) keeps_store [OF k(2) o fr]] by blast
  moreover have "m2 x = m1 x" if "x \<in> region r 32" for x using name_kept [OF that] by (simp add: m2_def st32_frame)
  then have "cstr m2 r (bytes ''ramdisk'')" by (rule name_string [OF pn(1) len])
  moreover have "m2 (i_flags r) = FS_DIR" using flags_apart [of r] by (simp add: m2_def st32_frame)
  moreover have "ld32 m2 (i_finddir r) = img Ramfs_finddir" by (simp add: m2_def)
  moreover have "ramfs_root img s = Some (s\<lparr>log := l, mem := m2, rd_root := r\<rparr>)"
    using k(1) by (simp add: ramfs_root_def say_def L_def sizeof_inode_def Let_def m1_def m2_def i_name_def)
  ultimately show ?thesis using k(3) by blast
qed

lemma files_run:
  fixes s :: "'a fs_scheme" and fl :: "file_header list"
  defines "n \<equiv> length fl"
  assumes ok: "heap_ok s bs" and root: "owns bs r 76" and n: "n < 2 ^ 16" and fit: "fits bs (76 * (n + 1))" and sz: "sz = of_nat (76 * (n + 1))"
    and disk: "\<forall>i < n. disk_file (mem s) (files + sizeof_rd_fileheader * of_nat i) (fl ! i)" "outside_heap files (44 * n)"
  shows "\<exists>f m m' l l' cs. kmalloc s sz = Some (f, s\<lparr>log := l, mem := m\<rparr>)
    \<and> ramfs_entries img files [0..<n] (s\<lparr>log := l, rd_files := f, mem := memset (st32 m (i_ptr r) f) f 0 sz\<rparr>)
        = Some (s\<lparr>rd_files := f, log := l', mem := m'\<rparr>)
    \<and> heap_ok (s\<lparr>log := l', mem := m'\<rparr>) cs \<and> grows bs cs f (76 * (n + 1)) \<and> keeps bs (mem s) m
    \<and> (\<forall>i < n. file_inode img m' (f + sizeof_inode * of_nat i) i (fl ! i)) \<and> ld32 m' (i_ptr r) = f
    \<and> (\<forall>x. outside x \<longrightarrow> m' x = mem s x) \<and> (\<forall>q j. owns bs q j \<longrightarrow> (\<forall>x \<in> region q j. x \<notin> region (i_ptr r) 4 \<longrightarrow> m' x = mem s x))"
proof -
  let ?k = "76 * (n + 1)"
  have k32: "?k < 2 ^ 32" using n by simp
  have "unat sz = ?k" unfolding sz by (rule unat_of_nat32 [OF k32])
  then have b: "?k < 2 ^ 32" "unat sz = ?k" "sz \<noteq> 0" using k32 by auto
  obtain f m l cs where k: "kmalloc s sz = Some (f, s\<lparr>log := l, mem := m\<rparr>)" "heap_ok (s\<lparr>log := l, mem := m\<rparr>) cs"
    "grows bs cs f ?k" "keeps bs (mem s) m"
    using kmalloc_zeroed [OF ok b(3)] fit unfolding b(2) by blast
  have o: "owns cs r 76" "r \<noteq> f" "owns cs f ?k" using grows_owns [OF k(3) root] k(3) by (auto simp: grows_def)
  define m1 where "m1 = st32 m (i_ptr r) f"
  define m2 where "m2 = memset m1 f 0 sz"
  let ?s2 = "s\<lparr>log := l, rd_files := f, mem := m2\<rparr>"
  have fr1: "m1 x = m x" if "x \<notin> region (i_ptr r) 4" for x using that by (simp add: m1_def st32_frame)
  have fr2: "m2 x = m1 x" if "x \<notin> region f ?k" for x using wr_frame [of x f "replicate ?k 0" m1] that b by (simp add: m2_def memset_wr)
  have rp: "region (i_ptr r) 4 \<subseteq> region r 76" by (rule in_inode)
  have outs: "x \<notin> region f ?k" "x \<notin> region (i_ptr r) 4" if "outside x" for x
    using owns_outside [OF k(2) o(3) that] owns_outside [OF k(2) o(1) that] rp by blast+
  have out2: "m2 x = mem s x" if "outside x" for x
    using fr2 [OF outs(1) [OF that]] fr1 [OF outs(2) [OF that]] keeps_outside [OF k(4) that] by simp
  have d: "\<forall>i < n. disk_file (mem ?s2) (files + sizeof_rd_fileheader * of_nat i) (fl ! i)"
  proof (intro allI impI)
    fix i assume i: "i < n"
    then have sub: "region (files + sizeof_rd_fileheader * of_nat i) 44 \<subseteq> region files (44 * n)" using n by (intro header_slot) simp_all
    have "disk_file m2 (files + sizeof_rd_fileheader * of_nat i) (fl ! i)"
    proof (rule disk_file_cong)
      show "disk_file (mem s) (files + sizeof_rd_fileheader * of_nat i) (fl ! i)" using disk(1) i by blast
      fix x assume "x \<in> region (files + sizeof_rd_fileheader * of_nat i) 44"
      then have "outside x" using sub disk(2) unfolding outside_heap_def by blast
      then show "m2 x = mem s x" by (rule out2)
    qed
    then show "disk_file (mem ?s2) (files + sizeof_rd_fileheader * of_nat i) (fl ! i)" by simp
  qed
  have ap: "region files (44 * n) \<inter> region (rd_files ?s2) (76 * n) = {}"
    using disk(2) outs(1) region_mono [of "76 * n" ?k f] by (auto simp: outside_heap_def)
  have n': "76 * n < 2 ^ 32" using b(1) by simp
  obtain m' l' where e: "ramfs_entries img files [0..<n] ?s2 = Some (?s2\<lparr>log := l', mem := m'\<rparr>)"
    "\<forall>i. 0 \<le> i \<longrightarrow> i < n \<longrightarrow> file_inode img m' (rd_files ?s2 + sizeof_inode * of_nat i) i (fl ! i)"
    "\<forall>x. (\<forall>i. 0 \<le> i \<longrightarrow> i < n \<longrightarrow> x \<notin> region (rd_files ?s2 + sizeof_inode * of_nat i) 76) \<longrightarrow> m' x = mem ?s2 x"
    using ramfs_entries_run [OF le0 n' d ap, of img] by blast
  have fr3: "m' x = m2 x" if x: "x \<notin> region f ?k" for x
  proof -
    have "x \<notin> region (f + sizeof_inode * of_nat i) 76" if "i < n" for i
      using inode_slots(1) [OF that n', of f] x region_mono [of "76 * n" ?k f] by auto
    then show ?thesis using e(3) by simp
  qed
  have heap: "heap_ok (s\<lparr>log := l', mem := m'\<rparr>) cs"
  proof -
    have h: "heap_ok (s\<lparr>log := l, mem := m\<rparr>\<lparr>mem := m1\<rparr>) cs" using fr1 rp by (intro owns_store [OF k(2) o(1)]) auto
    have "heap_ok (s\<lparr>log := l, mem := m\<rparr>\<lparr>mem := m1\<rparr>\<lparr>mem := m'\<rparr>) cs" using fr3 fr2 by (intro owns_store [OF h o(3)]) simp
    then show ?thesis by (simp add: heap_ok_def)
  qed
  have rf: "region r 76 \<inter> region f ?k = {}" by (rule owns_apart [OF k(2) o(1,3,2)])
  have "ld32 m' (i_ptr r) = ld32 m1 (i_ptr r)" using rf rp fr3 fr2 by (intro ld32_cong) auto
  then have ptr: "ld32 m' (i_ptr r) = f" by (simp add: m1_def)
  have keep: "m' x = mem s x" if "owns bs q j" "x \<in> region q j" "x \<notin> region (i_ptr r) 4" for q j x
  proof -
    have "owns cs q j" "q \<noteq> f" using grows_owns [OF k(3) that(1)] by auto
    then have "x \<notin> region f ?k" using owns_apart [OF k(2) _ o(3)] that(2) by blast
    then show ?thesis using fr3 fr2 fr1 [OF that(3)] keeps_owns [OF ok that(1) k(4) that(2)] by simp
  qed
  have outm: "m' x = mem s x" if "outside x" for x using fr3 [OF outs(1) [OF that]] out2 [OF that] by simp
  have run: "ramfs_entries img files [0..<n] (s\<lparr>log := l, rd_files := f, mem := memset (st32 m (i_ptr r) f) f 0 sz\<rparr>)
        = Some (s\<lparr>rd_files := f, log := l', mem := m'\<rparr>)" using e(1) by (simp add: m2_def m1_def)
  have inodes: "\<forall>i < n. file_inode img m' (f + sizeof_inode * of_nat i) i (fl ! i)" using e(2) by simp
  show ?thesis using k(1,3,4) run heap inodes ptr outm keep by blast
qed

lemma dev_dir_run:
  fixes s :: "'a fs_scheme" and v :: u32
  assumes ok: "heap_ok s bs" and own: "owns bs f k" "region e 76 \<subseteq> region f k" "e \<noteq> 0" and fit: "fits bs 152"
    and devs: "dev_names img (mem s)" "outside_heap (img Devs) 88"
  defines "m0 \<equiv> st32 (st32 (st32 (mem s) (i_ino e) v) (i_finddir e) (img Ramfs_finddir)) (i_readdir e) (img Ramfs_readdir)"
  shows "\<exists>m l cs p. devfs_init img e (s\<lparr>mem := m0\<rparr>) = Some (0, s\<lparr>log := l, mem := m\<rparr>) \<and> heap_ok (s\<lparr>log := l, mem := m\<rparr>) cs \<and> grows bs cs p 152
    \<and> dev_inode img m p 0 (bytes ''tty'') \<and> dev_inode img m (p + sizeof_inode) 1 (bytes ''ramdisk'')
    \<and> cstr m e (bytes ''dev'') \<and> m (i_flags e) = FS_DIR \<and> ld32 m (i_impl e) = 2 \<and> ld32 m (i_ptr e) = p
    \<and> ld32 m (i_finddir e) = img Ramfs_finddir
    \<and> (\<forall>x. outside x \<longrightarrow> m x = mem s x) \<and> (\<forall>q j. owns bs q j \<longrightarrow> (\<forall>x \<in> region q j. x \<notin> region e 76 \<longrightarrow> m x = mem s x))"
proof -
  have fr: "m0 x = mem s x" if "x \<notin> region e 76" for x using not_in_inode [OF that] by (simp add: m0_def st32_frame)
  have ok0: "heap_ok (s\<lparr>mem := m0\<rparr>) bs" using own(2) fr by (intro owns_store [OF ok own(1)]) blast
  have out: "m0 x = mem s x" if "outside x" for x using owns_outside [OF ok own(1) that] own(2) fr by blast
  have dn: "dev_names img (mem (s\<lparr>mem := m0\<rparr>))" using names_cong [OF devs out] by simp
  have fd: "ld32 m0 (i_finddir e) = img Ramfs_finddir" using ptr_apart(7) [of e] by (simp add: m0_def ld32_st32_other)
  obtain m l cs p where d: "devfs_init img e (s\<lparr>mem := m0\<rparr>) = Some (0, s\<lparr>mem := m0\<rparr>\<lparr>log := l, mem := m\<rparr>)"
    "heap_ok (s\<lparr>mem := m0\<rparr>\<lparr>log := l, mem := m\<rparr>) cs" "grows bs cs p 152"
    "dev_inode img m p 0 (bytes ''tty'')" "dev_inode img m (p + sizeof_inode) 1 (bytes ''ramdisk'')"
    "cstr m e (bytes ''dev'')" "m (i_flags e) = FS_DIR" "ld32 m (i_impl e) = 2" "ld32 m (i_ptr e) = p"
    "ld32 m (i_finddir e) = ld32 m0 (i_finddir e)"
    "\<forall>x. outside x \<longrightarrow> m x = m0 x" "\<forall>q j. owns bs q j \<longrightarrow> (\<forall>x \<in> region q j. x \<notin> region e 76 \<longrightarrow> m x = m0 x)"
    using devfs_init_run [OF ok0 own fit dn devs(2)] by auto
  have run: "devfs_init img e (s\<lparr>mem := m0\<rparr>) = Some (0, s\<lparr>log := l, mem := m\<rparr>)" "heap_ok (s\<lparr>log := l, mem := m\<rparr>) cs"
    using d(1,2) by (simp_all add: heap_ok_def)
  have frames: "\<forall>x. outside x \<longrightarrow> m x = mem s x" "\<forall>q j. owns bs q j \<longrightarrow> (\<forall>x \<in> region q j. x \<notin> region e 76 \<longrightarrow> m x = mem s x)"
    using d(11,12) out fr by simp_all
  show ?thesis using run d(3-9) d(10)[unfolded fd] frames by blast
qed

section \<open>The tree\<close>

text \<open>
  The tree of a mounted disk: the root at \<open>r\<close> with its entries at \<open>f\<close>, the files and behind them the
  directory of devices with its entries at \<open>p\<close>.
\<close>

definition disk_nodes :: "addr \<Rightarrow> addr \<Rightarrow> addr \<Rightarrow> nat \<Rightarrow> addr set" where
  "disk_nodes r f p n = {r, p, p + sizeof_inode} \<union> (\<lambda>i. f + sizeof_inode * of_nat i) ` {..n}"

definition disk_tree :: "addr \<Rightarrow> addr \<Rightarrow> addr \<Rightarrow> byte list list \<Rightarrow> tree" where
  "disk_tree r f p names = [r \<mapsto> (f, names @ [bytes ''dev'']),
     f + sizeof_inode * of_nat (length names) \<mapsto> (p, [bytes ''tty'', bytes ''ramdisk''])]"

lemma not_dir_flags: "m (i_flags e) = FS_FILE \<or> m (i_flags e) = FS_CHAR \<Longrightarrow> not_dir m e" "m (i_flags e) = FS_DIR \<Longrightarrow> \<not> not_dir m e"
  by (auto simp: not_dir_def FS_FILE_def FS_CHAR_def FS_DIR_def)

lemma mounted_tree:
  fixes fl :: "file_header list" and f :: addr
  defines "n \<equiv> length fl"
  defines "e \<equiv> f + sizeof_inode * of_nat n"
  assumes n: "n < 2 ^ 16" and nz: "0 \<notin> disk_nodes r f p n" "img Ramfs_finddir \<noteq> 0"
    and ne: "r \<notin> {p, p + sizeof_inode}" "\<forall>i \<le> n. f + sizeof_inode * of_nat i \<notin> {r, p, p + sizeof_inode}"
      "\<forall>i < n. f + sizeof_inode * of_nat i \<noteq> e"
    and root: "m (i_flags r) = FS_DIR" "ld32 m (i_finddir r) = img Ramfs_finddir" "ld32 m (i_impl r) = of_nat (n + 1)" "ld32 m (i_ptr r) = f"
    and files: "\<forall>i < n. file_inode img m (f + sizeof_inode * of_nat i) i (fl ! i)"
    and dev: "cstr m e (bytes ''dev'')" "m (i_flags e) = FS_DIR" "ld32 m (i_finddir e) = img Ramfs_finddir" "ld32 m (i_impl e) = 2" "ld32 m (i_ptr e) = p"
    and devs: "dev_inode img m p 0 (bytes ''tty'')" "dev_inode img m (p + sizeof_inode) 1 (bytes ''ramdisk'')"
  shows "tree_ok img (disk_nodes r f p n) (disk_tree r f p (map fst fl)) m"
proof -
  let ?N = "disk_nodes r f p n" and ?T = "disk_tree r f p (map fst fl)"
  have T: "?T r = Some (f, map fst fl @ [bytes ''dev''])" "?T e = Some (p, [bytes ''tty'', bytes ''ramdisk''])"
    "x \<noteq> r \<Longrightarrow> x \<noteq> e \<Longrightarrow> ?T x = None" for x
    using ne(2) by (auto simp: disk_tree_def e_def n_def)
  have fname: "cstr m (f + sizeof_inode * of_nat i) (fst (fl ! i))" "length (fst (fl ! i)) \<le> 31" "m (i_flags (f + sizeof_inode * of_nat i)) = FS_FILE"
    if "i < n" for i using files that by (cases "fl ! i"; fastforce simp: file_inode_def i_name_def)+
  have "cstr m (f + sizeof_inode * of_nat j) ((map fst fl @ [bytes ''dev'']) ! j) \<and> length ((map fst fl @ [bytes ''dev'']) ! j) \<le> 31"
    if "j < Suc n" for j
  proof (cases "j < n")
    case True
    then show ?thesis using fname by (simp add: nth_append n_def)
  next
    case False
    then have "j = n" using that by simp
    then show ?thesis using dev(1) by (simp add: nth_append n_def e_def)
  qed
  then have rd: "dir_at img m r f (map fst fl @ [bytes ''dev''])"
    using root nz(2) n not_dir_flags(2) [of m r] by (simp add: dir_at_def n_def)
  have "cstr m p (bytes ''tty'')" "cstr m (p + sizeof_inode) (bytes ''ramdisk'')" using devs by (simp_all add: dev_inode_def i_name_def)
  then have ed: "dir_at img m e p [bytes ''tty'', bytes ''ramdisk'']"
    using dev nz(2) not_dir_flags(2) [of m e] by (auto simp: dir_at_def less_Suc_eq)
  have leaf: "not_dir m x" if x: "x \<in> ?N" "x \<noteq> r" "x \<noteq> e" for x
  proof -
    consider i where "i < n" "x = f + sizeof_inode * of_nat i" | "x \<in> {p, p + sizeof_inode}"
      using x by (auto simp: disk_nodes_def e_def le_less)
    then show ?thesis
      by cases (use fname devs not_dir_flags(1) in \<open>auto simp: dev_inode_def\<close>)
  qed
  have "f + sizeof_inode * of_nat j \<in> ?N" if "j < Suc n" for j using that by (auto simp: disk_nodes_def)
  moreover have "p + sizeof_inode * of_nat j \<in> ?N" if "j < 2" for j using that by (auto simp: disk_nodes_def less_2_cases_iff)
  moreover have "x \<noteq> 0" if "x \<in> ?N" for x using that nz(1) by auto
  ultimately have "x \<noteq> 0 \<and> (case ?T x of None \<Rightarrow> not_dir m x \<or> ld32 m (i_finddir x) = 0
    | Some (q, names) \<Rightarrow> dir_at img m x q names \<and> (\<forall>j < length names. q + sizeof_inode * of_nat j \<in> ?N))" if "x \<in> ?N" for x
    using that T rd ed leaf [OF that] by (cases "x = r"; cases "x = e") (auto simp: n_def)
  then show ?thesis by (simp add: tree_ok_def)
qed

text \<open>
  The tree after the last step: the root comes from \<open>m1\<close>, the files from \<open>m3\<close> and the device
  directory from \<open>m5\<close>; each later step writes into other objects.
\<close>

lemma mounted_memory:
  fixes fl :: "file_header list" and f :: addr
  defines "n \<equiv> length fl"
  defines "e \<equiv> f + sizeof_inode * of_nat n"
  assumes n: "n < 2 ^ 16" "img Ramfs_finddir \<noteq> 0"
    and heap: "heap_ok s3 c3" "grows c1 c2 f (76 * (n + 1))" "grows c2 c3 p 152" "owns c1 r 76"
    and root: "m1 (i_flags r) = FS_DIR" "ld32 m1 (i_finddir r) = img Ramfs_finddir"
    and files: "\<forall>i < n. file_inode img m3 (f + sizeof_inode * of_nat i) i (fl ! i)" "ld32 m3 (i_ptr r) = f"
      "\<forall>x \<in> region r 76. x \<notin> region (i_ptr r) 4 \<longrightarrow> m3 x = m1 x"
    and devs: "dev_inode img m5 p 0 (bytes ''tty'')" "dev_inode img m5 (p + sizeof_inode) 1 (bytes ''ramdisk'')"
      "cstr m5 e (bytes ''dev'')" "m5 (i_flags e) = FS_DIR" "ld32 m5 (i_impl e) = 2" "ld32 m5 (i_ptr e) = p"
      "ld32 m5 (i_finddir e) = img Ramfs_finddir"
      "\<forall>q j. owns c2 q j \<longrightarrow> (\<forall>x \<in> region q j. x \<notin> region e 76 \<longrightarrow> m5 x = m3 x)"
    and last: "m6 = st32 m5 (i_impl r) (of_nat (n + 1))"
  shows "tree_ok img (disk_nodes r f p n) (disk_tree r f p (map fst fl)) m6
    \<and> (\<forall>i < n. file_inode img m6 (f + sizeof_inode * of_nat i) i (fl ! i))
    \<and> dev_inode img m6 p 0 (bytes ''tty'') \<and> dev_inode img m6 (p + sizeof_inode) 1 (bytes ''ramdisk'')
    \<and> inode_bytes (disk_nodes r f p n) \<subseteq> region r 76 \<union> region f (76 * (n + 1)) \<union> region p 152"
proof -
  let ?k = "76 * (n + 1)" and ?f = "\<lambda>i. f + sizeof_inode * of_nat i"
  have o2: "owns c2 r 76" "owns c2 f ?k" "r \<noteq> f" using grows_owns [OF heap(2,4)] heap(2) by (auto simp: grows_def)
  have o3: "owns c3 r 76" "owns c3 f ?k" "owns c3 p 152" "r \<noteq> p" "f \<noteq> p"
    using grows_owns [OF heap(3) o2(1)] grows_owns [OF heap(3) o2(2)] heap(3) by (auto simp: grows_def)
  have ap: "region r 76 \<inter> region f ?k = {}" "region r 76 \<inter> region p 152 = {}" "region f ?k \<inter> region p 152 = {}"
    using owns_apart [OF heap(1) o3(1,2) o2(3)] owns_apart [OF heap(1) o3(1,3,4)] owns_apart [OF heap(1) o3(2,3,5)] by blast+
  have k32: "76 * (n + 1) < 2 ^ 32" using n by simp
  have sub: "region (?f i) 76 \<subseteq> region f ?k" if "i \<le> n" for i using that inode_slots(1) [OF _ k32, of i f] by simp
  have sube: "region e 76 \<subseteq> region f ?k" using sub [of n] by (simp add: e_def)
  have slots: "region (?f i) 76 \<inter> region e 76 = {}" if "i < n" for i
    using inode_slots(2) [of n "n + 1" i f, OF _ k32] that by (auto simp: e_def)
  have subp: "region p 76 \<subseteq> region p 152" "region (p + sizeof_inode) 76 \<subseteq> region p 152"
    using region_mono [of 76 152 p] region_sub [of 76 76 152 p] by (simp_all add: sizeof_inode_def)
  have fr: "m6 x = m5 x" if "x \<notin> region (i_impl r) 4" for x using that by (simp add: last st32_frame)
  have out_r: "m6 x = m5 x" if "x \<notin> region r 76" for x using that in_inode(5) [of r] by (intro fr) blast
  have keep: "m5 x = m3 x" if "x \<in> region r 76" for x using devs(8) o2(1) that sube ap(1) by blast
  have words: "ld32 m6 (i_finddir r) = ld32 m1 (i_finddir r)" "ld32 m6 (i_ptr r) = f" "ld32 m6 (i_impl r) = of_nat (n + 1)"
  proof -
    have "m6 x = m1 x" if "x \<in> region (i_finddir r) 4" for x
    proof -
      have "x \<in> region r 76" "x \<notin> region (i_impl r) 4" "x \<notin> region (i_ptr r) 4"
        using that sep_region [OF ptr_apart(2) [of r]] sep_region [OF ptr_apart(3) [of r]] in_inode(9) [of r] by blast+
      then show ?thesis using fr keep files(3) by simp
    qed
    then show "ld32 m6 (i_finddir r) = ld32 m1 (i_finddir r)" by (rule ld32_cong)
    have "m6 x = m3 x" if "x \<in> region (i_ptr r) 4" for x
    proof -
      have "x \<in> region r 76" "x \<notin> region (i_impl r) 4"
        using that sep_region [OF dir_words(3) [of r]] in_inode(10) [of r] by blast+
      then show ?thesis using fr keep by simp
    qed
    then have "ld32 m6 (i_ptr r) = ld32 m3 (i_ptr r)" by (rule ld32_cong)
    then show "ld32 m6 (i_ptr r) = f" using files(2) by simp
    show "ld32 m6 (i_impl r) = of_nat (n + 1)" by (simp add: last)
  qed
  have flags: "m6 (i_flags r) = FS_DIR"
    using fr [of "i_flags r"] keep [OF in_inode(2)] files(3) in_inode(2) [of r] flags_apart [of r] root(1) by simp
  have inodes: "file_inode img m6 (?f i) i (fl ! i)" if i: "i < n" for i
  proof (rule file_inode_cong)
    show "file_inode img m3 (?f i) i (fl ! i)" using files(1) i by blast
    fix x assume x: "x \<in> region (?f i) 76"
    have "x \<in> region f ?k" "x \<notin> region e 76" using x sub [of i] slots [OF i] i by auto
    then show "m6 x = m3 x" using out_r [of x] ap(1) devs(8) o2(2) by auto
  qed
  have e6: "m6 x = m5 x" if "x \<in> region e 76" for x using that sube ap(1) by (intro out_r) blast
  have ew: "ld32 m6 q = ld32 m5 q" if "region q 4 \<subseteq> region e 76" for q using that e6 by (intro ld32_cong) blast
  have "cstr m6 e (bytes ''dev'')" using e6 in_inode(1) [of e] by (intro name_string [OF devs(3)]) auto
  moreover have "m6 (i_flags e) = FS_DIR" "ld32 m6 (i_finddir e) = img Ramfs_finddir" "ld32 m6 (i_impl e) = 2" "ld32 m6 (i_ptr e) = p"
    using e6 [OF in_inode(2)] ew [OF in_inode(9)] ew [OF in_inode(5)] ew [OF in_inode(10)] devs(4-7) by simp_all
  moreover have d6: "dev_inode img m6 p 0 (bytes ''tty'')" "dev_inode img m6 (p + sizeof_inode) 1 (bytes ''ramdisk'')"
  proof -
    have "m6 x = m5 x" if "x \<in> region p 152" for x using that ap(2) by (intro out_r) blast
    then show "dev_inode img m6 p 0 (bytes ''tty'')" "dev_inode img m6 (p + sizeof_inode) 1 (bytes ''ramdisk'')"
      using subp by (blast intro: dev_inode_cong [OF devs(1)] dev_inode_cong [OF devs(2)])+
  qed
  moreover have pts: "?f i \<in> region f ?k" if "i \<le> n" for i using sub [OF that] region_base [of "?f i" 76] by auto
  have rp: "r \<in> region r 76" "p \<in> region p 152" "p + sizeof_inode \<in> region p 152" using subp(2) by auto
  have "outside 0" by (simp add: outside_def HEAP_BASE_def)
  then have z: "0 \<notin> region r 76" "0 \<notin> region f ?k" "0 \<notin> region p 152"
    using owns_outside [OF heap(1) o3(1)] owns_outside [OF heap(1) o3(2)] owns_outside [OF heap(1) o3(3)] by blast+
  have "0 \<notin> disk_nodes r f p n"
  proof -
    have "disk_nodes r f p n \<subseteq> region r 76 \<union> region f ?k \<union> region p 152" unfolding disk_nodes_def using rp pts by blast
    then show ?thesis using z by blast
  qed
  moreover have "r \<notin> region p 152" using rp(1) ap(2) by blast
  then have "r \<notin> {p, p + sizeof_inode}" using rp(2,3) by blast
  moreover have "\<forall>i \<le> n. ?f i \<notin> {r, p, p + sizeof_inode}"
  proof (intro allI impI)
    fix i assume "i \<le> n"
    then have "?f i \<notin> region r 76" "?f i \<notin> region p 152" using pts [of i] ap(1,3) by blast+
    moreover have "{r, p, p + sizeof_inode} \<subseteq> region r 76 \<union> region p 152" using rp by simp
    ultimately show "?f i \<notin> {r, p, p + sizeof_inode}" by blast
  qed
  moreover have "\<forall>i < n. ?f i \<noteq> e" using slots by (metis disjoint_iff region_base zero_less_numeral)
  ultimately have "tree_ok img (disk_nodes r f p n) (disk_tree r f p (map fst fl)) m6"
    using flags words root(2) inodes n unfolding n_def e_def by (intro mounted_tree) simp_all
  moreover have "inode_bytes (disk_nodes r f p n) \<subseteq> region r 76 \<union> region f ?k \<union> region p 152"
    using sub subp by (fastforce simp: inode_bytes_def disk_nodes_def)
  ultimately show ?thesis using inodes d6 by blast
qed

section \<open>ramfs_init\<close>

text \<open>The disk that the driver has, apart from the heap and from the stack variable at \<open>sp\<close>.\<close>

definition disk_ready :: "image \<Rightarrow> mem \<Rightarrow> addr \<Rightarrow> file_header list \<Rightarrow> addr \<Rightarrow> bool" where
  "disk_ready img m a fl sp \<longleftrightarrow> ramdisk_at img m a \<and> disk_at m a fl \<and> outside_heap a (4 + 44 * length fl)
     \<and> dev_names img m \<and> outside_heap (img Devs) 88
     \<and> outside_heap sp 4 \<and> region sp 4 \<inter> region a (4 + 44 * length fl) = {} \<and> region sp 4 \<inter> region (img Devs) 88 = {}"

lemma ld16_kept: "(\<And>x. x \<in> region q 2 \<Longrightarrow> m' x = m x) \<Longrightarrow> ld16 m' q = ld16 m q"
  by (rule ld16_cong) simp

lemma disk_fields:
  "region (rh_nfiles a) 2 \<subseteq> region a (4 + 44 * n)" "region (rh_signature a) 2 \<subseteq> region a (4 + 44 * n)"
  "n < 2 ^ 16 \<Longrightarrow> region (a + sizeof_rd_header) (44 * n) \<subseteq> region a (4 + 44 * n)"
proof -
  show "region (rh_nfiles a) 2 \<subseteq> region a (4 + 44 * n)" "region (rh_signature a) 2 \<subseteq> region a (4 + 44 * n)"
    using region_sub [of 2 2 4 a] region_mono [of 4 "4 + 44 * n" a] region_mono [of 2 "4 + 44 * n" a] by (auto simp: rh_nfiles_def rh_signature_def)
  show "n < 2 ^ 16 \<Longrightarrow> region (a + sizeof_rd_header) (44 * n) \<subseteq> region a (4 + 44 * n)"
    using region_sub [of 4 "44 * n" "4 + 44 * n" a] by (simp add: sizeof_rd_header_def)
qed

lemma ucast_count: "n < 2 ^ 16 \<Longrightarrow> (ucast (of_nat n :: u16) :: u32) = of_nat n"
  by (simp add: word_unat_eq_iff unat_of_nat take_bit_nat_eq_self unsigned_ucast_eq)

lemma disk_at_cong:
  assumes d: "disk_at m a fl" and fr: "\<And>x. x \<in> region a (4 + 44 * length fl) \<Longrightarrow> m' x = m x"
  shows "disk_at m' a fl"
proof -
  have n: "length fl < 2 ^ 16" using d by (simp add: disk_at_def)
  have "ld16 m' q = ld16 m q" if "q \<in> {rh_signature a, rh_nfiles a}" for q
    using that disk_fields(1,2) [of a "length fl"] fr by (intro ld16_kept) auto
  moreover have "disk_file m' (a + sizeof_rd_header + sizeof_rd_fileheader * of_nat i) (fl ! i)" if i: "i < length fl" for i
  proof (rule disk_file_cong)
    show "disk_file m (a + sizeof_rd_header + sizeof_rd_fileheader * of_nat i) (fl ! i)" using d i by (simp add: disk_at_def)
    show "m' x = m x" if "x \<in> region (a + sizeof_rd_header + sizeof_rd_fileheader * of_nat i) 44" for x
      using that header_slot [OF i, of "a + sizeof_rd_header"] disk_fields(3) [OF n, of a] n by (intro fr) auto
  qed
  ultimately show ?thesis using d by (simp add: disk_at_def)
qed

lemma ramfs_init_run:
  fixes s :: "'a fs_scheme" and fl :: "file_header list"
  defines "n \<equiv> length fl"
  assumes ok: "heap_ok s bs" and rm: "top_of bs + 76 * n + 400 \<le> HEAP_END" and disk: "disk_ready img (mem s) a fl sp"
    and nz: "img Ramfs_finddir \<noteq> 0"
  shows "\<exists>r f p s' cs. ramfs_init hw img ebp sp s = Some (r, s') \<and> heap_ok s' cs \<and> live_set bs \<subseteq> live_set cs
    \<and> tree_ok img (disk_nodes r f p n) (disk_tree r f p (map fst fl)) (mem s') \<and> stable cs (inode_bytes (disk_nodes r f p n))
    \<and> (\<forall>i < n. file_inode img (mem s') (f + sizeof_inode * of_nat i) i (fl ! i))
    \<and> dev_inode img (mem s') p 0 (bytes ''tty'') \<and> dev_inode img (mem s') (p + sizeof_inode) 1 (bytes ''ramdisk'')
    \<and> file_base s' = of_nat (4 + 44 * n)
    \<and> (\<forall>q j. owns bs q j \<longrightarrow> (\<forall>x \<in> region q j. mem s' x = mem s x))
    \<and> (\<forall>x. outside x \<longrightarrow> x \<notin> region sp 4 \<longrightarrow> mem s' x = mem s x)"
proof -
  have D: "ramdisk_at img (mem s) a" "disk_at (mem s) a fl" "outside_heap a (4 + 44 * n)" "dev_names img (mem s)" "outside_heap (img Devs) 88"
    "outside_heap sp 4" "region sp 4 \<inter> region a (4 + 44 * n) = {}" "region sp 4 \<inter> region (img Devs) 88 = {}"
    using disk by (simp_all add: disk_ready_def n_def)
  have n: "n < 2 ^ 16" using D(2) by (simp add: disk_at_def n_def)
  define N where "N = (of_nat n :: u32)"
  define sz where "sz = (of_nat (76 * (n + 1)) :: u32)"
  have un: "unat N = n" unfolding N_def using n by (intro unat_of_nat32) simp
  define m0 where "m0 = st32 (mem s) sp a"
  have fr0: "m0 x = mem s x" if "x \<notin> region sp 4" for x using that by (simp add: m0_def st32_frame)
  have ioctl: "dev_ioctl img (kernel_code hw img ebp) DEV_RAMDISK RD_GETADDR sp s = Some (0, s\<lparr>mem := m0\<rparr>)"
    using D(1) by (simp add: dev_ioctl_def ramdisk_at_def ramdisk_entry_def Let_def kernel_code_def ramdisk_ioctl_def rd_addr_def
      RD_GETADDR_def RD_SETADDR_def m0_def)
  have head: "ld32 m0 sp = a" by (simp add: m0_def)
  have disk0: "disk_at m0 a fl" using D(7) fr0 unfolding n_def by (intro disk_at_cong [OF D(2)]) blast
  have names0: "dev_names img m0" using D(8) fr0 by (intro names_at [OF D(4)]) blast
  have heap0: "heap_ok (s\<lparr>mem := m0\<rparr>) bs" using D(6) fr0 by (intro heap_ok_outside [OF ok]) (auto simp: outside_heap_def)
  let ?b1 = "s\<lparr>mem := m0, file_base := N * sizeof_rd_fileheader + sizeof_rd_header, rd_nfiles := N\<rparr>"
  have heap1: "heap_ok ?b1 bs" using heap0 by (simp add: heap_ok_def)
  have count: "ucast (ld16 m (rh_nfiles a)) = N" "(ucast (ld16 m (rh_nfiles a)) + 1) * sizeof_inode = sz" "ld16 m (rh_signature a) = RD_HEADSIG"
    if "disk_at m a fl" for m
    using that ucast_count [OF n] by (simp_all add: disk_at_def N_def sz_def n_def sizeof_inode_def algebra_simps)
  have "fits bs 76" using rm by (simp add: fits_def)
  then obtain r m1 l1 c1 where root: "ramfs_root img ?b1 = Some (?b1\<lparr>log := l1, mem := m1, rd_root := r\<rparr>)"
    "heap_ok (?b1\<lparr>log := l1, mem := m1\<rparr>) c1" "grows bs c1 r 76" "keeps bs m0 m1" "m1 (i_flags r) = FS_DIR"
    "ld32 m1 (i_finddir r) = img Ramfs_finddir"
    using ramfs_root_run [OF heap1, of img] by auto
  let ?b2 = "?b1\<lparr>log := l1, mem := m1, rd_root := r\<rparr>"
  have out1: "m1 x = m0 x" if "outside x" for x by (rule keeps_outside [OF root(4) that])
  have disk1: "disk_at m1 a fl" using D(3) out1 unfolding n_def by (intro disk_at_cong [OF disk0]) (auto simp: outside_heap_def)
  have o1: "owns c1 r 76" "top_of c1 \<le> top_of bs + 96" using root(3) by (simp_all add: grows_def)
  define K8 where "K8 = (76 * (n + 1) + 7) div 8 * 8"
  have "K8 \<le> 76 * (n + 1) + 7" unfolding K8_def by (rule div_times_less_eq_dividend)
  then have K8: "K8 \<le> 76 * n + 83" by simp
  have fit2: "fits c1 (76 * (n + 1))" using o1(2) rm K8 unfolding fits_def K8_def [symmetric] by linarith
  have heap2: "heap_ok ?b2 c1" using root(2) by (simp add: heap_ok_def)
  have disk2: "\<forall>i < n. disk_file (mem ?b2) (a + sizeof_rd_header + sizeof_rd_fileheader * of_nat i) (fl ! i)"
    using disk1 by (simp add: disk_at_def n_def)
  have hdr: "outside_heap (a + sizeof_rd_header) (44 * n)" using D(3) disk_fields(3) [OF n] by (auto simp: outside_heap_def)
  obtain f m2 m3 l2 l3 c2 where fs: "kmalloc ?b2 sz = Some (f, ?b2\<lparr>log := l2, mem := m2\<rparr>)"
    "ramfs_entries img (a + sizeof_rd_header) [0..<n] (?b2\<lparr>log := l2, rd_files := f, mem := memset (st32 m2 (i_ptr r) f) f 0 sz\<rparr>)
       = Some (?b2\<lparr>rd_files := f, log := l3, mem := m3\<rparr>)"
    "heap_ok (?b2\<lparr>log := l3, mem := m3\<rparr>) c2" "grows c1 c2 f (76 * (n + 1))" "keeps c1 m1 m2"
    "\<forall>i < n. file_inode img m3 (f + sizeof_inode * of_nat i) i (fl ! i)" "ld32 m3 (i_ptr r) = f"
    "\<forall>x. outside x \<longrightarrow> m3 x = m1 x" "\<forall>q j. owns c1 q j \<longrightarrow> (\<forall>x \<in> region q j. x \<notin> region (i_ptr r) 4 \<longrightarrow> m3 x = m1 x)"
    using files_run [OF heap2 o1(1), of fl sz "a + sizeof_rd_header" img, folded n_def, OF n fit2 sz_def disk2 hdr] by auto
  let ?b3 = "?b2\<lparr>rd_files := f, log := l3, mem := m3\<rparr>" and ?k = "76 * (n + 1)"
  have o2: "owns c2 f ?k" "owns c2 r 76" "r \<noteq> f" "top_of c2 \<le> top_of c1 + 16 + K8"
    using fs(4) grows_owns [OF fs(4) o1(1)] unfolding grows_def K8_def by blast+
  define e where "e = f + sizeof_inode * N"
  have k32: "76 * (n + 1) < 2 ^ 32" using n by simp
  have sube: "region e 76 \<subseteq> region f ?k" using inode_slots(1) [OF _ k32, of n f] by (simp add: e_def N_def)
  have "e \<in> region e 76" by simp
  then have "e \<in> region f ?k" using sube by blast
  then have "e \<noteq> 0" using owns_outside [OF fs(3) o2(1), of e] by (auto simp: outside_def HEAP_BASE_def)
  have heap3: "heap_ok (?b3\<lparr>rd_nfiles := N + 1\<rparr>) c2" using fs(3) by (simp add: heap_ok_def)
  have fit3: "fits c2 152" using o2(4) o1(2) rm K8 by (simp add: fits_def)
  have names3: "dev_names img (mem (?b3\<lparr>rd_nfiles := N + 1\<rparr>))" using fs(8) out1 by (intro names_cong [OF names0 D(5)]) simp
  define m4 where "m4 = st32 (st32 (st32 m3 (i_ino e) N) (i_finddir e) (img Ramfs_finddir)) (i_readdir e) (img Ramfs_readdir)"
  obtain m5 l5 c3 p where dv: "devfs_init img e (?b3\<lparr>rd_nfiles := N + 1\<rparr>\<lparr>mem := m4\<rparr>) = Some (0, ?b3\<lparr>rd_nfiles := N + 1\<rparr>\<lparr>log := l5, mem := m5\<rparr>)"
    "heap_ok (?b3\<lparr>rd_nfiles := N + 1\<rparr>\<lparr>log := l5, mem := m5\<rparr>) c3" "grows c2 c3 p 152"
    "dev_inode img m5 p 0 (bytes ''tty'')" "dev_inode img m5 (p + sizeof_inode) 1 (bytes ''ramdisk'')"
    "cstr m5 e (bytes ''dev'')" "m5 (i_flags e) = FS_DIR" "ld32 m5 (i_impl e) = 2" "ld32 m5 (i_ptr e) = p"
    "ld32 m5 (i_finddir e) = img Ramfs_finddir" "\<forall>x. outside x \<longrightarrow> m5 x = m3 x"
    "\<forall>q j. owns c2 q j \<longrightarrow> (\<forall>x \<in> region q j. x \<notin> region e 76 \<longrightarrow> m5 x = m3 x)"
    using dev_dir_run [OF heap3 o2(1) sube \<open>e \<noteq> 0\<close> fit3 names3 D(5), of N] by (auto simp: m4_def)
  define m6 where "m6 = st32 m5 (i_impl r) (N + 1)"
  let ?e = "?b3\<lparr>rd_nfiles := N + 1\<rparr>\<lparr>log := l5, mem := m6\<rparr>"
  have run: "ramfs_init hw img ebp sp s = Some (r, ?e)"
  proof -
    have "disk_at m2 a fl"
      using D(3) keeps_outside [OF fs(5)] unfolding n_def by (intro disk_at_cong [OF disk1]) (auto simp: outside_heap_def)
    have "disk_at (st32 m2 (i_ptr r) f) a fl"
      using D(3) owns_outside [OF heap2 o1(1)] in_inode(10) [of r] unfolding n_def
      by (intro disk_at_cong [OF \<open>disk_at m2 a fl\<close>] st32_frame) (auto simp: outside_heap_def)
    note c = count [OF disk0] count [OF disk1] count [OF this]
    show ?thesis
      using ioctl root(1) fs(1,2) dv(1) c un head
      by (simp add: ramfs_init_def assert_def Let_def m4_def m6_def e_def)
  qed
  have o3: "owns c3 r 76" "owns c3 f ?k" "owns c3 p 152"
    using grows_owns [OF dv(3) o2(1)] grows_owns [OF dv(3) o2(2)] dv(3) by (auto simp: grows_def)
  have fr6: "m6 x = m5 x" if "x \<notin> region r 76" for x using not_in_inode(5) [OF that] by (simp add: m6_def st32_frame)
  have "heap_ok (?b3\<lparr>rd_nfiles := N + 1\<rparr>\<lparr>log := l5, mem := m5\<rparr>\<lparr>mem := m6\<rparr>) c3" using fr6 by (intro owns_store [OF dv(2) o3(1)]) simp
  then have heap6: "heap_ok ?e c3" by (simp add: heap_ok_def)
  have "\<forall>x \<in> region r 76. x \<notin> region (i_ptr r) 4 \<longrightarrow> m3 x = m1 x" using fs(9) o1(1) by blast
  moreover have "m6 = st32 m5 (i_impl r) (of_nat (n + 1))" by (simp add: m6_def N_def add.commute)
  ultimately have tree: "tree_ok img (disk_nodes r f p n) (disk_tree r f p (map fst fl)) m6"
      "\<forall>i < n. file_inode img m6 (f + sizeof_inode * of_nat i) i (fl ! i)"
      "dev_inode img m6 p 0 (bytes ''tty'')" "dev_inode img m6 (p + sizeof_inode) 1 (bytes ''ramdisk'')"
      "inode_bytes (disk_nodes r f p n) \<subseteq> region r 76 \<union> region f ?k \<union> region p 152"
    using mounted_memory [of fl img _ c3 c1 c2 f p r m1 m3 m5 m6, folded n_def N_def, folded e_def, OF n nz dv(2) fs(4) dv(3) o1(1) root(5,6) fs(6,7)]
      dv(4-10,12) by blast+
  have st: "stable c3 (inode_bytes (disk_nodes r f p n))"
    using tree(5) owns_within [OF heap6 o3(1)] owns_within [OF heap6 o3(2)] owns_within [OF heap6 o3(3)] unfolding stable_def by blast
  have live: "live_set bs \<subseteq> live_set c3" using root(3) fs(4) dv(3) unfolding grows_def by blast
  have old: "m6 x = mem s x" if "owns bs q j" "x \<in> region q j" for q j x
  proof -
    have q: "owns c1 q j" "q \<noteq> r" "owns c2 q j" "q \<noteq> f"
      using grows_owns [OF root(3) that(1)] grows_owns [OF fs(4), of q j] by blast+
    have "x \<notin> region r 76" "x \<notin> region f ?k"
      using owns_apart [OF root(2) q(1) o1(1) q(2)] owns_apart [OF fs(3) q(3) o2(1) q(4)] that(2) by blast+
    moreover have "x \<notin> region e 76" "x \<notin> region (i_ptr r) 4" using calculation sube in_inode(10) [of r] by blast+
    ultimately have "m6 x = m5 x" "m5 x = m3 x" "m3 x = m1 x" using fr6 dv(12) fs(9) q(1,3) that(2) by blast+
    moreover have "m1 x = m0 x" using keeps_owns [OF heap1 that(1)] root(4) that(2) by simp
    moreover have "x \<notin> region sp 4" using owns_outside [OF ok that(1)] D(6) that(2) by (auto simp: outside_heap_def)
    ultimately show ?thesis using fr0 by simp
  qed
  have out: "m6 x = mem s x" if "outside x" "x \<notin> region sp 4" for x
    using fr6 [of x] owns_outside [OF heap6 o3(1) that(1)] dv(11) fs(8) out1 fr0 that by simp
  have base: "file_base ?e = of_nat (4 + 44 * n)" by (simp add: N_def sizeof_rd_fileheader_def sizeof_rd_header_def algebra_simps)
  have "\<exists>s'. ramfs_init hw img ebp sp s = Some (r, s') \<and> heap_ok s' c3 \<and> mem s' = m6 \<and> file_base s' = of_nat (4 + 44 * n)"
    using run heap6 base by (intro exI [of _ ?e]) simp
  then obtain s' where s': "ramfs_init hw img ebp sp s = Some (r, s')" "heap_ok s' c3" "mem s' = m6" "file_base s' = of_nat (4 + 44 * n)" by blast
  show ?thesis using s'(1,2,4) live tree(1-4)[folded s'(3)] st old[folded s'(3)] out[folded s'(3)] by blast
qed

section \<open>Properties\<close>

text \<open>
  C4: ramfs_init. When the driver holds a disk with the signatures and the header of each file, the
  call ends with the root of a tree of inodes in new objects of the heap: the entries of the root are
  the files of the disk in their order, with their names, offsets and sizes, and behind them the
  directory dev with the two devices. It is a tree as the path lookup needs it; the objects there
  were keep their contents, and so does the memory outside the heap but the variable on the stack.
\<close>

theorem ramfs_init_tree:
  fixes s :: "'a fs_scheme" and fl :: "file_header list"
  assumes "heap_ok s bs" and "top_of bs + 76 * length fl + 400 \<le> HEAP_END" and "disk_ready img (mem s) a fl sp" and "img Ramfs_finddir \<noteq> 0"
  shows "\<exists>r f p s' cs. ramfs_init hw img ebp sp s = Some (r, s') \<and> heap_ok s' cs \<and> live_set bs \<subseteq> live_set cs
    \<and> tree_ok img (disk_nodes r f p (length fl)) (disk_tree r f p (map fst fl)) (mem s')
    \<and> stable cs (inode_bytes (disk_nodes r f p (length fl)))
    \<and> (\<forall>i < length fl. file_inode img (mem s') (f + sizeof_inode * of_nat i) i (fl ! i))
    \<and> dev_inode img (mem s') p 0 (bytes ''tty'') \<and> dev_inode img (mem s') (p + sizeof_inode) 1 (bytes ''ramdisk'')
    \<and> file_base s' = of_nat (4 + 44 * length fl)
    \<and> (\<forall>q j. owns bs q j \<longrightarrow> (\<forall>x \<in> region q j. mem s' x = mem s x))
    \<and> (\<forall>x. outside x \<longrightarrow> x \<notin> region sp 4 \<longrightarrow> mem s' x = mem s x)"
  by (rule ramfs_init_run [OF assms])

text \<open>An open RAM disk at 0x5000 with one file of three bytes.\<close>

definition mount_low :: mem where
  "mount_low = (st32 (st32 (st16 (st16 (wr (wr (st32 (st32 (st32 (st32 (st32 (st32 (\<lambda>_. 0) 0x2048 0x1010) 0x204C 0x1020) 0x2050 0x1030) 0x2054 0x1040)
     0x2040 0x7000) 0x7000 0x5000) 0x2000 (bytes ''tty'')) 0x202C (bytes ''ramdisk'')) 0x5000 0xD158) 0x5002 1) 0x5004 0xDEADF11E) 0x502C 3)
     (0x5008 := 0x61)"

lemma mount_low_at: "ld32 mount_low 0x2044 = 0" "ld32 mount_low 0x2048 = 0x1010" "ld32 mount_low 0x204C = 0x1020" "ld32 mount_low 0x2050 = 0x1030"
  "ld32 mount_low 0x2054 = 0x1040" "ld32 mount_low 0x2040 = 0x7000" "ld32 mount_low 0x7000 = 0x5000"
  "cstr mount_low 0x2000 (bytes ''tty'')" "cstr mount_low 0x202C (bytes ''ramdisk'')"
  "ld16 mount_low 0x5000 = 0xD158" "ld16 mount_low 0x5002 = 1" "ld32 mount_low 0x5004 = 0xDEADF11E" "cstr mount_low 0x5008 [0x61]"
  "ld32 mount_low 0x5028 = 0" "ld32 mount_low 0x502C = 3"
  by (simp_all add: mount_low_def ld32_def st32_def ld16_def st16_def bytes_def)

theorem ramfs_init_tree_witness:
  "\<exists>r f p s'. ramfs_init (\<lambda>_ _. 0) fs_img 0 0x8000 (fs_of (demo_mem mount_low) 0) = Some (r, s')
    \<and> tree_ok fs_img (disk_nodes r f p 1) (disk_tree r f p [[0x61]]) (mem s')"
proof -
  let ?s = "fs_of (demo_mem mount_low) 0" and ?fl = "[([0x61], 0, 3)] :: file_header list"
  have hb: "unat HEAP_BASE = 0x400000" by (simp add: HEAP_BASE_def)
  have l32: "ld32 (demo_mem mount_low) p = ld32 mount_low p" if "unat p + 4 \<le> 0x400000" for p
    using demo_low [of p 4] that hb by (intro ld32_cong) auto
  have l16: "ld16 (demo_mem mount_low) p = ld16 mount_low p" if "unat p + 2 \<le> 0x400000" for p
    using demo_low [of p 2] that hb by (intro ld16_kept) auto
  have ls: "cstr (demo_mem mount_low) p w" if "cstr mount_low p w" "unat p + length w < 0x400000" for p w
    using demo_low [of p "Suc (length w)"] that hb by (intro cstr_cong [OF that(1)]) auto
  have m: "mem ?s = demo_mem mount_low" by (simp add: fs_of_def)
  have img: "fs_img Devs = 0x2000" "fs_img Ramfs_finddir = 0x1050" "fs_img Ramdisk_read = 0x1010" "fs_img Ramdisk_open = 0x1020"
    "fs_img Ramdisk_close = 0x1030" "fs_img Ramdisk_ioctl = 0x1040" by (simp_all add: fs_img_def demo_img_def)
  have d: "dev_ptr fs_img 0 = 0x2000" "dev_ptr fs_img 1 = 0x202C" "dev_ptr fs_img DEV_RAMDISK = 0x202C"
    by (simp_all add: dev_ptr_def img sizeof_device_def DEV_RAMDISK_def)
  have heap: "heap_ok ?s [(True, 24)]"
    using demo_heap [of mount_low 0] heap_ok_fields [of ?s "console_of (demo_mem mount_low) 0" "[(True, 24)]"] by (simp add: fs_of_def console_of_def)
  have out: "outside_heap p n" if "unat p + n \<le> 0x400000" for p n using that low_region hb by simp
  have at: "ramdisk_at fs_img (mem ?s) 0x5000"
    using mount_low_at l32 [of "0x2044"] l32 [of "0x2048"] l32 [of "0x204C"] l32 [of "0x2050"] l32 [of "0x2054"] l32 [of "0x2040"] l32 [of "0x7000"]
    by (simp add: m ramdisk_at_def ramdisk_entry_def d img dev_write_fn_def dev_read_fn_def dev_open_fn_def dev_close_fn_def dev_ioctl_fn_def dev_data_def)
  have "disk_file (mem ?s) 0x5004 ([0x61], 0, 3)"
    using mount_low_at l32 [of "0x5004"] l32 [of "0x5028"] l32 [of "0x502C"] ls [of "0x5008" "[0x61]"]
    by (simp add: m disk_file_def rf_magic_def rf_name_def rf_offset_def rf_size_def RD_FILESIG_def)
  then have disk: "disk_at (mem ?s) 0x5000 ?fl"
    using mount_low_at l16 [of "0x5000"] l16 [of "0x5002"]
    by (simp add: m disk_at_def rh_signature_def rh_nfiles_def RD_HEADSIG_def sizeof_rd_header_def)
  have nm: "dev_names fs_img (mem ?s)"
    using mount_low_at ls [of "0x2000" "bytes ''tty''"] ls [of "0x202C" "bytes ''ramdisk''"] by (simp add: m dev_names_def dev_name_def d)
  have "region 0x8000 4 \<inter> region (0x5000 :: addr) 48 = {}" "region 0x8000 4 \<inter> region (0x2000 :: addr) 88 = {}"
    by (rule sep_region; simp add: sep_def)+
  then have "disk_ready fs_img (mem ?s) 0x5000 ?fl 0x8000"
    using at disk nm out by (simp add: disk_ready_def img)
  moreover have "top_of [(True, 24)] + 76 * length ?fl + 400 \<le> HEAP_END" by (simp add: heap_eval)
  ultimately show ?thesis
    using ramfs_init_tree [of ?s "[(True, 24)]" ?fl fs_img "0x5000" "0x8000" "\<lambda>_ _. 0" 0] heap img(2) by auto
qed

end
