(* ===== verification/Kmalloc_Defects.thy ===== *)
theory Kmalloc_Defects
  imports Kmalloc_Heap
begin

text \<open>
  Two defects of kmalloca on well-formed heaps, both in requests with an alignment that make the
  heap grow: a new block whose header lies in the block before it, and an empty first block that
  is left behind and handed out later on top of its neighbour.
\<close>

section \<open>A new block that moves down\<close>

lemma pad_down:
  assumes t: "8 dvd t" and no: "\<not> pad_ok k t"
  shows "(t div 2 ^ k + 1) * 2 ^ k = t + 8" "\<not> aligned k t"
proof -
  let ?M = "(t div 2 ^ k + 1) * 2 ^ k"
  show al: "\<not> aligned k t" using no by (simp add: pad_ok_def)
  have "\<not> k \<le> 3"
  proof
    assume "k \<le> 3"
    then have "(2 :: nat) ^ k dvd 2 ^ 3" by (rule le_imp_power_dvd)
    moreover have "(2 :: nat) ^ 3 dvd t + 16" using t by simp
    ultimately have "2 ^ k dvd t + 16" by (rule dvd_trans)
    with al show False by (simp add: aligned_def)
  qed
  then have "(2 :: nat) ^ 3 dvd 2 ^ k" by (intro le_imp_power_dvd) simp
  then have "8 dvd ?M" by (simp add: dvd_mult)
  moreover have "t < ?M" using dividend_less_div_times [of "2 ^ k" t] by simp
  moreover have "?M < t + 16" using no by (simp add: pad_ok_def)
  ultimately show "?M = t + 8" using t by presburger
qed

lemma down_word:
  assumes "8 dvd unat p" and "\<not> pad_ok k (unat p)"
  shows "(p AND push_bit k 0xFFFFFFFF) + push_bit k 1 - BLOCKSIZ = p - 8"
proof -
  have "(of_nat ((unat p div 2 ^ k + 1) * 2 ^ k) :: u32) = of_nat (unat p + 8)"
    using pad_down(1) [OF assms] by (simp only:)
  then show ?thesis
    unfolding and_ones by (simp add: push_bit_eq_mult BLOCKSIZ_def algebra_simps)
qed

lemma lookup_walk:
  fixes s :: "'a heap_scheme"
  assumes "chain (mem s) pv a (pre @ [(True, j)])" "list_all fst pre" "list_all (\<lambda>b. 0 < snd b) (pre @ [(True, j)])"
    "slot s blk = a" "a \<noteq> 0" "unat a + ext (pre @ [(True, j)]) \<le> 2 ^ 32"
  shows "lookup s blk n align = lookup s (a + of_nat (ext pre)) n align
    \<and> (\<exists>pv'. chain (mem s) pv' (a + of_nat (ext pre)) [(True, j)])"
  using assms
proof (induction pre arbitrary: blk a pv)
  case Nil
  then have "0 < j" "j < 2 ^ 32" by auto
  then have "lookup s blk n align = lookup s a n align"
    using Nil.prems of_nat_eq_0_32 [of j] by (intro lookup_skip) auto
  with Nil.prems(1) show ?case by auto
next
  case (Cons b pre)
  obtain sz where b: "b = (True, sz)" using Cons.prems(2) by (cases b) auto
  let ?a = "a + 16 + of_nat sz"
  have bd: "unat a + ext ((True, sz) # (pre @ [(True, j)])) \<le> 2 ^ 32" using Cons.prems(6) b by simp
  have ua: "unat ?a = unat a + 16 + sz" by (rule unat_next [OF bd]) simp
  have "0 < sz" "sz < 2 ^ 32" using Cons.prems(3) bd b by auto
  then have "lookup s blk n align = lookup s a n align"
    using Cons.prems(1,4,5) b of_nat_eq_0_32 [of sz] by (intro lookup_skip) auto
  moreover have "lookup s a n align = lookup s (?a + of_nat (ext pre)) n align
    \<and> (\<exists>pv'. chain (mem s) pv' (?a + of_nat (ext pre)) [(True, j)])"
  proof (rule Cons.IH)
    show "chain (mem s) a ?a (pre @ [(True, j)])" "slot s a = ?a" using Cons.prems(1,5) b by (auto simp: slot_def)
    show "?a \<noteq> 0" using ua by auto
    show "unat ?a + ext (pre @ [(True, j)]) \<le> 2 ^ 32" using bd ua by simp
  qed (use Cons.prems(2,3) in auto)
  ultimately show ?case by (simp add: b ac_simps)
qed

lemma lookup_down:
  fixes s :: "'a heap_scheme"
  assumes ch: "chain (mem s) pv a [(True, j)]" and a: "a \<noteq> 0" and k: "unat align < 32"
    and t: "t = unat a + 16 + j" "8 dvd t" "t + 16 < 2 ^ 32" and j: "8 \<le> j"
    and no: "\<not> pad_ok (unat align) t" and q: "q = a + 16 + of_nat (j - 8)"
    and free: "blk_used (mem s) q = 0" and n: "n \<noteq> 0"
    and zero: "\<And>x. t \<le> unat x \<Longrightarrow> unat x < t + 8 \<Longrightarrow> mem s x = 0"
  shows "\<exists>m l. lookup s a n align = Some (q, s\<lparr>log := l, mem := m\<rparr>) \<and> blk_next m a = q \<and> blk_size m a = of_nat (j - 8)
    \<and> blk_used m q = 1 \<and> blk_size m q = n"
proof -
  let ?k = "unat align" and ?p = "a + 16 + of_nat j"
  have up: "unat ?p = t" using unat_add_of_nat32 [of a "16 + j"] t by (simp add: add.assoc)
  have uq: "unat q = t - 8" using unat_add_of_nat32 [of a "16 + (j - 8)"] t j by (simp add: q add.assoc)
  have pq: "?p - 8 = q" using j by (simp add: q of_nat_diff)
  have un: "align \<noteq> 0 \<and> blk_data ?p mod push_bit ?k 1 \<noteq> 0"
    using misaligned_iff [OF k, of ?p] pad_down(2) [OF t(2) no] up t(3) by simp
  have dn: "(?p AND push_bit ?k 0xFFFFFFFF) + push_bit ?k 1 - 16 = q"
    using down_word [of ?p ?k] up t(2) no pq by (simp add: BLOCKSIZ_def)
  have sp: "sep q 16 a 16" "sep a 16 q 16" using uq t j by (auto intro!: sep_cases)
  have hd: "blk_used (mem s) a = 1" "blk_size (mem s) a = of_nat j" "blk_next (mem s) a = 0" using ch by auto
  have nx: "blk_next (mem s) q = 0"
  proof -
    have "mem s x = 0" if "x \<in> region (q + 12) 4" for x
    proof (rule zero)
      from that obtain i where i: "i < 4" "x = q + 12 + of_nat i" by (rule regionE)
      have "unat q + (12 + i) < 2 ^ 32" using uq t i by simp
      from unat_add_of_nat32 [OF this] have "unat x = unat q + (12 + i)" using i(2) by (simp add: add.assoc)
      with i(1) uq t(1) j show "t \<le> unat x" "unat x < t + 8" by auto
    qed
    then show ?thesis by (auto simp: blk_next_def intro!: ld32_zero)
  qed
  have z: "q \<noteq> 0" using uq t(1) j by auto
  have sz: "q - blk_data a = of_nat (j - 8)" by (simp add: blk_data_def q)
  define m1 where "m1 = set_size (set_next (set_next (set_next (mem s) a ?p) a (?p AND push_bit ?k 0xFFFFFFFF)) a q) a (of_nat (j - 8))"
  define m2 where "m2 = set_size (set_prev m1 q a) q n"
  let ?s = "s\<lparr>log := log s @ [new_block_msg (blk_data q)], mem := m2\<rparr>"
  have "lookup_new s a n align = ?s"
    using a hd un sp
    by (simp add: lookup_new_def Let_def slot_def set_slot_def say_def m2_def m1_def BLOCKSIZ_def dn sz
        del: push_bit_of_1 of_nat_add)
  moreover have m2: "blk_next m2 a = q" "blk_size m2 a = of_nat (j - 8)" "blk_used m2 q = 0" "blk_size m2 q = n" "blk_next m2 q = 0"
    using sp free nx by (simp_all add: m2_def m1_def)
  moreover have sl: "slot ?s a = q" using m2(1) a by (simp add: slot_def)
  ultimately have "lookup s a n align = lookup ?s a n align" using hd(3) a z by (intro lookup_grow) (auto simp: slot_def)
  also have "\<dots> = Some (slot (?s\<lparr>mem := set_used m2 q 1\<rparr>) a, ?s\<lparr>mem := set_used m2 q 1\<rparr>)"
  proof (rule lookup_take [OF sl z])
    have "aligned ?k (unat q)"
    proof -
      have e: "unat q + 16 = t + 8" using uq t(1) j by simp
      have "2 ^ ?k dvd t + 8" using pad_down(1) [OF t(2) no] by (metis dvd_triv_right)
      then show ?thesis unfolding aligned_def e by (rule disjI2)
    qed
    then show "\<not> (align \<noteq> 0 \<and> blk_data q mod push_bit ?k 1 \<noteq> 0)" using misaligned_iff [OF k, of q] uq t(3) by simp
    show "split_block (set_used (mem ?s) q 1) q n = Some (set_used m2 q 1)" using m2(5) z by (simp add: split_block_last)
  qed (use m2 in simp_all)
  also have "slot (?s\<lparr>mem := set_used m2 q 1\<rparr>) a = q" using m2(1) a sp by (simp add: slot_def)
  finally show ?thesis using m2 sp
    by (intro exI [of _ "set_used m2 q 1"] exI [of _ "log s @ [new_block_msg (blk_data q)]"]) simp
qed

lemma round8_pos:
  assumes "sz \<noteq> 0" "unat sz \<le> 0xFFFFFFF8"
  shows "0 < unat (round8 sz)"
proof -
  have "0 < unat sz" using assms(1) by (simp add: unat_gt_0)
  then show ?thesis unfolding unat_round8 [OF assms(2)] by presburger
qed

section \<open>Properties\<close>

text \<open>
  C23: A defect of lookup (lines 68 to 72). All blocks are in use and less than 16 bytes are left
  between the end of the heap and the next address aligned as requested. The header of the new
  block is put 16 bytes below that address, in the last eight bytes of the last block, which is
  in use: its size shrinks by eight and its last eight bytes become the fields used and size of the
  new header. (When the first four of these bytes are not zero the new block passes for one in
  use and is skipped.)
\<close>

theorem kmalloca_moves_down:
  fixes s :: "'a heap_scheme"
  assumes ok: "heap_ok s (pre @ [(True, j)])" and used: "list_all fst pre"
    and sz: "sz \<noteq> 0" "unat sz \<le> 0xFFFFFFF8" and k: "unat align < 32"
    and no: "\<not> pad_ok (unat align) (top_of (pre @ [(True, j)]))"
    and blk: "blk = HEAP_BASE + of_nat (ext pre)" "q = blk + 16 + of_nat (j - 8)"
    and free: "ld32 (mem s) q = 0" and room: "top_of (pre @ [(True, j)]) + 8 \<le> HEAP_END"
  shows "\<exists>s'. kmalloca s sz align = Some (q + 16, s') \<and> 8 \<le> j \<and> blk_next (mem s') blk = q \<and> blk_size (mem s') blk = of_nat (j - 8)
    \<and> ld32 (mem s') q = 1 \<and> ld32 (mem s') (q + 4) = round8 sz"
proof -
  let ?bs = "pre @ [(True, j)]" and ?t = "top_of (pre @ [(True, j)])"
  have h: "root s = HEAP_BASE" "chain (mem s) 0 HEAP_BASE ?bs" "list_all (\<lambda>b. 8 dvd snd b) ?bs" "list_all (\<lambda>b. 0 < snd b) ?bs"
    "\<And>x. ?t \<le> unat x \<Longrightarrow> unat x < HEAP_END \<Longrightarrow> mem s x = 0"
    using ok by (auto simp: heap_ok_def sizes_ok_def)
  have j: "8 \<le> j" using h(3,4) by (auto dest: dvd_imp_le)
  have hb: "HEAP_BASE \<noteq> 0" by (simp add: HEAP_BASE_def)
  have bd: "unat HEAP_BASE + ext ?bs \<le> HEAP_END" using room by (simp add: top_of_def)
  have ub: "unat blk = unat HEAP_BASE + ext pre"
    unfolding blk(1) using bd by (intro unat_add_of_nat32) (simp add: HEAP_END_def)
  then have bz: "blk \<noteq> 0" by (auto simp: HEAP_BASE_def)
  have t: "?t = unat blk + 16 + j" by (simp add: top_of_def ub)
  have "8 dvd ext bs" if "list_all (\<lambda>b. 8 dvd snd b) bs" for bs :: "ablock list"
    using that by (induction bs rule: ext.induct) auto
  then have "8 dvd ?t" using h(3) by (simp add: top_of_def HEAP_BASE_def)
  moreover have "slot s 0 = HEAP_BASE" using h(1) by (simp add: slot_def)
  with lookup_walk [OF h(2) used h(4) _ hb, of 0 "round8 sz" align] bd obtain pv where
    w: "lookup s 0 (round8 sz) align = lookup s blk (round8 sz) align" "chain (mem s) pv blk [(True, j)]"
    by (auto simp: blk(1) HEAP_END_def)
  moreover have "round8 sz \<noteq> 0"
    using round8_pos [OF sz] by auto
  ultimately obtain m l where "lookup s blk (round8 sz) align = Some (q, s\<lparr>log := l, mem := m\<rparr>)"
    "blk_next m blk = q" "blk_size m blk = of_nat (j - 8)" "blk_used m q = 1" "blk_size m q = round8 sz"
    using lookup_down [OF w(2) bz k t _ _ j no blk(2), of "round8 sz"] free room h(5) ub
    by (auto simp: blk_used_def HEAP_END_def HEAP_BASE_def)
  then show ?thesis using w(1) h(1) hb sz(1) j
    by (auto simp: kmalloca_def Let_def blk_data_def blk_used_def blk_size_def)
qed

theorem kmalloca_moves_down_witness:
  "\<exists>s'. kmalloca (heap_of [(True, 0xFE8)]) 4096 12 = Some (0x401000, s') \<and> blk_size (mem s') 0x400000 = 0xFE0
     \<and> ld32 (mem s') 0x400FF4 = 4096"
proof -
  let ?s = "heap_of [(True, 0xFE8)]"
  have "mk_chain 0 HEAP_BASE [(True, 0xFE8)] x = 0" if "x \<in> region 0x400FF0 4" for x
  proof (rule mk_chain_frame)
    have "sep 0x400FF0 4 HEAP_BASE 16" by (simp add: sep_def HEAP_BASE_def)
    from sep_region [OF this] that show "x \<notin> hdrs HEAP_BASE [(True, 0xFE8)]" by auto
  qed
  then have fr: "ld32 (mem ?s) 0x400FF0 = 0" by (intro ld32_zero) (simp add: heap_of_def)
  have ok: "heap_ok ?s ([] @ [(True, 0xFE8)])" by (simp add: heap_eval)
  have no: "\<not> pad_ok (unat (12 :: u32)) (top_of ([] @ [(True, 0xFE8)]))" and room: "top_of ([] @ [(True, 0xFE8)]) + 8 \<le> HEAP_END"
    by (simp_all add: pad_ok_def aligned_def top_of_def HEAP_BASE_def HEAP_END_def)
  have at: "(0x400000 :: addr) = HEAP_BASE + of_nat (ext [])" "(0x400FF0 :: addr) = 0x400000 + 16 + of_nat (0xFE8 - 8)"
    by (simp_all add: HEAP_BASE_def)
  show ?thesis
    using kmalloca_moves_down [where sz = 4096, OF ok _ _ _ _ no at fr room] by (auto simp: round8_def)
qed

text \<open>
  C24: A defect of lookup (lines 87 to 91). In the initial heap, whose only block is empty and free, an
  aligned request that needs no padding gets a new block and leaves the empty one before it. The next
  request without an alignment takes the empty block for the end of the heap and sets its size,
  though no data is behind it: the pointer it returns is the header of the block given out first.
\<close>

theorem kmalloca_empty_first:
  fixes s :: "'a heap_scheme"
  assumes ok: "heap_ok s [(False, 0)]" and align: "align \<noteq> 0" "unat align \<le> 5"
    and sz: "sz \<noteq> 0" "unat sz \<le> 0x1000" and sz': "sz' \<noteq> 0" "unat sz' \<le> 0xFFFFFFF8"
  shows "\<exists>s' s''. kmalloca s sz align = Some (HEAP_BASE + 32, s') \<and> kmalloc s' sz' = Some (HEAP_BASE + 16, s'')
    \<and> blk_size (mem s'') HEAP_BASE = round8 sz' \<and> blk_next (mem s'') HEAP_BASE = HEAP_BASE + 16
    \<and> blk_used (mem s'') (HEAP_BASE + 16) = 1 \<and> blk_size (mem s'') (HEAP_BASE + 16) = round8 sz"
proof -
  let ?a = HEAP_BASE and ?n = "unat (round8 sz)"
  have h: "root s = ?a" "chain (mem s) 0 ?a [(False, 0)]" "\<And>x. top_of [(False, 0)] \<le> unat x \<Longrightarrow> unat x < HEAP_END \<Longrightarrow> mem s x = 0"
    using ok by (auto simp: heap_ok_def)
  have n: "0 < ?n" "?n \<le> 0x1000" using round8_pos [OF sz(1)] unat_round8 [of sz] sz(2) by auto
  have n': "0 < unat (round8 sz')" by (rule round8_pos [OF sz'])
  have k: "unat align \<noteq> 0" using align(1) by (simp add: unat_eq_0)
  have "(2 :: nat) ^ unat align dvd 2 ^ 5" using align(2) by (rule le_imp_power_dvd)
  moreover have "(2 :: nat) ^ 5 dvd unat ?a + 16 + 16" by (simp add: HEAP_BASE_def)
  ultimately have "2 ^ unat align dvd unat ?a + 16 + 16" by (rule dvd_trans)
  then have al: "aligned (unat align) (unat ?a + 16)" by (simp add: aligned_def)
  have run: "aalloc (unat align) ?n (unat ?a) [(False, 0)] = (unat ?a + 16, [(False, 0), (True, ?n)])"
    using k n al by (simp add: pad_def)
  have "\<exists>m l. lookup s 0 (of_nat ?n) align = Some (of_nat (unat ?a + 16), s\<lparr>log := l, mem := m\<rparr>)
    \<and> chain m 0 ?a [(False, 0), (True, ?n)] \<and> (\<forall>x. x \<notin> hdrs ?a [(False, 0), (True, ?n)] \<longrightarrow> m x = mem s x)"
  proof (rule lookup_refines [OF h(2) _ _ _ _ _ _ run _ _ _ n(1) unat_lt32])
    show "slot s 0 = ?a" using h(1) by (simp add: slot_def)
    show "pad_ok (unat align) (unat ?a + ext [(False, 0)])" using al by (simp add: pad_ok_def)
    show "mem s x = 0" if "unat ?a + ext [(False, 0)] \<le> unat x" "unat x < unat ?a + ext [(False, 0), (True, ?n)]" for x
      using that n(2) h(3) [of x] by (simp add: top_of_def HEAP_END_def HEAP_BASE_def)
  qed (use align n in \<open>auto simp: HEAP_BASE_def nonzero_sizes_def\<close>)
  then obtain m l where r: "lookup s 0 (round8 sz) align = Some (?a + 16, s\<lparr>log := l, mem := m\<rparr>)"
    "chain m 0 ?a [(False, 0), (True, ?n)]" by auto
  let ?s = "s\<lparr>log := l, mem := m\<rparr>" and ?m = "set_used (set_size m ?a (round8 sz')) ?a 1"
  have sp: "sep ?a 16 (?a + 16) 16" "sep (?a + 16) 16 ?a 16" by (simp_all add: sep_def HEAP_BASE_def)
  have "kmalloca s sz align = Some (?a + 32, ?s)"
    using r(1) h(1) sz by (simp add: kmalloca_def blk_data_def HEAP_BASE_def)
  moreover have "lookup ?s 0 (round8 sz') 0 = Some (?a, ?s\<lparr>mem := ?m\<rparr>)"
    using r(2) h(1) n' by (subst lookup.simps) (auto simp: slot_def HEAP_BASE_def word_le_nat_alt)
  then have "kmalloc ?s sz' = Some (?a + 16, ?s\<lparr>mem := ?m\<rparr>)"
    using h(1) sz' by (simp add: kmalloc_def kmalloca_def blk_data_def HEAP_BASE_def)
  moreover have "blk_size ?m ?a = round8 sz'" "blk_next ?m ?a = ?a + 16" "blk_used ?m (?a + 16) = 1" "blk_size ?m (?a + 16) = round8 sz"
    using r(2) sp by simp_all
  ultimately show ?thesis by (intro exI [of _ ?s] exI [of _ "?s\<lparr>mem := ?m\<rparr>"]) simp
qed

theorem kmalloca_empty_first_witness:
  "\<exists>s' s''. kmalloca (heap_of [(False, 0)]) 100 4 = Some (0x400020, s') \<and> kmalloc s' 24 = Some (0x400010, s'')
     \<and> blk_next (mem s'') 0x400000 = 0x400010"
  using kmalloca_empty_first [of "heap_of [(False, 0)]" 4 100 24] by (simp add: heap_eval) blast

end
