(* ===== verification/Spec2Isabelle.thy ===== *)
theory Spec2Isabelle
  imports Pci Serial Acpi Floppy Shell Session Kernel Boot Mount Kmalloc_Defects
begin

text \<open>
  A verification of FOOS, a small i386 kernel in C: the C library, the heap, interrupts, paging,
  the drivers, the file systems, power management, the shell and the entry of the kernel.

  The program. boot/ loads the kernel; kernel/main.c initialises the components and enters the
  shell. All components work on one flat memory: the heap (kernel/kmalloc.c) gives out blocks from
  0x400000 on, in which the interrupt tables, the frame bitmap, the page tables, the terminal, the
  driver data and the inodes live. Functions are called through tables in memory: the interrupt
  handlers, the devices (kernel/dev/device.c) and the inodes (libfs/wrap.c).

  The model. A machine (theory Machine) has the memory, errno, the trace of port accesses and the
  trace of messages; each component extends this record by the static variables of its file, so
  the records form a chain: machine, serial, heap, intr, pmem, vmem, pit, tty, console, fs, acpi,
  kernel (and floppy beside it, on pit). An operation is a function from states to states, with the names of the source. A
  result None means that the call never returns (an endless loop, a failed assertion, a handler
  that spins) or jumps to an address of no function of the source; loops that may not end are
  partial functions, all others are total, and no bound or fuel is used. Words have the width
  of the source and wrap. Local variables whose address is taken live at addresses that are
  parameters. The hardware answers port reads by a function of the accesses so far; what the code
  needs of a device (a latching mask register, a UART that becomes ready, a CRT controller, a
  keyboard) is a named hypothesis with an instance. The linker's placement of functions and static
  objects is the parameter image. A loop that waits for an interrupt consumes a list of interrupts.
  The messages of the kernel (printf, puts, serial_printf) are kept in the trace as the call made;
  Console and Serial show what such a call does to the screen and to the line.

  The theories.
    Prelude, Machine, Ports: memory, words, strings and regions; the state; include/asm/ioports.h.
    Libc_String, Libc_Strtok, Libc_Conv, Libc_Printf: libc/ and include/string.h. Each routine
      ends and meets its specification on lists of bytes; itoa fails on the least int.
    Kmalloc: the operations of kernel/kmalloc.c on block headers in memory. Kmalloc_Blocks: each
      of them is an operation on an abstract list of blocks. Allocator: the interface of an
      allocator as a locale. Kmalloc_Heap: the invariant of the heap, the interpretation of the
      interface and the defects of merge. Kmalloc_Defects: the two defects of lookup in aligned
      requests, whose cases kmalloca_ok excludes. Heap_Client, Pages: objects in blocks, zeroed and
      page-aligned allocations.
    Bitset, Pmem: the frame bitmap of kernel/pmem.c as an instance of a set of numbers.
    Pic, Interrupt: kernel/dev/pic.c and kernel/interrupt.c: gates, handlers and dispatch.
    Vmem: kernel/vmem.c and kernel/debug.c: the first 16 MB are mapped to themselves.
    Pit, Pci, Serial: kernel/dev/pit.c, kernel/dev/pci.c with include/asm/cmos.h, kernel/dev/serial.c.
    Vga, Tty: the two halves of kernel/dev/tty.c. Printing refines a terminal of 2000 cells; a line
      that is read is what an abstract editor makes of the scan codes.
    Device, Ramdisk: the device table and the RAM disk; the driver is a locale.
    Console: the functions of the kernel behind its tables, the interpretation of the driver, and
      libc/output.c, libc/input.c and printf on them.
    Fs: libfs/. fs_lookup is the resolution of a path in an abstract tree; fs_read copies a file.
    Mount: from the headers of a disk ramfs_init and devfs_init build the directory tree on which
      fs_lookup works.
    Acpi: kernel/acpi.c. The search for the object _S5_ finds its first declaration.
    Floppy: kernel/dev/floppy.c, which only waits for its interrupt.
    Shell: kernel/shell.c. A line does what its meaning as a command says, with the table of
      handlers read from the image. Session: typing a line at the prompt, and what cat prints.
    Kernel: kernel/main.c, from the initialisations to switching off. Boot: the initialisations, one
      after the other on an empty heap, leave a kernel whose interrupts, terminal and paging work.

  Not modelled. boot/, kernel/entry.S and the stubs of kernel/asm.S: assembly that loads the kernel,
  sets up the stack and enters the handlers; of asm.S vmem_enable is modelled. kernel/assert.c
  prints and spins: a failed assertion is the result None. arm/ and disk/hello: a stub for another
  machine and a sample program. The headers dma.h and tarfs.h declare functions that no file of the
  repository defines, as does floppy.h but for floppy_init; the configuration USE_TARFS is left out
  for that reason. include/stdarg.h is a header of the compiler; its va_arg is modelled in
  Libc_Printf.
\<close>

end
